(* ===== verification/Prelude.thy ===== *)
theory Prelude
  imports Main "HOL-Library.Word"
begin

text \<open>
  Shared base of the development: the machine integers of the i386 target, the memory the
  kernel addresses, the address-window macros of src/src/includes/utils.hpp, little-endian
  loads and stores, and the loop combinators that stand for the C loops
  \<open>for (size_t i = a; i < n; i++)\<close>, \<open>for (i = n; i != 0; i--)\<close> and for a
  scan that stops at the first hit. Every lemma here is generic: the components instantiate
  the loop rules with their own invariants.
\<close>

unbundle bit_operations_syntax

section \<open>Machine integers and collections of facts\<close>

type_synonym u8 = "8 word"
type_synonym u16 = "16 word"
type_synonym u32 = "32 word"
type_synonym u64 = "64 word"

named_theorems mem_simps "reads of an updated memory"
named_theorems frame_simps "what an operation leaves unchanged"

section \<open>Loops\<close>

text \<open>
  \<open>for (uint32_t j = i; j < n; j++) f(j)\<close> over a state, with the index at its width.
\<close>

function for_from :: "u32 \<Rightarrow> u32 \<Rightarrow> (u32 \<Rightarrow> 's \<Rightarrow> 's) \<Rightarrow> 's \<Rightarrow> 's" where
  "for_from i n f s = (if i < n then for_from (i + 1) n f (f i s) else s)"
  by pat_completeness auto

lemma unat_bound32: "unat a < 4294967296" for a :: u32
proof -
  have "unat a < 2 ^ LENGTH(32)" by (rule unsigned_less)
  then show ?thesis by simp
qed

lemma unat_suc_less: "i < n \<Longrightarrow> unat (i + 1) = unat i + 1" for i n :: u32
  by unat_arith

lemma le_suc_of_less: "i < n \<Longrightarrow> i \<le> i + 1" for i n :: u32
  by unat_arith

lemma less_suc_split: "j < n \<Longrightarrow> x < j + 1 \<longleftrightarrow> x < j \<or> x = j" for j n x :: u32
  by unat_arith

lemma diff_eq_iff_add: "x - a = j \<longleftrightarrow> x = a + j" for x a j :: u32
  by (auto simp: algebra_simps)

lemma word_less_succ_measure: "i < n \<Longrightarrow> unat (n - (i + 1)) < unat (n - i)" for i n :: u32
  by unat_arith

termination for_from
  by (relation "measure (\<lambda>(i, n, f, s). unat (n - i))") (auto simp: word_less_succ_measure)

declare for_from.simps [simp del]

lemma for_from_step: "i < n \<Longrightarrow> for_from i n f s = for_from (i + 1) n f (f i s)"
  by (simp add: for_from.simps [of i n f s])

lemma for_from_done: "\<not> i < n \<Longrightarrow> for_from i n f s = s"
  by (simp add: for_from.simps [of i n f s])

lemma for_from_0 [simp]: "for_from 0 0 f s = s"
  by (simp add: for_from_done)

text \<open>The loop rule: an invariant indexed by the counter.\<close>

lemma for_from_invariant:
  fixes i n :: u32
  assumes "P i s" and "i \<le> n"
    and "\<And>j t. i \<le> j \<Longrightarrow> j < n \<Longrightarrow> P j t \<Longrightarrow> P (j + 1) (f j t)"
  shows "P n (for_from i n f s)"
  using assms
proof (induction i n f s rule: for_from.induct)
  case (1 i n f s)
  show ?case
  proof (cases "i < n")
    case True
    then have ord: "i + 1 \<le> n" "i \<le> i + 1"
      by (simp_all add: inc_le le_suc_of_less)
    have "P (i + 1) (f i s)" using 1(2,4) True by simp
    then have "P n (for_from (i + 1) n f (f i s))"
      using 1(1)[OF True] ord 1(4) by (meson order_trans)
    then show ?thesis using True by (simp add: for_from_step)
  next
    case False
    with 1 show ?thesis by (simp add: for_from_done)
  qed
qed

lemma for_from_invariant0:
  fixes n :: u32
  assumes "P 0 s" and "\<And>j t. j < n \<Longrightarrow> P j t \<Longrightarrow> P (j + 1) (f j t)"
  shows "P n (for_from 0 n f s)"
  by (rule for_from_invariant) (use assms in auto)

text \<open>A loop cut in two.\<close>

lemma for_from_split: "i \<le> k \<Longrightarrow> k \<le> n \<Longrightarrow> for_from i n f s = for_from k n f (for_from i k f s)"
proof (induction i k f s rule: for_from.induct)
  case (1 i k f s)
  show ?case
  proof (cases "i < k")
    case True
    with 1 have "i < n" "i + 1 \<le> k" by (auto simp: inc_le)
    with 1 True show ?thesis by (simp add: for_from_step)
  next
    case False
    with 1 have "i = k" by simp
    then show ?thesis by (simp add: for_from_done)
  qed
qed

text \<open>A predicate every iteration keeps, whatever the index.\<close>

lemma for_from_keeps:
  assumes "Q s" and "\<And>j t. i \<le> j \<Longrightarrow> j < n \<Longrightarrow> Q t \<Longrightarrow> Q (f j t)"
  shows "Q (for_from i n f s)"
proof (cases "i \<le> n")
  case True
  show ?thesis by (rule for_from_invariant [where P = "\<lambda>_. Q", OF _ True]) (use assms in auto)
next
  case False
  with assms show ?thesis by (simp add: for_from_done)
qed

text \<open>\<open>for (size_t i = n; i != 0; i--) f(i)\<close>.\<close>

function for_down :: "u32 \<Rightarrow> (u32 \<Rightarrow> 's \<Rightarrow> 's) \<Rightarrow> 's \<Rightarrow> 's" where
  "for_down i f s = (if i \<noteq> 0 then for_down (i - 1) f (f i s) else s)"
  by pat_completeness auto
termination
  by (relation "measure (\<lambda>(i, f, s). unat i)") (auto simp: unat_minus_one unat_gt_0)

declare for_down.simps [simp del]

lemma for_down_invariant:
  fixes n :: u32
  assumes "P n s" and "\<And>j t. j \<noteq> 0 \<Longrightarrow> j \<le> n \<Longrightarrow> P j t \<Longrightarrow> P (j - 1) (f j t)"
  shows "P 0 (for_down n f s)"
  using assms
proof (induction n f s rule: for_down.induct)
  case (1 i f s)
  show ?case
  proof (cases "i = 0")
    case True
    with 1(2) show ?thesis by (simp add: for_down.simps [of 0 f s])
  next
    case False
    then have le: "i - 1 \<le> i" by unat_arith
    have "P (i - 1) (f i s)" using 1(2,3) False by simp
    with 1(1)[OF False] 1(3) le have "P 0 (for_down (i - 1) f (f i s))"
      by (meson order_trans)
    with False show ?thesis by (simp add: for_down.simps [of i f s])
  qed
qed

text \<open>A scan \<open>for (j = i; j < n; j++) if (p(j)) return j;\<close>: the first hit, if any.\<close>

function find_from :: "u32 \<Rightarrow> u32 \<Rightarrow> (u32 \<Rightarrow> bool) \<Rightarrow> u32 option" where
  "find_from i n p =
     (if i < n then (if p i then Some i else find_from (i + 1) n p) else None)"
  by pat_completeness auto
termination
  by (relation "measure (\<lambda>(i, n, p). unat (n - i))") (auto simp: word_less_succ_measure)

declare find_from.simps [simp del]

lemma le_iff_eq_or_suc: "i < n \<Longrightarrow> i \<le> k \<longleftrightarrow> k = i \<or> i + 1 \<le> k" for i k n :: u32
  by unat_arith

lemma find_from_step: "i < n \<Longrightarrow> \<not> p i \<Longrightarrow> find_from i n p = find_from (i + 1) n p"
  by (simp add: find_from.simps [of i n p])

lemma find_from_hit: "i < n \<Longrightarrow> p i \<Longrightarrow> find_from i n p = Some i"
  by (simp add: find_from.simps [of i n p])

lemma find_from_done: "\<not> i < n \<Longrightarrow> find_from i n p = None"
  by (simp add: find_from.simps [of i n p])

lemma find_from_SomeD:
  "find_from i n p = Some j \<Longrightarrow> i \<le> j \<and> j < n \<and> p j \<and> (\<forall>k. i \<le> k \<and> k < j \<longrightarrow> \<not> p k)"
proof (induction i n p rule: find_from.induct)
  case (1 i n p)
  consider "\<not> i < n" | "i < n" "p i" | "i < n" "\<not> p i" by blast
  then show ?case
  proof cases
    case 1
    with "1.prems" show ?thesis by (simp add: find_from_done)
  next
    case 2
    with "1.prems" show ?thesis by (auto simp: find_from_hit)
  next
    case 3
    with "1.prems" have "find_from (i + 1) n p = Some j" by (simp add: find_from_step)
    from "1.IH"[OF 3 this] show ?thesis using 3 by (auto simp: le_iff_eq_or_suc [OF 3(1)])
  qed
qed

lemma find_from_NoneD: "find_from i n p = None \<Longrightarrow> i \<le> k \<Longrightarrow> k < n \<Longrightarrow> \<not> p k"
proof (induction i n p rule: find_from.induct)
  case (1 i n p)
  from "1.prems" have lt: "i < n" by simp
  with "1.prems"(1) have np: "\<not> p i" by (auto simp: find_from_hit)
  with lt "1.prems"(1) have "find_from (i + 1) n p = None" by (simp add: find_from_step)
  from "1.IH"[OF lt np this] np "1.prems"(2,3) show ?case by (auto simp: le_iff_eq_or_suc [OF lt])
qed

lemma find_from_None_iff: "find_from i n p = None \<longleftrightarrow> (\<forall>k. i \<le> k \<and> k < n \<longrightarrow> \<not> p k)"
  using find_from_NoneD [of i n p] find_from_SomeD [of i n p]
  by (cases "find_from i n p") auto

lemma find_from_Some_iff:
  "find_from i n p = Some j \<longleftrightarrow> i \<le> j \<and> j < n \<and> p j \<and> (\<forall>k. i \<le> k \<and> k < j \<longrightarrow> \<not> p k)"
proof
  assume R: "i \<le> j \<and> j < n \<and> p j \<and> (\<forall>k. i \<le> k \<and> k < j \<longrightarrow> \<not> p k)"
  then obtain j' where j': "find_from i n p = Some j'"
    by (cases "find_from i n p") (auto simp: find_from_None_iff)
  from find_from_SomeD [OF this] R have "j' = j" by (metis linorder_neqE)
  with j' show "find_from i n p = Some j" by simp
qed (rule find_from_SomeD)

lemma find_from_cong:
  assumes "\<And>k. i \<le> k \<Longrightarrow> k < n \<Longrightarrow> p k = q k"
  shows "find_from i n p = find_from i n q"
proof (cases "find_from i n q")
  case None
  with assms have "find_from i n p = None" by (auto simp: find_from_None_iff)
  with None show ?thesis by simp
next
  case (Some j)
  with assms have "find_from i n p = Some j"
    by (auto simp: find_from_Some_iff)
  with Some show ?thesis by simp
qed

section \<open>Memory\<close>

text \<open>
  The memory the kernel reads and writes through its pointers: one byte per 32-bit address.
  Addresses wrap modulo \<open>2 ^ 32\<close>, as pointer arithmetic on the target does.
\<close>

type_synonym memory = "u32 \<Rightarrow> u8"

text \<open>
  Address \<open>x\<close> lies among the \<open>n\<close> bytes from \<open>a\<close>. Written with a difference, so that a block
  that wraps around the end of the address space needs no special case.
\<close>

definition in_block :: "u32 \<Rightarrow> u32 \<Rightarrow> u32 \<Rightarrow> bool" where
  "in_block a n x \<longleftrightarrow> x - a < n"

text \<open>Little-endian accesses of a 32-bit and a 16-bit object.\<close>

definition load32 :: "memory \<Rightarrow> u32 \<Rightarrow> u32" where
  "load32 m a = ucast (m a) OR push_bit 8 (ucast (m (a + 1)))
     OR push_bit 16 (ucast (m (a + 2))) OR push_bit 24 (ucast (m (a + 3)))"

definition store32 :: "u32 \<Rightarrow> u32 \<Rightarrow> memory \<Rightarrow> memory" where
  "store32 a v m = m(a := ucast v, a + 1 := ucast (drop_bit 8 v),
     a + 2 := ucast (drop_bit 16 v), a + 3 := ucast (drop_bit 24 v))"

definition load16 :: "memory \<Rightarrow> u32 \<Rightarrow> u16" where
  "load16 m a = ucast (m a) OR push_bit 8 (ucast (m (a + 1)))"

definition store16 :: "u32 \<Rightarrow> u16 \<Rightarrow> memory \<Rightarrow> memory" where
  "store16 a v m = m(a := ucast v, a + 1 := ucast (drop_bit 8 v))"

lemma load_store32_same [simp, mem_simps]: "load32 (store32 a v m) a = v"
proof (rule bit_word_eqI)
  fix n assume "n < LENGTH(32)"
  then consider "n < 8" | "8 \<le> n" "n < 16" | "16 \<le> n" "n < 24" | "24 \<le> n" "n < 32"
    by fastforce
  then show "bit (load32 (store32 a v m) a) n = bit v n"
    by cases (auto simp: load32_def store32_def bit_simps fun_upd_apply)
qed

lemma load_store16_same [simp, mem_simps]: "load16 (store16 a v m) a = v"
  by (rule bit_word_eqI)
    (auto simp: load16_def store16_def bit_simps fun_upd_apply)

lemma store32_other: "4 \<le> x - a \<Longrightarrow> store32 a v m x = m x"
  by (auto simp: store32_def fun_upd_apply word_le_nat_alt)

lemma load32_cong:
  "(\<And>x. x - a < 4 \<Longrightarrow> m x = m' x) \<Longrightarrow> load32 m a = load32 m' a"
  by (simp add: load32_def)

lemma load_store32_other [mem_simps]:
  "4 \<le> b - a \<Longrightarrow> 4 \<le> a - b \<Longrightarrow> load32 (store32 a v m) b = load32 m b"
  by (rule load32_cong, rule store32_other) unat_arith

section \<open>The kernel window (utils.hpp)\<close>

text \<open>
  \<open>KERNEL_OFFSET\<close>, \<open>V2P(a) = a & ~KERNEL_OFFSET\<close> and \<open>P2V(a) = a | KERNEL_OFFSET\<close>: the top two
  bits are masked, not subtracted, so the two macros are inverse to each other only on the
  first gibibyte.
\<close>

definition KERNEL_OFFSET :: u32 where
  "KERNEL_OFFSET = 0xC0000000"

definition V2P :: "u32 \<Rightarrow> u32" where
  "V2P a = a AND NOT KERNEL_OFFSET"

definition P2V :: "u32 \<Rightarrow> u32" where
  "P2V a = a OR KERNEL_OFFSET"

lemma KERNEL_OFFSET_eq_push_bit: "KERNEL_OFFSET = push_bit 30 (mask 2)"
  by (simp add: KERNEL_OFFSET_def mask_eq_exp_minus_1)

lemma bit_KERNEL_OFFSET: "n < 32 \<Longrightarrow> bit KERNEL_OFFSET n \<longleftrightarrow> 30 \<le> n"
  unfolding KERNEL_OFFSET_eq_push_bit by (auto simp: bit_simps)

lemma V2P_eq_take_bit: "V2P a = take_bit 30 a"
  by (rule bit_word_eqI) (auto simp: V2P_def bit_simps bit_KERNEL_OFFSET)

lemma unat_V2P: "unat (V2P a) = unat a mod 2 ^ 30"
  unfolding V2P_eq_take_bit unsigned_take_bit_eq by (rule take_bit_eq_mod)

lemma V2P_id_iff: "V2P a = a \<longleftrightarrow> a < 0x40000000"
proof -
  have "V2P a = a \<longleftrightarrow> unat a mod 2 ^ 30 = unat a"
    by (metis unat_V2P word_unat_eq_iff)
  then show ?thesis by (simp add: mod_eq_self_iff_div_eq_0 word_less_nat_alt div_eq_0_iff)
qed

lemma V2P_P2V: "V2P (P2V a) = V2P a"
  by (rule bit_word_eqI) (auto simp: V2P_def P2V_def bit_simps)

lemma P2V_V2P: "P2V (V2P a) = P2V a"
  by (rule bit_word_eqI) (auto simp: V2P_def P2V_def bit_simps)

lemma P2V_eq_iff: "P2V a = P2V b \<longleftrightarrow> V2P a = V2P b"
  by (metis V2P_P2V P2V_V2P)

lemma P2V_idem [simp]: "P2V (P2V a) = P2V a"
  by (simp add: P2V_def)

lemma P2V_ge: "KERNEL_OFFSET \<le> P2V a"
  by (simp add: P2V_def or.commute [of a] le_word_or2)

lemma P2V_nonzero [simp]: "P2V a \<noteq> 0"
  using P2V_ge [of a] by (auto simp: KERNEL_OFFSET_def)

lemma P2V_id_iff: "P2V a = a \<longleftrightarrow> KERNEL_OFFSET \<le> a"
proof
  assume "KERNEL_OFFSET \<le> a"
  then have "3 * 2 ^ 30 \<le> unat a"
    by (simp add: KERNEL_OFFSET_def word_le_nat_alt)
  moreover have "unat a < 4 * 2 ^ 30"
    using unsigned_less [of a] by simp
  ultimately have "unat a div 2 ^ 30 = 3" by simp
  then have "unat (drop_bit 30 a) = unat (3 :: u32)"
    unfolding unat_drop_bit_eq by (simp add: drop_bit_eq_div)
  then have "drop_bit 30 a = 3" by (simp only: word_unat_eq_iff)
  then have "bit a n" if "30 \<le> n" "n < 32" for n
  proof -
    from that have "n = 30 \<or> n = 31" by auto
    then have "bit (3 :: u32) (n - 30)" by auto
    then have "bit (drop_bit 30 a) (n - 30)" by (simp only: \<open>drop_bit 30 a = 3\<close>)
    with that show ?thesis by (simp add: bit_simps)
  qed
  then show "P2V a = a"
    by (intro bit_word_eqI) (auto simp: P2V_def bit_simps bit_KERNEL_OFFSET)
qed (metis P2V_ge)

end
