(* ===== verification/Pages.thy ===== *)
theory Pages
  imports Prelude
begin

text \<open>
  Arithmetic of 4 KiB pages, shared by the paging structures and the heap: the page of an
  address, aligned addresses, 32-bit entries of a page, and the separation facts that let an
  access of one page be read past a store into another.
\<close>

section \<open>Pages\<close>

definition page_of :: "u32 \<Rightarrow> u32" where
  "page_of x = x AND NOT 0xFFF"

definition page_aligned :: "u32 \<Rightarrow> bool" where
  "page_aligned a \<longleftrightarrow> page_of a = a"

lemma unat_low_12: "unat (x AND 0xFFF) = unat x mod 4096" for x :: u32
proof -
  have "x AND 0xFFF = take_bit 12 x"
    by (simp add: take_bit_eq_mask mask_eq_exp_minus_1)
  then have "unat (x AND 0xFFF) = take_bit 12 (unat x)"
    by (simp only: unsigned_take_bit_eq)
  then show ?thesis by (simp add: take_bit_eq_mod)
qed

lemma mask_12: "(0xFFF :: u32) = mask 12"
  by (simp add: mask_eq_exp_minus_1)

lemma mask_10: "(0x3FF :: u32) = mask 10"
  by (simp add: mask_eq_exp_minus_1)

lemma page_of_plus: "page_of x + (x AND 0xFFF) = x"
proof -
  have "x AND 0xFFF = take_bit 12 x"
    by (simp add: take_bit_eq_mask mask_eq_exp_minus_1)
  moreover have "page_of x = push_bit 12 (drop_bit 12 x)"
    unfolding page_of_def mask_12 by (intro bit_word_eqI) (auto simp: bit_simps)
  ultimately show ?thesis by (simp only: bits_ident)
qed

lemma page_of_minus: "page_of x = x - (x AND 0xFFF)"
  by (metis page_of_plus add_diff_cancel_right')

lemma unat_page_of: "unat (page_of x) = unat x div 4096 * 4096"
proof -
  have "x AND 0xFFF \<le> x" by (simp add: word_and_le2)
  then have "unat (page_of x) = unat x - unat x mod 4096"
    by (simp only: page_of_minus unat_sub unat_low_12)
  then show ?thesis by (simp add: minus_mod_eq_div_mult)
qed

lemma page_of_idem [simp]: "page_of (page_of x) = page_of x"
  by (simp add: page_of_def and.assoc)

lemma page_aligned_page_of [simp]: "page_aligned (page_of x)"
  by (simp add: page_aligned_def)

lemma page_aligned_iff: "page_aligned a \<longleftrightarrow> 4096 dvd unat a"
proof -
  have "page_aligned a \<longleftrightarrow> unat a div 4096 * 4096 = unat a"
    unfolding page_aligned_def unat_page_of [symmetric] by (simp only: word_unat_eq_iff)
  also have "\<dots> \<longleftrightarrow> 4096 dvd unat a" by (metis dvd_div_mult_self dvd_triv_right)
  finally show ?thesis .
qed

lemma page_aligned_bound: "page_aligned a \<Longrightarrow> unat a + 4096 \<le> 2 ^ 32"
  using unat_bound32 [of a] by (auto simp: page_aligned_iff elim!: dvdE)

lemma in_page_iff: "page_aligned b \<Longrightarrow> in_block b 4096 x \<longleftrightarrow> page_of x = b"
proof -
  assume b: "page_aligned b"
  then obtain k where k: "unat b = 4096 * k" by (auto simp: page_aligned_iff)
  have bound: "unat b + 4096 \<le> 2 ^ 32" using b by (rule page_aligned_bound)
  have "page_of x = b \<longleftrightarrow> unat x div 4096 * 4096 = 4096 * k"
    by (metis k unat_page_of word_unat_eq_iff)
  moreover have "in_block b 4096 x \<longleftrightarrow> 4096 * k \<le> unat x \<and> unat x < 4096 * k + 4096"
    using bound unat_bound32 [of x] k
    by (auto simp: in_block_def word_less_nat_alt unat_sub_if')
  ultimately show ?thesis by auto
qed

lemma page_of_offset: "page_aligned b \<Longrightarrow> k < 4096 \<Longrightarrow> page_of (b + k) = b"
  by (simp add: in_page_iff [symmetric] in_block_def)

lemma unat_offset: "page_aligned b \<Longrightarrow> k < 4096 \<Longrightarrow> unat (b + k) = unat b + unat k" for k :: u32
  using page_aligned_bound [of b] by (subst unat_add_lem [THEN iffD1]) (auto simp: word_less_nat_alt)

lemma page_of_P2V: "page_of (P2V a) = P2V (page_of a)"
  unfolding page_of_def mask_12
  by (rule bit_word_eqI) (auto simp: P2V_def bit_simps bit_KERNEL_OFFSET)

lemma page_of_V2P: "page_of (V2P a) = V2P (page_of a)"
  unfolding page_of_def mask_12
  by (rule bit_word_eqI) (auto simp: V2P_def bit_simps)

section \<open>Entries\<close>

text \<open>The \<open>i\<close>-th 32-bit entry of a page.\<close>

definition entry :: "u32 \<Rightarrow> u32 \<Rightarrow> u32" where
  "entry p i = p + 4 * i"

lemma index_offset: "i < 1024 \<Longrightarrow> 4 * i < 4096 \<and> unat (4 * i) = 4 * unat i" for i :: u32
  by (simp add: word_less_nat_alt unat_word_ariths)

lemma page_of_entry: "page_aligned p \<Longrightarrow> i < 1024 \<Longrightarrow> page_of (entry p i) = p"
  by (simp add: entry_def page_of_offset index_offset)

lemma unat_entry: "page_aligned p \<Longrightarrow> i < 1024 \<Longrightarrow> unat (entry p i) = unat p + 4 * unat i"
  by (simp add: entry_def unat_offset index_offset)

lemma entry_eq_iff:
  assumes "page_aligned p" "page_aligned q" "i < 1024" "j < 1024"
  shows "entry p i = entry q j \<longleftrightarrow> p = q \<and> i = j"
proof
  assume eq: "entry p i = entry q j"
  then have "p = q" using assms by (metis page_of_entry)
  moreover from this eq have "4 * unat i = 4 * unat j"
    using assms unat_entry [of p i] unat_entry [of q j] by simp
  ultimately show "p = q \<and> i = j" by (simp add: word_unat_eq_iff)
qed simp

lemma multiple_of_4_apart:
  fixes x y :: u32
  assumes "4 dvd unat x" "4 dvd unat y" "x \<noteq> y"
  shows "4 \<le> x - y"
proof -
  from assms obtain a b where ab: "unat x = 4 * a" "unat y = 4 * b" by (auto elim!: dvdE)
  with assms(3) have "a \<noteq> b" by (auto simp: word_unat_eq_iff)
  moreover have "a < 1073741824" "b < 1073741824"
    using ab unat_bound32 [of x] unat_bound32 [of y] by auto
  ultimately show ?thesis using ab by (auto simp: word_le_nat_alt unat_sub_if')
qed

lemma dvd_entry: "page_aligned p \<Longrightarrow> i < 1024 \<Longrightarrow> 4 dvd unat (entry p i)"
  by (auto simp: unat_entry page_aligned_iff intro: dvd_trans [of 4 4096])

lemma entries_apart:
  assumes "page_aligned p" "page_aligned q" "i < 1024" "j < 1024" "\<not> (p = q \<and> i = j)"
  shows "4 \<le> entry p i - entry q j"
  using assms by (intro multiple_of_4_apart) (auto simp: dvd_entry entry_eq_iff)

lemma load32_store32_entry:
  assumes "page_aligned p" "page_aligned q" "i < 1024" "j < 1024"
  shows "load32 (store32 (entry p i) v m) (entry q j) =
    (if p = q \<and> i = j then v else load32 m (entry q j))"
  using assms by (auto simp: load_store32_other entries_apart)

lemma entry_bytes_in_page:
  assumes "page_aligned p" "i < 1024" "x - entry p i < 4"
  shows "page_of x = p"
proof -
  define d where "d = x - entry p i"
  have x: "x - p = d + 4 * i" by (simp add: d_def entry_def)
  have "unat d < 4" using assms(3) by (simp add: d_def word_less_nat_alt)
  moreover have "unat (4 * i) < 4093" "unat (4 * i) = 4 * unat i"
    using assms(2) index_offset [OF assms(2)] by (auto simp: word_less_nat_alt)
  moreover from this \<open>unat d < 4\<close> have "unat (d + 4 * i) = unat d + unat (4 * i)"
    by (subst unat_add_lem [THEN iffD1]) auto
  ultimately have "x - p < 4096"
    using assms(2) unfolding x by (simp add: word_less_nat_alt)
  with assms(1) show ?thesis by (simp add: in_page_iff [symmetric] in_block_def)
qed

lemma store32_entry_outside:
  "page_aligned p \<Longrightarrow> i < 1024 \<Longrightarrow> page_of x \<noteq> p \<Longrightarrow> store32 (entry p i) v m x = m x"
  by (rule store32_other) (metis entry_bytes_in_page linorder_not_le)

lemma load32_entry_cong:
  assumes "page_aligned p" "i < 1024" "\<And>x. page_of x = p \<Longrightarrow> m x = m' x"
  shows "load32 m (entry p i) = load32 m' (entry p i)"
  using assms by (intro load32_cong) (auto intro: entry_bytes_in_page)

end
