(* ===== verification/Kstring.thy ===== *)
theory Kstring
  imports Prelude
begin

text \<open>
  The freestanding C string routines of src/src/utils/string.cpp, byte by byte over the
  memory: \<open>memcpy\<close>, \<open>memset\<close>, \<open>memmove\<close>, \<open>strcmp\<close> and \<open>memcmp\<close>. The copying loops run in
  the order of the source, so that what happens on overlapping blocks is part of the model.
  \<open>strcmp\<close> has no bound on its loop and is a partial function: \<open>None\<close> is the loop that never
  meets a difference or a terminator. \<open>char\<close> is signed on the target.
\<close>

section \<open>Definitions\<close>

definition memcpy :: "u32 \<Rightarrow> u32 \<Rightarrow> u32 \<Rightarrow> memory \<Rightarrow> memory" where
  "memcpy dst src sz = for_from 0 sz (\<lambda>i m. m(dst + i := m (src + i)))"

definition memset :: "u32 \<Rightarrow> u8 \<Rightarrow> u32 \<Rightarrow> memory \<Rightarrow> memory" where
  "memset dst val sz = for_from 0 sz (\<lambda>i m. m(dst + i := val))"

definition memmove :: "u32 \<Rightarrow> u32 \<Rightarrow> u32 \<Rightarrow> memory \<Rightarrow> u32 \<times> memory" where
  "memmove dst src sz m =
     (if dst < src
      then (dst, for_from 0 sz (\<lambda>i m. m(dst + i := m (src + i))) m)
      else (dst, for_down sz (\<lambda>i m. m(dst + (i - 1) := m (src + (i - 1)))) m))"

partial_function (option) strcmp_loop :: "u32 \<Rightarrow> u32 \<Rightarrow> u32 \<Rightarrow> memory \<Rightarrow> int option" where
  "strcmp_loop one two i m =
     (if m (one + i) \<noteq> 0 \<and> m (one + i) = m (two + i) then strcmp_loop one two (i + 1) m
      else Some (sint (m (one + i)) - sint (m (two + i))))"

definition strcmp :: "u32 \<Rightarrow> u32 \<Rightarrow> memory \<Rightarrow> int option" where
  "strcmp one two m = strcmp_loop one two 0 m"

function memcmp_loop :: "u32 \<Rightarrow> u32 \<Rightarrow> u32 \<Rightarrow> u32 \<Rightarrow> memory \<Rightarrow> int" where
  "memcmp_loop one two i sz m =
     (if i < sz then
        (if m (one + i) < m (two + i) then - 1
         else if m (two + i) < m (one + i) then 1
         else memcmp_loop one two (i + 1) sz m)
      else 0)"
  by pat_completeness auto
termination
  by (relation "measure (\<lambda>(one, two, i, sz, m). unat (sz - i))")
    (auto simp: word_less_succ_measure)

declare memcmp_loop.simps [simp del]

definition memcmp :: "u32 \<Rightarrow> u32 \<Rightarrow> u32 \<Rightarrow> memory \<Rightarrow> int" where
  "memcmp one two sz m = memcmp_loop one two 0 sz m"

section \<open>What the block operations write\<close>

lemma memset_apply: "memset dst val sz m x = (if in_block dst sz x then val else m x)"
proof -
  have "\<forall>x. memset dst val sz m x = (if in_block dst sz x then val else m x)"
    unfolding memset_def
    by (rule for_from_invariant0 [where
          P = "\<lambda>i t. \<forall>x. t x = (if in_block dst i x then val else m x)"])
      (auto simp: in_block_def less_suc_split diff_eq_iff_add)
  then show ?thesis by blast
qed

text \<open>
  A forward copy is exact unless the destination starts inside the source block, after its
  first byte.
\<close>

lemma forward_read_untouched:
  fixes j sz dst src :: u32
  assumes "j < sz" and "dst = src \<or> sz \<le> dst - src"
  shows "\<not> src + j - dst < j"
proof -
  define k where "k = dst - src"
  have eq: "src + j - dst = j - k" by (simp add: k_def)
  from assms have "j < sz" "k = 0 \<or> sz \<le> k" by (auto simp: k_def)
  then show ?thesis unfolding eq by unat_arith
qed

lemma forward_copy_apply:
  assumes "dst = src \<or> sz \<le> dst - src"
  shows "for_from 0 sz (\<lambda>i m. m(dst + i := m (src + i))) m x =
    (if in_block dst sz x then m (src + (x - dst)) else m x)"
proof -
  let ?P = "\<lambda>i t. \<forall>x. t x = (if in_block dst i x then m (src + (x - dst)) else m x)"
  have "?P sz (for_from 0 sz (\<lambda>i m. m(dst + i := m (src + i))) m)"
  proof (rule for_from_invariant0 [where P = ?P])
    fix j t
    assume "j < sz" and "?P j t"
    with forward_read_untouched [OF _ assms] show "?P (j + 1) (t(dst + j := t (src + j)))"
      by (auto simp: in_block_def less_suc_split diff_eq_iff_add)
  qed (simp add: in_block_def)
  then show ?thesis by blast
qed

lemma memcpy_apply:
  assumes "dst = src \<or> sz \<le> dst - src"
  shows "memcpy dst src sz m x = (if in_block dst sz x then m (src + (x - dst)) else m x)"
  unfolding memcpy_def by (rule forward_copy_apply [OF assms])

text \<open>The backward half of \<open>memmove\<close>.\<close>

lemma backward_copy_apply:
  assumes "dst = src \<or> sz \<le> src - dst"
  shows "for_down sz (\<lambda>i m. m(dst + (i - 1) := m (src + (i - 1)))) m x =
    (if in_block dst sz x then m (src + (x - dst)) else m x)"
proof -
  let ?P = "\<lambda>i t. \<forall>x. t x =
    (if in_block dst sz x \<and> i \<le> x - dst then m (src + (x - dst)) else m x)"
  have "?P 0 (for_down sz (\<lambda>i m. m(dst + (i - 1) := m (src + (i - 1)))) m)"
  proof (rule for_down_invariant [where P = ?P])
    show "?P sz m" by (auto simp: in_block_def)
  next
    fix j t
    assume j: "j \<noteq> 0" "j \<le> sz" and P: "?P j t"
    define k where "k = src - dst"
    have "\<not> (in_block dst sz (src + (j - 1)) \<and> j \<le> src + (j - 1) - dst)"
    proof -
      have eq: "src + (j - 1) - dst = k + (j - 1)" by (simp add: k_def)
      from assms have "k = 0 \<or> sz \<le> k" by (auto simp: k_def)
      with j show ?thesis unfolding in_block_def eq by unat_arith
    qed
    with P have read: "t (src + (j - 1)) = m (src + (j - 1))" by auto
    have split: "j - 1 \<le> y \<longleftrightarrow> y = j - 1 \<or> j \<le> y" for y using j(1) by unat_arith
    have "j - 1 < sz" using j by unat_arith
    with P read show "?P (j - 1) (t(dst + (j - 1) := t (src + (j - 1))))"
      by (auto simp: in_block_def split diff_eq_iff_add)
  qed
  then show ?thesis by simp
qed

lemma no_wrap_block_order:
  fixes sz src dst :: u32
  assumes "unat src + unat sz \<le> 2 ^ 32" and "unat dst + unat sz \<le> 2 ^ 32"
  shows "dst < src \<Longrightarrow> sz \<le> dst - src" and "\<not> dst < src \<Longrightarrow> dst = src \<or> sz \<le> src - dst"
  using assms
  by (auto simp: word_le_nat_alt word_less_nat_alt unat_sub_if' word_unat_eq_iff)

lemma memmove_apply:
  assumes "unat src + unat sz \<le> 2 ^ 32" and "unat dst + unat sz \<le> 2 ^ 32"
  shows "fst (memmove dst src sz m) = dst"
    and "snd (memmove dst src sz m) x =
      (if in_block dst sz x then m (src + (x - dst)) else m x)"
  using no_wrap_block_order [OF assms]
  by (auto simp: memmove_def forward_copy_apply backward_copy_apply)

section \<open>Comparisons\<close>

text \<open>The bytes \<open>cs\<close>, all nonzero, stand at \<open>a\<close>, followed by the terminator.\<close>

fun cstring_at :: "memory \<Rightarrow> u32 \<Rightarrow> u8 list \<Rightarrow> bool" where
  "cstring_at m a [] \<longleftrightarrow> m a = 0"
| "cstring_at m a (c # cs) \<longleftrightarrow> m a = c \<and> c \<noteq> 0 \<and> cstring_at m (a + 1) cs"

text \<open>The comparison of two terminated strings, on lists.\<close>

fun strcmp_spec :: "u8 list \<Rightarrow> u8 list \<Rightarrow> int" where
  "strcmp_spec [] [] = 0"
| "strcmp_spec [] (d # ds) = - sint d"
| "strcmp_spec (c # cs) [] = sint c"
| "strcmp_spec (c # cs) (d # ds) = (if c = d then strcmp_spec cs ds else sint c - sint d)"

lemma strcmp_spec_zero_iff:
  "0 \<notin> set cs \<Longrightarrow> 0 \<notin> set ds \<Longrightarrow> strcmp_spec cs ds = 0 \<longleftrightarrow> cs = ds"
  by (induction cs ds rule: strcmp_spec.induct) (auto simp: signed_eq_0_iff dest: signed_word_eqI)

lemma cstring_at_nonzero: "cstring_at m a cs \<Longrightarrow> 0 \<notin> set cs"
  by (induction cs arbitrary: a) auto

lemma strcmp_loop_cstring:
  "cstring_at m (one + i) cs \<Longrightarrow> cstring_at m (two + i) ds \<Longrightarrow>
    strcmp_loop one two i m = Some (strcmp_spec cs ds)"
proof (induction cs ds arbitrary: i rule: strcmp_spec.induct)
  case (4 c cs d ds)
  show ?case
  proof (cases "c = d")
    case True
    have "strcmp_loop one two i m = strcmp_loop one two (i + 1) m"
      using 4 True by (subst strcmp_loop.simps) auto
    with 4 True show ?thesis by (simp add: add.assoc)
  next
    case False
    with 4 show ?thesis by (subst strcmp_loop.simps) auto
  qed
qed (subst strcmp_loop.simps; auto)+

lemma strcmp_cstring:
  "cstring_at m one cs \<Longrightarrow> cstring_at m two ds \<Longrightarrow> strcmp one two m = Some (strcmp_spec cs ds)"
  by (simp add: strcmp_def strcmp_loop_cstring)

lemma memcmp_loop_find:
  "memcmp_loop one two i sz m =
    (case find_from i sz (\<lambda>k. m (one + k) \<noteq> m (two + k)) of None \<Rightarrow> 0
     | Some k \<Rightarrow> if m (one + k) < m (two + k) then - 1 else 1)"
proof (induction one two i sz m rule: memcmp_loop.induct)
  case (1 one two i sz m)
  show ?case
  proof (cases "i < sz \<and> m (one + i) = m (two + i)")
    case True
    with 1 show ?thesis by (simp add: memcmp_loop.simps [of one two i] find_from_step)
  next
    case False
    then show ?thesis
      by (auto simp: memcmp_loop.simps [of one two i] find_from_hit find_from_done)
  qed
qed

lemma memcmp_eq_0_iff:
  "memcmp one two sz m = 0 \<longleftrightarrow> (\<forall>k. k < sz \<longrightarrow> m (one + k) = m (two + k))"
proof (cases "find_from 0 sz (\<lambda>k. m (one + k) \<noteq> m (two + k))")
  case None
  then have "\<forall>k. k < sz \<longrightarrow> m (one + k) = m (two + k)"
    by (simp add: find_from_None_iff)
  with None show ?thesis by (simp add: memcmp_def memcmp_loop_find)
next
  case (Some k)
  from find_from_SomeD [OF this] have "k < sz" "m (one + k) \<noteq> m (two + k)" by auto
  with Some show ?thesis by (auto simp: memcmp_def memcmp_loop_find)
qed

text \<open>The sign is that of the first difference, the bytes compared as unsigned.\<close>

lemma memcmp_first_difference:
  assumes "k < sz" and "\<And>j. j < k \<Longrightarrow> m (one + j) = m (two + j)" and "m (one + k) \<noteq> m (two + k)"
  shows "memcmp one two sz m = (if m (one + k) < m (two + k) then - 1 else 1)"
proof -
  have "find_from 0 sz (\<lambda>k. m (one + k) \<noteq> m (two + k)) = Some k"
    using assms by (auto simp: find_from_Some_iff)
  then show ?thesis by (simp add: memcmp_def memcmp_loop_find)
qed

end
