(* ===== verification/Bitmap.thy ===== *)
theory Bitmap
  imports Prelude
begin

text \<open>
  \<open>utils::Bitmap\<close> (src/src/utils/bitmap.cpp): a pointer and a length in bytes over the memory.
  The abstraction is the set of indices whose bit is set; \<open>set_bit\<close> and \<open>clear_bit\<close> refine
  insertion and removal. The contract is stated as the locale \<open>bit_vector\<close>, which the frame
  allocator uses for its region loops, and interpreted on the model of the class.
\<close>

section \<open>The class\<close>

record bitmap =
  bm_ptr :: u32
  bm_size :: u32

definition Bitmap_new :: "u32 \<Rightarrow> u32 \<Rightarrow> bitmap" where
  "Bitmap_new bitmap_ptr sz = \<lparr>bm_ptr = bitmap_ptr, bm_size = (sz + 7) div 8\<rparr>"

definition get_bit :: "bitmap \<Rightarrow> u32 \<Rightarrow> memory \<Rightarrow> bool" where
  "get_bit bm i m =
     (let bitmap_index = i div 8; bitmap_offset = i mod 8 in
      if bm_size bm \<le> bitmap_index then False
      else m (bm_ptr bm + bitmap_index) AND push_bit (unat bitmap_offset) 1 \<noteq> 0)"

definition set_bit :: "bitmap \<Rightarrow> u32 \<Rightarrow> memory \<Rightarrow> bool \<times> memory" where
  "set_bit bm i m =
     (let bitmap_index = i div 8; bitmap_offset = i mod 8; p = bm_ptr bm + bitmap_index in
      if bm_size bm \<le> bitmap_index then (False, m)
      else (True, m(p := m p OR push_bit (unat bitmap_offset) 1)))"

definition clear_bit :: "bitmap \<Rightarrow> u32 \<Rightarrow> memory \<Rightarrow> bool \<times> memory" where
  "clear_bit bm i m =
     (let bitmap_index = i div 8; bitmap_offset = i mod 8; p = bm_ptr bm + bitmap_index in
      if bm_size bm \<le> bitmap_index then (False, m)
      else (True, m(p := m p AND NOT (push_bit (unat bitmap_offset) 1))))"

text \<open>The result is a C \<open>int\<close>; \<open>- 1\<close> is the failure value. The scan runs to \<open>_size\<close>.\<close>

definition set_first_free :: "bitmap \<Rightarrow> memory \<Rightarrow> u32 \<times> memory" where
  "set_first_free bm m =
     (case find_from 0 (bm_size bm) (\<lambda>i. \<not> get_bit bm i m) of
        Some i \<Rightarrow> (i, snd (set_bit bm i m))
      | None \<Rightarrow> (- 1, m))"

definition is_empty :: "bitmap \<Rightarrow> memory \<Rightarrow> bool" where
  "is_empty bm m = (find_from 0 (bm_size bm) (\<lambda>i. m (bm_ptr bm + i) \<noteq> 0) = None)"

section \<open>Abstraction\<close>

definition valid_bit :: "bitmap \<Rightarrow> u32 \<Rightarrow> bool" where
  "valid_bit bm i \<longleftrightarrow> i div 8 < bm_size bm"

definition bits :: "bitmap \<Rightarrow> memory \<Rightarrow> u32 set" where
  "bits bm m = {i. get_bit bm i m}"

definition in_bitmap :: "bitmap \<Rightarrow> u32 \<Rightarrow> bool" where
  "in_bitmap bm x \<longleftrightarrow> in_block (bm_ptr bm) (bm_size bm) x"

lemma get_bit_iff:
  "get_bit bm i m \<longleftrightarrow> valid_bit bm i \<and> bit (m (bm_ptr bm + i div 8)) (unat (i mod 8))"
  by (auto simp: get_bit_def valid_bit_def Let_def bit_iff_and_push_bit_not_eq_0)

lemma unat_mod_8: "unat (i mod 8) < 8" for i :: u32
  by (simp add: unat_mod_distrib)

lemma eq_iff_div_mod_8: "i = j \<longleftrightarrow> i div 8 = j div 8 \<and> i mod 8 = j mod 8" for i j :: u32
  by (metis div_mult_mod_eq)

lemma bit_exp_u8:
  "bit ((2 :: u8) ^ unat (i mod 8)) (unat (j mod 8)) \<longleftrightarrow> i mod 8 = j mod 8" for i j :: u32
  using unat_mod_8 [of i] unat_mod_8 [of j]
  by (auto simp: bit_simps word_unat_eq_iff)

lemma valid_bit_set: "get_bit bm i m \<Longrightarrow> valid_bit bm i"
  by (simp add: get_bit_iff)

lemma get_set_bit:
  "valid_bit bm i \<Longrightarrow> get_bit bm j (snd (set_bit bm i m)) \<longleftrightarrow> j = i \<or> get_bit bm j m"
  using unat_mod_8 [of j]
  by (auto simp: set_bit_def Let_def get_bit_iff valid_bit_def bit_or_iff bit_exp_u8
      eq_iff_div_mod_8 [of j i] linorder_not_le split: if_splits)

lemma get_clear_bit:
  "valid_bit bm i \<Longrightarrow> get_bit bm j (snd (clear_bit bm i m)) \<longleftrightarrow> j \<noteq> i \<and> get_bit bm j m"
  using unat_mod_8 [of j]
  by (auto simp: clear_bit_def Let_def get_bit_iff valid_bit_def bit_and_iff bit_not_iff
      bit_exp_u8 eq_iff_div_mod_8 [of j i] linorder_not_le split: if_splits)

lemma set_bit_out: "\<not> valid_bit bm i \<Longrightarrow> set_bit bm i m = (False, m)"
  and clear_bit_out: "\<not> valid_bit bm i \<Longrightarrow> clear_bit bm i m = (False, m)"
  by (auto simp: set_bit_def clear_bit_def valid_bit_def Let_def)


section \<open>The contract\<close>

text \<open>
  A vector of bits over a state: \<open>set_b\<close> and \<open>clear_b\<close> change the named bit and no other, and do
  nothing at an index out of range, which \<open>get_b\<close> reads as clear.
\<close>

locale bit_vector =
  fixes get_b :: "u32 \<Rightarrow> 's \<Rightarrow> bool"
    and set_b :: "u32 \<Rightarrow> 's \<Rightarrow> 's"
    and clear_b :: "u32 \<Rightarrow> 's \<Rightarrow> 's"
    and valid_b :: "u32 \<Rightarrow> bool"
  assumes get_valid: "get_b i s \<Longrightarrow> valid_b i"
    and get_set: "valid_b i \<Longrightarrow> get_b j (set_b i s) \<longleftrightarrow> j = i \<or> get_b j s"
    and set_invalid: "\<not> valid_b i \<Longrightarrow> set_b i s = s"
    and get_clear: "valid_b i \<Longrightarrow> get_b j (clear_b i s) \<longleftrightarrow> j \<noteq> i \<and> get_b j s"
    and clear_invalid: "\<not> valid_b i \<Longrightarrow> clear_b i s = s"
begin

lemma get_set_any: "get_b j (set_b i s) \<longleftrightarrow> (j = i \<and> valid_b i) \<or> get_b j s"
  by (cases "valid_b i") (auto simp: get_set set_invalid)

lemma get_clear_any: "get_b j (clear_b i s) \<longleftrightarrow> j \<noteq> i \<and> get_b j s"
  by (cases "valid_b i") (auto simp: get_clear clear_invalid dest: get_valid)

lemma clear_after_set: "\<not> get_b i s \<Longrightarrow> get_b j (clear_b i (set_b i s)) \<longleftrightarrow> get_b j s"
  by (auto simp: get_set_any get_clear_any)

text \<open>The loops over a region: \<open>n\<close> bits from \<open>b\<close>, indices wrapping.\<close>

lemma get_set_range:
  "get_b j (for_from 0 n (\<lambda>i. set_b (b + i)) s) \<longleftrightarrow> (valid_b j \<and> j - b < n) \<or> get_b j s"
proof -
  let ?P = "\<lambda>i t. \<forall>j. get_b j t \<longleftrightarrow> (valid_b j \<and> j - b < i) \<or> get_b j s"
  have "?P n (for_from 0 n (\<lambda>i. set_b (b + i)) s)"
    by (rule for_from_invariant0 [where P = ?P])
      (auto simp: get_set_any less_suc_split diff_eq_iff_add)
  then show ?thesis by blast
qed

lemma get_clear_range:
  "get_b j (for_from 0 n (\<lambda>i. clear_b (b + i)) s) \<longleftrightarrow> \<not> j - b < n \<and> get_b j s"
proof -
  let ?P = "\<lambda>i t. \<forall>j. get_b j t \<longleftrightarrow> \<not> j - b < i \<and> get_b j s"
  have "?P n (for_from 0 n (\<lambda>i. clear_b (b + i)) s)"
    by (rule for_from_invariant0 [where P = ?P])
      (auto simp: get_clear_any less_suc_split diff_eq_iff_add)
  then show ?thesis by blast
qed

text \<open>Taking the first clear bit from a start index.\<close>

lemma take_first_clear:
  assumes "find_from a n (\<lambda>i. \<not> get_b i s) = Some k" and "\<And>i. i < n \<Longrightarrow> valid_b i"
  shows "\<not> get_b k s" and "get_b j (set_b k s) \<longleftrightarrow> j = k \<or> get_b j s" and "a \<le> k" and "k < n"
  using find_from_SomeD [OF assms(1)] assms(2) by (auto simp: get_set)

end

interpretation bv: bit_vector "get_bit bm" "\<lambda>i m. snd (set_bit bm i m)"
  "\<lambda>i m. snd (clear_bit bm i m)" "valid_bit bm" for bm
  by unfold_locales (auto simp: valid_bit_set get_set_bit get_clear_bit set_bit_out clear_bit_out)

section \<open>What the operations read and write\<close>

lemma valid_bit_in_bitmap: "valid_bit bm i \<Longrightarrow> in_bitmap bm (bm_ptr bm + i div 8)"
  by (simp add: valid_bit_def in_bitmap_def in_block_def)

lemma set_bit_outside [frame_simps]: "\<not> in_bitmap bm x \<Longrightarrow> snd (set_bit bm i m) x = m x"
  using valid_bit_in_bitmap [of bm i]
  by (auto simp: set_bit_def Let_def valid_bit_def linorder_not_le)

lemma clear_bit_outside [frame_simps]: "\<not> in_bitmap bm x \<Longrightarrow> snd (clear_bit bm i m) x = m x"
  using valid_bit_in_bitmap [of bm i]
  by (auto simp: clear_bit_def Let_def valid_bit_def linorder_not_le)

lemma set_bit_other_byte: "x \<noteq> bm_ptr bm + i div 8 \<Longrightarrow> snd (set_bit bm i m) x = m x"
  and clear_bit_other_byte: "x \<noteq> bm_ptr bm + i div 8 \<Longrightarrow> snd (clear_bit bm i m) x = m x"
  by (auto simp: set_bit_def clear_bit_def Let_def)

lemma get_bit_cong:
  "(\<And>x. in_bitmap bm x \<Longrightarrow> m x = m' x) \<Longrightarrow> get_bit bm i m = get_bit bm i m'"
  by (auto simp: get_bit_iff valid_bit_in_bitmap)

lemma bits_set_bit: "bits bm (snd (set_bit bm i m)) = (if valid_bit bm i then insert i (bits bm m) else bits bm m)"
  by (auto simp: bits_def bv.get_set_any)

lemma bits_clear_bit: "bits bm (snd (clear_bit bm i m)) = bits bm m - {i}"
  by (auto simp: bits_def bv.get_clear_any)

lemma fst_set_bit: "fst (set_bit bm i m) \<longleftrightarrow> valid_bit bm i"
  and fst_clear_bit: "fst (clear_bit bm i m) \<longleftrightarrow> valid_bit bm i"
  by (auto simp: set_bit_def clear_bit_def valid_bit_def Let_def)

section \<open>Scans\<close>

lemma less_size_valid: "i < bm_size bm \<Longrightarrow> valid_bit bm i"
  unfolding valid_bit_def by unat_arith

lemma set_first_free_Some:
  assumes "set_first_free bm m = (i, m')" and "\<exists>k < bm_size bm. \<not> get_bit bm k m"
  shows "i < bm_size bm" and "\<not> get_bit bm i m" and "\<forall>k < i. get_bit bm k m"
    and "bits bm m' = insert i (bits bm m)" and "\<not> in_bitmap bm x \<Longrightarrow> m' x = m x"
proof -
  from assms(2) obtain j where j: "find_from 0 (bm_size bm) (\<lambda>i. \<not> get_bit bm i m) = Some j"
    by (cases "find_from 0 (bm_size bm) (\<lambda>i. \<not> get_bit bm i m)") (auto simp: find_from_None_iff)
  with assms(1) have eqs: "i = j" "m' = snd (set_bit bm j m)"
    by (auto simp: set_first_free_def)
  from find_from_SomeD [OF j] eqs show "i < bm_size bm" "\<not> get_bit bm i m" "\<forall>k < i. get_bit bm k m"
    by auto
  with eqs show "bits bm m' = insert i (bits bm m)" "\<not> in_bitmap bm x \<Longrightarrow> m' x = m x"
    by (auto simp: bits_set_bit less_size_valid set_bit_outside)
qed

lemma set_first_free_None:
  "\<forall>k < bm_size bm. get_bit bm k m \<Longrightarrow> set_first_free bm m = (- 1, m)"
  by (simp add: set_first_free_def find_from_None_iff [THEN iffD2])

lemma bit_mod_8_index:
  "k < n \<Longrightarrow> j < 8 \<Longrightarrow> n < 2 ^ 29 \<Longrightarrow> (8 * k + j) div 8 = k \<and> (8 * k + j) mod 8 = j" for n k j :: u32
  by (simp add: word_unat_eq_iff unat_div_distrib unat_mod_distrib unat_word_ariths word_less_nat_alt)

lemma u8_eq_0_iff: "b = 0 \<longleftrightarrow> (\<forall>n < 8. \<not> bit b n)" for b :: u8
  by (auto intro!: bit_word_eqI)

lemma is_empty_iff:
  assumes "bm_size bm < 2 ^ 29"
  shows "is_empty bm m \<longleftrightarrow> bits bm m = {}"
proof
  assume "is_empty bm m"
  then have zero: "m (bm_ptr bm + i) = 0" if "i < bm_size bm" for i
    using that by (auto simp: is_empty_def find_from_None_iff)
  then show "bits bm m = {}" by (auto simp: bits_def get_bit_iff valid_bit_def)
next
  assume none: "bits bm m = {}"
  have "m (bm_ptr bm + k) = 0" if k: "k < bm_size bm" for k
  proof -
    have "\<not> bit (m (bm_ptr bm + k)) n" if "n < 8" for n
    proof -
      from that have "(word_of_nat n :: u32) < 8" "unat (word_of_nat n :: u32) = n"
        by (auto simp: word_less_nat_alt unat_of_nat)
      with bit_mod_8_index [OF k, of "word_of_nat n"] assms none k show ?thesis
        by (auto simp: bits_def get_bit_iff valid_bit_def dest: spec [of _ "8 * k + word_of_nat n"])
    qed
    then show ?thesis by (simp add: u8_eq_0_iff)
  qed
  then show "is_empty bm m" by (auto simp: is_empty_def find_from_None_iff)
qed

end
