(* ===== verification/Pmm.thy ===== *)
theory Pmm
  imports Bitmap
begin

text \<open>
  The physical frame allocator (src/src/pmm/pmm.cpp), without \<open>init\<close>, which is in its own
  theory because it maps pages: \<open>set_used\<close>, \<open>set_unused\<close>, \<open>allocate_frame\<close> and \<open>free_frame\<close> over
  the bitmap in memory. One bit per 4 KiB frame, set for a frame in use. The contract of an
  allocator of frames is the locale \<open>frame_allocator\<close>, interpreted on this model.
\<close>

section \<open>State and operations\<close>

record pmm =
  pmm_nbFrames :: u32
  pmm_bm :: bitmap

definition FRAME_SIZE :: u32 where
  "FRAME_SIZE = 4096"

definition set_used :: "pmm \<Rightarrow> u32 \<Rightarrow> u32 \<Rightarrow> memory \<Rightarrow> memory" where
  "set_used P regionAddr regionSize =
     (let frameBase = regionAddr div FRAME_SIZE;
          frames = (regionSize + FRAME_SIZE - 1) div FRAME_SIZE
      in for_from 0 frames (\<lambda>i m. snd (set_bit (pmm_bm P) (frameBase + i) m)))"

definition set_unused :: "pmm \<Rightarrow> u32 \<Rightarrow> u32 \<Rightarrow> memory \<Rightarrow> memory" where
  "set_unused P regionAddr regionSize =
     (let frameBase = regionAddr div FRAME_SIZE;
          frames = (regionSize + FRAME_SIZE - 1) div FRAME_SIZE
      in for_from 0 frames (\<lambda>i m. snd (clear_bit (pmm_bm P) (frameBase + i) m)))"

text \<open>The result is the physical address of the frame; \<open>0\<close> is \<open>nullptr\<close>.\<close>

definition allocate_frame :: "pmm \<Rightarrow> memory \<Rightarrow> u32 \<times> memory" where
  "allocate_frame P m =
     (case find_from 1 (pmm_nbFrames P) (\<lambda>i. \<not> get_bit (pmm_bm P) i m) of
        Some i \<Rightarrow> (i * FRAME_SIZE, snd (set_bit (pmm_bm P) i m))
      | None \<Rightarrow> (0, m))"

definition free_frame :: "pmm \<Rightarrow> u32 \<Rightarrow> memory \<Rightarrow> memory" where
  "free_frame P addr m =
     (if addr = 0 then m
      else let frame = V2P addr div FRAME_SIZE in
        if pmm_nbFrames P \<le> frame then m else snd (clear_bit (pmm_bm P) frame m))"

section \<open>Frames\<close>

text \<open>
  The bitmap covers the frames (as \<open>init\<close> builds it) and the frames lie below 4 GiB.
\<close>

definition pmm_wf :: "pmm \<Rightarrow> bool" where
  "pmm_wf P \<longleftrightarrow> pmm_nbFrames P \<le> 0x100000 \<and> bm_size (pmm_bm P) = (pmm_nbFrames P + 7) div 8"

definition frame_used :: "pmm \<Rightarrow> u32 \<Rightarrow> memory \<Rightarrow> bool" where
  "frame_used P i m \<longleftrightarrow> get_bit (pmm_bm P) i m"

lemma pmm_wf_valid: "pmm_wf P \<Longrightarrow> i < pmm_nbFrames P \<Longrightarrow> valid_bit (pmm_bm P) i"
  unfolding pmm_wf_def valid_bit_def
  by (simp add: word_less_nat_alt word_le_nat_alt unat_div_distrib unat_word_ariths)

lemma frame_addr_unat: "i < 0x100000 \<Longrightarrow> unat (i * FRAME_SIZE) = unat i * 4096"
  by (simp add: FRAME_SIZE_def word_less_nat_alt unat_word_ariths)

lemma frame_addr_eq_0: "i < 0x100000 \<Longrightarrow> i * FRAME_SIZE = 0 \<longleftrightarrow> i = 0"
  by (metis frame_addr_unat unat_0_iff mult_eq_0_iff zero_neq_numeral)

lemma frame_of_addr: "i < 0x40000 \<Longrightarrow> V2P (i * FRAME_SIZE) div FRAME_SIZE = i"
  by (simp add: word_unat_eq_iff unat_div_distrib unat_V2P frame_addr_unat word_less_nat_alt
      FRAME_SIZE_def [THEN arg_cong [where f = unat]])

section \<open>Allocation\<close>

lemma allocate_frame_some:
  assumes "pmm_wf P" and "1 \<le> k" and "k < pmm_nbFrames P" and "\<not> frame_used P k m"
  obtains i where "allocate_frame P m = (i * FRAME_SIZE, snd (set_bit (pmm_bm P) i m))"
    and "1 \<le> i" and "i < pmm_nbFrames P" and "\<not> frame_used P i m"
    and "\<And>j. 1 \<le> j \<Longrightarrow> j < i \<Longrightarrow> frame_used P j m"
proof -
  from assms obtain i where i: "find_from 1 (pmm_nbFrames P) (\<lambda>i. \<not> get_bit (pmm_bm P) i m) = Some i"
    by (cases "find_from 1 (pmm_nbFrames P) (\<lambda>i. \<not> get_bit (pmm_bm P) i m)")
      (auto simp: find_from_None_iff frame_used_def)
  from find_from_SomeD [OF this] i show ?thesis
    by (intro that [of i]) (auto simp: allocate_frame_def frame_used_def)
qed

lemma allocate_frame_none:
  "(\<And>k. 1 \<le> k \<Longrightarrow> k < pmm_nbFrames P \<Longrightarrow> frame_used P k m) \<Longrightarrow> allocate_frame P m = (0, m)"
  by (simp add: allocate_frame_def frame_used_def find_from_None_iff [THEN iffD2])

lemma allocate_frame_zero_iff:
  assumes "pmm_wf P"
  shows "fst (allocate_frame P m) = 0 \<longleftrightarrow> (\<forall>k. 1 \<le> k \<and> k < pmm_nbFrames P \<longrightarrow> frame_used P k m)"
proof
  assume z: "fst (allocate_frame P m) = 0"
  show "\<forall>k. 1 \<le> k \<and> k < pmm_nbFrames P \<longrightarrow> frame_used P k m"
  proof (rule ccontr)
    assume "\<not> ?thesis"
    then obtain k where "1 \<le> k" "k < pmm_nbFrames P" "\<not> frame_used P k m" by blast
    from allocate_frame_some [OF assms this] obtain i where
      "fst (allocate_frame P m) = i * FRAME_SIZE" "1 \<le> i" "i < pmm_nbFrames P" by (metis fst_conv)
    moreover from this(3) assms have "i < 0x100000"
      by (auto simp: pmm_wf_def intro: less_le_trans)
    ultimately show False using z by (auto simp: frame_addr_eq_0)
  qed
qed (simp add: allocate_frame_none)

lemma frame_used_set:
  "pmm_wf P \<Longrightarrow> i < pmm_nbFrames P \<Longrightarrow>
    frame_used P j (snd (set_bit (pmm_bm P) i m)) \<longleftrightarrow> j = i \<or> frame_used P j m"
  by (simp add: frame_used_def get_set_bit pmm_wf_valid)

text \<open>On a bitmap with nothing marked the frames are handed out in order, from frame 1 on.\<close>

lemma allocations_in_order:
  assumes wf: "pmm_wf P" and none: "\<forall>j. \<not> frame_used P j m" and n: "Suc n < unat (pmm_nbFrames P)"
  defines "t \<equiv> ((\<lambda>t. snd (allocate_frame P t)) ^^ n) m"
  shows "fst (allocate_frame P t) = of_nat (Suc n) * FRAME_SIZE"
    and "frame_used P j (snd (allocate_frame P t)) \<longleftrightarrow> 1 \<le> unat j \<and> unat j \<le> Suc n"
proof -
  have step: "fst (allocate_frame P t) = of_nat (Suc k) * FRAME_SIZE \<and>
      (\<forall>j. frame_used P j (snd (allocate_frame P t)) \<longleftrightarrow> 1 \<le> unat j \<and> unat j \<le> Suc k)"
    if k: "Suc k < unat (pmm_nbFrames P)" and used: "\<forall>j. frame_used P j t \<longleftrightarrow> 1 \<le> unat j \<and> unat j \<le> k" for k t
  proof -
    have u: "unat (of_nat (Suc k) :: u32) = Suc k"
      using k unat_bound32 [of "pmm_nbFrames P"] by (simp add: unat_of_nat del: of_nat_Suc)
    then have "1 \<le> (of_nat (Suc k) :: u32)" "of_nat (Suc k) < pmm_nbFrames P" "\<not> frame_used P (of_nat (Suc k)) t"
      using k used by (simp_all add: word_le_nat_alt word_less_nat_alt del: of_nat_Suc)
    from allocate_frame_some [OF wf this] obtain i where
      a: "allocate_frame P t = (i * FRAME_SIZE, snd (set_bit (pmm_bm P) i t))" and i: "1 \<le> i" "i < pmm_nbFrames P" "\<not> frame_used P i t"
      and low: "\<And>j. 1 \<le> j \<Longrightarrow> j < i \<Longrightarrow> frame_used P j t" by blast
    have "\<not> of_nat (Suc k) < i" using low [of "of_nat (Suc k)"] used u by (auto simp: word_le_nat_alt simp del: of_nat_Suc)
    moreover have "Suc k \<le> unat i" using used i by (auto simp: word_le_nat_alt)
    ultimately have ui: "unat i = Suc k" using u by (simp add: word_less_nat_alt del: of_nat_Suc)
    then have "i = of_nat (Suc k)" using u by (simp add: word_unat_eq_iff del: of_nat_Suc)
    moreover have "frame_used P j (snd (set_bit (pmm_bm P) i t)) \<longleftrightarrow> 1 \<le> unat j \<and> unat j \<le> Suc k" for j
    proof -
      have "j = i \<longleftrightarrow> unat j = Suc k" using ui by (simp add: word_unat_eq_iff)
      then show ?thesis unfolding frame_used_set [OF wf i(2)] using used by (simp only:) linarith
    qed
    ultimately show ?thesis using a by (simp del: of_nat_Suc)
  qed
  have "\<forall>j. frame_used P j (((\<lambda>t. snd (allocate_frame P t)) ^^ k) m) \<longleftrightarrow> 1 \<le> unat j \<and> unat j \<le> k" if "k \<le> n" for k
    using that
  proof (induction k)
    case 0
    then show ?case using none by auto
  next
    case (Suc k)
    then have "Suc k < unat (pmm_nbFrames P)" using n by simp
    from step [OF this Suc.IH] Suc.prems show ?case by simp
  qed
  from step [OF n this [OF order_refl]]
  show "fst (allocate_frame P t) = of_nat (Suc n) * FRAME_SIZE"
    "frame_used P j (snd (allocate_frame P t)) \<longleftrightarrow> 1 \<le> unat j \<and> unat j \<le> Suc n" by (simp_all add: t_def)
qed

lemma allocate_frame_outside [frame_simps]:
  "\<not> in_bitmap (pmm_bm P) x \<Longrightarrow> snd (allocate_frame P m) x = m x"
  by (auto simp: allocate_frame_def set_bit_outside split: option.split)

lemma free_frame_outside [frame_simps]:
  "\<not> in_bitmap (pmm_bm P) x \<Longrightarrow> free_frame P a m x = m x"
  by (auto simp: free_frame_def clear_bit_outside Let_def)

lemma frame_used_free:
  "frame_used P j (free_frame P a m) \<longleftrightarrow>
     frame_used P j m \<and>
     \<not> (a \<noteq> 0 \<and> V2P a div FRAME_SIZE < pmm_nbFrames P \<and> j = V2P a div FRAME_SIZE)"
  by (auto simp: free_frame_def frame_used_def Let_def bv.get_clear_any)

section \<open>Regions\<close>

lemma frame_used_set_used:
  "frame_used P j (set_used P a n m) \<longleftrightarrow>
     frame_used P j m \<or>
     valid_bit (pmm_bm P) j \<and> j - a div FRAME_SIZE < (n + FRAME_SIZE - 1) div FRAME_SIZE"
  by (auto simp: set_used_def frame_used_def Let_def bv.get_set_range)

lemma frame_used_set_unused:
  "frame_used P j (set_unused P a n m) \<longleftrightarrow>
     frame_used P j m \<and> \<not> j - a div FRAME_SIZE < (n + FRAME_SIZE - 1) div FRAME_SIZE"
  by (auto simp: set_unused_def frame_used_def Let_def bv.get_clear_range)

section \<open>The contract of a frame allocator\<close>

text \<open>
  \<open>alloc\<close> hands out a frame of the pool that is not in use and records it, or returns \<open>0\<close> with
  the state as it was when the pool is exhausted; \<open>release\<close> gives one frame back.
\<close>

locale frame_allocator =
  fixes inv :: "'s \<Rightarrow> bool"
    and pool :: "'s \<Rightarrow> u32 set"
    and in_use :: "'s \<Rightarrow> u32 set"
    and alloc :: "'s \<Rightarrow> u32 \<times> 's"
    and release :: "u32 \<Rightarrow> 's \<Rightarrow> 's"
  assumes inv_alloc: "inv s \<Longrightarrow> inv (snd (alloc s))"
    and inv_release: "inv s \<Longrightarrow> inv (release a s)"
    and pool_alloc: "inv s \<Longrightarrow> pool (snd (alloc s)) = pool s"
    and pool_release: "inv s \<Longrightarrow> pool (release a s) = pool s"
    and alloc_zero: "inv s \<Longrightarrow> fst (alloc s) = 0 \<longleftrightarrow> pool s \<subseteq> in_use s"
    and alloc_zero_state: "inv s \<Longrightarrow> fst (alloc s) = 0 \<Longrightarrow> snd (alloc s) = s"
    and alloc_fresh: "inv s \<Longrightarrow> fst (alloc s) \<noteq> 0 \<Longrightarrow> fst (alloc s) \<in> pool s - in_use s"
    and alloc_in_use: "inv s \<Longrightarrow> fst (alloc s) \<noteq> 0 \<Longrightarrow>
      in_use (snd (alloc s)) = insert (fst (alloc s)) (in_use s)"
    and release_in_use: "inv s \<Longrightarrow> a \<in> pool s \<Longrightarrow> in_use (release a s) = in_use s - {a}"

text \<open>\<open>n\<close> allocations in a row, with the results in order.\<close>

fun iterate_alloc :: "('s \<Rightarrow> u32 \<times> 's) \<Rightarrow> nat \<Rightarrow> 's \<Rightarrow> u32 list \<times> 's" where
  "iterate_alloc alloc 0 s = ([], s)"
| "iterate_alloc alloc (Suc n) s =
     (let (a, s') = alloc s; (as, s'') = iterate_alloc alloc n s' in (a # as, s''))"

context frame_allocator
begin

lemma alloc_keeps_in_use: "inv s \<Longrightarrow> in_use s \<subseteq> in_use (snd (alloc s))"
  by (cases "fst (alloc s) = 0") (auto simp: alloc_zero_state alloc_in_use)

lemma release_after_alloc:
  "inv s \<Longrightarrow> fst (alloc s) \<noteq> 0 \<Longrightarrow> in_use (release (fst (alloc s)) (snd (alloc s))) = in_use s"
  using alloc_fresh [of s] by (auto simp: release_in_use inv_alloc pool_alloc alloc_in_use)

lemma iterate_fresh:
  "inv s \<Longrightarrow> a \<in> set (fst (iterate_alloc alloc n s)) \<Longrightarrow> a \<noteq> 0 \<Longrightarrow> a \<in> pool s - in_use s"
proof (induction n arbitrary: s)
  case (Suc n)
  then show ?case
    using alloc_fresh [of s] alloc_keeps_in_use [of s] Suc.IH [of "snd (alloc s)"]
    by (auto simp: split_beta inv_alloc pool_alloc)
qed simp

lemma iterate_distinct:
  "inv s \<Longrightarrow> distinct (filter (\<lambda>a. a \<noteq> 0) (fst (iterate_alloc alloc n s)))"
proof (induction n arbitrary: s)
  case (Suc n)
  have "fst (alloc s) \<notin> set (fst (iterate_alloc alloc n (snd (alloc s))))" if "fst (alloc s) \<noteq> 0"
    using iterate_fresh [of "snd (alloc s)" "fst (alloc s)" n] that Suc.prems
    by (auto simp: inv_alloc alloc_in_use)
  with Suc show ?case by (auto simp: split_beta inv_alloc)
qed simp

end

text \<open>
  The allocator of the kernel as an instance. The state pairs the object with the memory, the
  pool is every frame but the first, below 1 GiB, where \<open>free_frame\<close> finds the frame again.
\<close>

definition fa_inv :: "pmm \<times> memory \<Rightarrow> bool" where
  "fa_inv s \<longleftrightarrow> pmm_wf (fst s) \<and> pmm_nbFrames (fst s) \<le> 0x40000"

definition fa_pool :: "pmm \<times> memory \<Rightarrow> u32 set" where
  "fa_pool s = {i * FRAME_SIZE | i. 1 \<le> i \<and> i < pmm_nbFrames (fst s)}"

definition fa_in_use :: "pmm \<times> memory \<Rightarrow> u32 set" where
  "fa_in_use s = {i * FRAME_SIZE | i. 1 \<le> i \<and> i < pmm_nbFrames (fst s) \<and> frame_used (fst s) i (snd s)}"

definition fa_alloc :: "pmm \<times> memory \<Rightarrow> u32 \<times> (pmm \<times> memory)" where
  "fa_alloc s = (let (a, m') = allocate_frame (fst s) (snd s) in (a, (fst s, m')))"

definition fa_release :: "u32 \<Rightarrow> pmm \<times> memory \<Rightarrow> pmm \<times> memory" where
  "fa_release a s = (fst s, free_frame (fst s) a (snd s))"

lemma frame_addr_inj: "i < 0x100000 \<Longrightarrow> j < 0x100000 \<Longrightarrow> i * FRAME_SIZE = j * FRAME_SIZE \<longleftrightarrow> i = j"
  by (metis frame_addr_unat mult_right_cancel word_unat_eq_iff zero_neq_numeral)

lemma fa_in_use_iff:
  "fa_inv (P, m) \<Longrightarrow> 1 \<le> i \<Longrightarrow> i < pmm_nbFrames P \<Longrightarrow> i * FRAME_SIZE \<in> fa_in_use (P, m) \<longleftrightarrow> frame_used P i m"
proof -
  assume wf: "fa_inv (P, m)" and i: "1 \<le> i" "i < pmm_nbFrames P"
  have small: "j < 0x100000" if "j < pmm_nbFrames P" for j
    using that wf by (auto simp: fa_inv_def pmm_wf_def intro: less_le_trans)
  show ?thesis using i by (auto simp: fa_in_use_def frame_addr_inj small)
qed

lemma fa_cases:
  assumes "fa_inv (P, m)"
  obtains (full) "fa_alloc (P, m) = (0, (P, m))" "fa_pool (P, m) \<subseteq> fa_in_use (P, m)"
  | (some) i where "fa_alloc (P, m) = (i * FRAME_SIZE, (P, snd (set_bit (pmm_bm P) i m)))"
      "1 \<le> i" "i < pmm_nbFrames P" "\<not> frame_used P i m" "i * FRAME_SIZE \<noteq> 0"
proof (cases "\<exists>k. 1 \<le> k \<and> k < pmm_nbFrames P \<and> \<not> frame_used P k m")
  case True
  with assms obtain i where i: "allocate_frame P m = (i * FRAME_SIZE, snd (set_bit (pmm_bm P) i m))"
    "1 \<le> i" "i < pmm_nbFrames P" "\<not> frame_used P i m"
    by (auto simp: fa_inv_def elim: allocate_frame_some)
  with assms have "i < 0x100000" by (auto simp: fa_inv_def pmm_wf_def intro: less_le_trans)
  with i(2) have "i * FRAME_SIZE \<noteq> 0" by (auto simp: frame_addr_eq_0)
  with i some show thesis by (auto simp: fa_alloc_def)
next
  case False
  then have "allocate_frame P m = (0, m)" by (intro allocate_frame_none) auto
  with False full show thesis by (auto simp: fa_alloc_def fa_pool_def fa_in_use_def)
qed

lemma fa_in_use_set:
  assumes "fa_inv (P, m)" "1 \<le> i" "i < pmm_nbFrames P"
  shows "fa_in_use (P, snd (set_bit (pmm_bm P) i m)) = insert (i * FRAME_SIZE) (fa_in_use (P, m))"
  using assms by (auto simp: fa_in_use_def frame_used_set fa_inv_def)

lemma fa_in_use_free:
  assumes "fa_inv (P, m)" "a \<in> fa_pool (P, m)"
  shows "fa_in_use (P, free_frame P a m) = fa_in_use (P, m) - {a}"
proof -
  from assms obtain i where i: "a = i * FRAME_SIZE" "1 \<le> i" "i < pmm_nbFrames P"
    by (auto simp: fa_pool_def)
  have small: "j < 0x40000" "j < 0x100000" if "j < pmm_nbFrames P" for j
    using that assms(1) by (auto simp: fa_inv_def intro: less_le_trans)
  have "frame_used P j (free_frame P a m) \<longleftrightarrow> frame_used P j m \<and> j \<noteq> i" for j
    using i small by (auto simp: frame_used_free frame_of_addr frame_addr_eq_0)
  with i small show ?thesis by (auto simp: fa_in_use_def frame_addr_inj)
qed

interpretation fa: frame_allocator fa_inv fa_pool fa_in_use fa_alloc fa_release
proof (unfold_locales, goal_cases)
  case (1 s) then show ?case by (auto simp: fa_inv_def fa_alloc_def split_beta)
next
  case (2 s a) then show ?case by (auto simp: fa_inv_def fa_release_def)
next
  case (3 s) then show ?case by (auto simp: fa_pool_def fa_alloc_def split_beta)
next
  case (4 s a) then show ?case by (auto simp: fa_pool_def fa_release_def)
next
  case (5 s)
  then obtain P m where s: "s = (P, m)" "fa_inv (P, m)" by (cases s) auto
  then show ?case
    by (cases rule: fa_cases [OF s(2)]) (auto simp: fa_pool_def subset_iff fa_in_use_iff)
next
  case (6 s)
  then obtain P m where s: "s = (P, m)" "fa_inv (P, m)" by (cases s) auto
  with 6 show ?case by (cases rule: fa_cases [OF s(2)]) auto
next
  case (7 s)
  then obtain P m where s: "s = (P, m)" "fa_inv (P, m)" by (cases s) auto
  with 7 show ?case by (cases rule: fa_cases [OF s(2)]) (auto simp: fa_pool_def fa_in_use_iff)
next
  case (8 s)
  then obtain P m where s: "s = (P, m)" "fa_inv (P, m)" by (cases s) auto
  with 8 show ?case by (cases rule: fa_cases [OF s(2)]) (auto simp: fa_in_use_set)
next
  case (9 s a)
  then show ?case by (cases s) (auto simp: fa_release_def fa_in_use_free)
qed

end
