(* ===== verification/Bucket.thy ===== *)
theory Bucket
  imports Pages Kstring Pmm
begin

text \<open>
  The buckets of the heap: the helpers of src/src/vmm/kmalloc_utils.cpp and the class
  \<open>Bucket\<close> of src/src/vmm/bucket.cpp. A bucket is one frame seen in the kernel window: a header
  of 20 bytes (\<open>next\<close>, \<open>size\<close>, \<open>power_size\<close>, and the pointer and length of its bitmap), the
  bitmap, then the slots. Its fields are read and written in the memory at their i386 offsets.
  \<open>sizeof(long double)\<close> is 12 on the target.
\<close>

section \<open>Helpers of kmalloc\<close>

partial_function (option) compute_power_loop :: "u32 \<Rightarrow> u32 \<Rightarrow> u32 option" where
  "compute_power_loop out bytes =
     (if out < bytes then compute_power_loop (push_bit 1 out) bytes else Some out)"

definition compute_power :: "u32 \<Rightarrow> u32 option" where
  "compute_power bytes = compute_power_loop 16 bytes"

text \<open>\<open>__builtin_uaddll_overflow\<close>: the flag and the sum at 64 bits.\<close>

definition uaddll_overflow :: "u64 \<Rightarrow> u64 \<Rightarrow> bool \<times> u64" where
  "uaddll_overflow a b = (2 ^ 64 \<le> unat a + unat b, a + b)"

definition align :: "u32 \<Rightarrow> u32 \<Rightarrow> u32" where
  "align sz al =
     (let off = sz mod al in
      if off = 0 then sz
      else let (overflow, out) = uaddll_overflow (ucast sz) (ucast (al - off)) in
        if overflow then 0 else ucast out)"

definition page_begin :: "u32 \<Rightarrow> u32 \<Rightarrow> u32" where
  "page_begin ptr page_size = (let s = page_size - 1 in ptr - (ptr AND s))"

definition SIZEOF_BUCKET :: u32 where
  "SIZEOF_BUCKET = 20"

definition SIZEOF_LONG_DOUBLE :: u32 where
  "SIZEOF_LONG_DOUBLE = 12"

definition bitmap_size :: "u32 \<Rightarrow> u32 \<Rightarrow> u32" where
  "bitmap_size sz power_two =
     (let slots = (sz - SIZEOF_BUCKET) div power_two in if slots = 0 then 1 else slots)"

section \<open>The class\<close>

definition b_next :: "memory \<Rightarrow> u32 \<Rightarrow> u32" where
  "b_next m b = load32 m b"

definition b_power_size :: "memory \<Rightarrow> u32 \<Rightarrow> u32" where
  "b_power_size m b = load32 m (b + 8)"

definition b_bitmap :: "memory \<Rightarrow> u32 \<Rightarrow> bitmap" where
  "b_bitmap m b = \<lparr>bm_ptr = load32 m (b + 12), bm_size = load32 m (b + 16)\<rparr>"

definition bitmap_offset :: "memory \<Rightarrow> u32 \<Rightarrow> u32 \<Rightarrow> u32" where
  "bitmap_offset m b i =
     (let val = bm_ptr (b_bitmap m b) + (bm_size (b_bitmap m b) + 7) div 8
      in align val SIZEOF_LONG_DOUBLE + i * b_power_size m b)"

definition store_bitmap :: "u32 \<Rightarrow> bitmap \<Rightarrow> memory \<Rightarrow> memory" where
  "store_bitmap b bm m = store32 (b + 16) (bm_size bm) (store32 (b + 12) (bm_ptr bm) m)"

definition allocate_bucket :: "pmm \<Rightarrow> u32 \<Rightarrow> memory \<Rightarrow> u32 \<times> memory" where
  "allocate_bucket P sz m =
     (let page_size = 0x1000; new_size = align (sz + SIZEOF_BUCKET) page_size;
          (frame, m1) = allocate_frame P m; out = P2V frame
      in if out = 0 then (0, m1)
      else let
          m2 = store32 (out + 8) sz m1;
          m3 = store32 (out + 4) new_size m2;
          m4 = store32 out 0 m3;
          slots0 = bitmap_size new_size (b_power_size m4 out);
          slots = (if sint slots0 < 1 then 1 else slots0);
          bm_addr = out + SIZEOF_BUCKET;
          bm_bytes = (slots + 7) div 8;
          m5 = store_bitmap out (Bitmap_new bm_addr slots) m4
        in (out, memset bm_addr 0 bm_bytes m5))"

text \<open>The list head is passed and returned; the integer result is first.\<close>

definition push_bucket :: "pmm \<Rightarrow> u32 \<Rightarrow> u32 \<Rightarrow> memory \<Rightarrow> int \<times> u32 \<times> memory" where
  "push_bucket P buckets sz m =
     (let (new_bucket, m1) = allocate_bucket P sz m in
      if new_bucket = 0 then (- 1, buckets, m1)
      else (1, new_bucket, store32 new_bucket buckets m1))"

definition free_bucket :: "pmm \<Rightarrow> u32 \<Rightarrow> memory \<Rightarrow> int \<times> memory" where
  "free_bucket P b m = (1, free_frame P b m)"

partial_function (option) remove_scan :: "u32 \<Rightarrow> u32 \<Rightarrow> u32 \<Rightarrow> memory \<Rightarrow> (u32 \<times> u32) option" where
  "remove_scan rem current prev m =
     (if current \<noteq> 0 \<and> current \<noteq> rem then remove_scan rem (b_next m current) current m
      else Some (current, prev))"

definition remove_bucket :: "pmm \<Rightarrow> u32 \<Rightarrow> u32 \<Rightarrow> memory \<Rightarrow> (u32 \<times> memory) option" where
  "remove_bucket P buckets rem m =
     (let head = (if buckets = rem then b_next m buckets else buckets) in
      case remove_scan rem buckets 0 m of None \<Rightarrow> None
      | Some (current, prev) \<Rightarrow>
          let m1 = (if prev \<noteq> 0
                    then store32 prev (if current \<noteq> 0 then b_next m current else 0) m else m)
          in Some (head, snd (free_bucket P rem m1)))"

section \<open>Powers of two\<close>

text \<open>The values the loop of \<open>compute_power\<close> runs through: powers of two, then 0 for ever.\<close>

definition power_values :: "u32 set" where
  "power_values = insert 0 ((\<lambda>k. 2 ^ k) ` {4..31})"

lemma unat_exp: "k < 32 \<Longrightarrow> unat ((2 :: u32) ^ k) = 2 ^ k"
proof -
  assume "k < 32"
  then have "(2 :: nat) ^ k < 2 ^ 32" by (intro power_strict_increasing) auto
  moreover have "(2 :: u32) ^ k = word_of_nat (2 ^ k)" by simp
  ultimately show ?thesis by (simp only: unat_of_nat) simp
qed

lemma compute_power_loop_result:
  assumes "compute_power_loop out bytes = Some r" and "out \<in> power_values"
  shows "bytes \<le> r \<and> r \<in> power_values"
proof -
  have closed: "push_bit 1 x \<in> power_values" if "x \<in> power_values" for x :: u32
  proof -
    from that consider "x = 0" | k where "k \<in> {4..31}" "x = 2 ^ k" by (auto simp: power_values_def)
    then show ?thesis
    proof cases
      case (2 k)
      then have "push_bit 1 x = 2 ^ Suc k" by (simp add: push_bit_eq_mult)
      then show ?thesis
      proof (cases "k = 31")
        case False
        with 2 have "Suc k \<in> {4..31}" by auto
        with \<open>push_bit 1 x = 2 ^ Suc k\<close> show ?thesis unfolding power_values_def by blast
      qed (simp add: power_values_def)
    qed (simp add: power_values_def)
  qed
  have "out \<in> power_values \<longrightarrow> bytes \<le> r \<and> r \<in> power_values"
  proof (rule compute_power_loop.raw_induct
      [where P = "\<lambda>out bytes r. out \<in> power_values \<longrightarrow> bytes \<le> r \<and> r \<in> power_values", OF _ assms(1)])
    fix f out bytes r
    assume IH: "\<And>out bytes r. f out bytes = Some r \<Longrightarrow> out \<in> power_values \<longrightarrow> bytes \<le> r \<and> r \<in> power_values"
      and eq: "(if out < bytes then f (push_bit 1 out) bytes else Some out) = Some r"
    show "out \<in> power_values \<longrightarrow> bytes \<le> r \<and> r \<in> power_values"
      using eq IH [of "push_bit 1 out" bytes r] closed [of out] by (auto split: if_splits)
  qed
  with assms(2) show ?thesis by blast
qed

lemma compute_power_diverges: "2 ^ 31 < bytes \<Longrightarrow> compute_power bytes = None"
proof (rule ccontr)
  assume big: "2 ^ 31 < bytes" and "compute_power bytes \<noteq> None"
  then obtain r where r: "compute_power_loop 16 bytes = Some r" by (auto simp: compute_power_def)
  have "(16 :: u32) \<in> power_values"
    unfolding power_values_def by (intro insertI2 image_eqI [of _ _ 4]) auto
  with compute_power_loop_result [OF r] have "bytes \<le> r" "r \<in> power_values" by auto
  then consider "bytes \<le> 0" | k where "k \<in> {4..31}" "bytes \<le> 2 ^ k" by (auto simp: power_values_def)
  then show False
  proof cases
    case 1
    with big show False by unat_arith
  next
    case (2 k)
    then have "unat bytes \<le> 2 ^ k" by (simp add: word_le_nat_alt unat_exp)
    also have "\<dots> \<le> 2 ^ 31" using 2 by (intro power_increasing) auto
    finally show False using big by (simp add: word_less_nat_alt)
  qed
qed

lemma compute_power_loop_from:
  "k \<le> 31 \<Longrightarrow> j \<le> k \<Longrightarrow> bytes \<le> 2 ^ k \<Longrightarrow> (k = j \<or> 2 ^ (k - 1) < bytes) \<Longrightarrow>
    compute_power_loop (2 ^ j) bytes = Some (2 ^ k)"
proof (induction "k - j" arbitrary: j)
  case 0
  then show ?case by (subst compute_power_loop.simps) (auto simp: linorder_not_less)
next
  case (Suc d)
  then have j: "j < k" "2 ^ (k - 1) < bytes" by auto
  then have "unat (2 ^ j :: u32) \<le> unat (2 ^ (k - 1) :: u32)"
    using Suc.prems by (simp add: unat_exp power_increasing)
  with j(2) have "2 ^ j < bytes" by (simp add: word_le_nat_alt [symmetric] le_less_trans)
  then have "compute_power_loop (2 ^ j) bytes = compute_power_loop (2 ^ Suc j) bytes"
    by (subst compute_power_loop.simps) (simp add: push_bit_eq_mult mult.commute)
  also have "\<dots> = Some (2 ^ k)" using Suc j by (intro Suc.hyps) auto
  finally show ?case .
qed

lemma compute_power_some:
  assumes "4 \<le> k" "k \<le> 31" "bytes \<le> 2 ^ k" "k = 4 \<or> 2 ^ (k - 1) < bytes"
  shows "compute_power bytes = Some (2 ^ k)"
  using compute_power_loop_from [of k 4 bytes] assms by (auto simp: compute_power_def)

lemma compute_power_total:
  assumes "bytes \<le> 2 ^ 31"
  obtains k where "4 \<le> k" "k \<le> 31" "bytes \<le> 2 ^ k" "k = 4 \<or> 2 ^ (k - 1) < bytes"
    "compute_power bytes = Some (2 ^ k)"
proof -
  let ?P = "\<lambda>k. 4 \<le> k \<and> bytes \<le> 2 ^ k"
  have "?P 31" using assms by simp
  then obtain k where k: "?P k" "\<forall>j < k. \<not> ?P j" using exists_least_iff [of ?P] by blast
  then have "k \<le> 31" using \<open>?P 31\<close> by (meson linorder_not_le)
  have "k = 4 \<or> 2 ^ (k - 1) < bytes"
  proof (cases "k = 4")
    case False
    with k(1) have "4 \<le> k - 1" "k - 1 < k" by auto
    with k(2) have "\<not> bytes \<le> 2 ^ (k - 1)" by blast
    then show ?thesis by (simp add: linorder_not_le)
  qed simp
  from this k(1) \<open>k \<le> 31\<close> show thesis
    by (intro that [of k]) (auto simp: compute_power_some)
qed

section \<open>Alignment\<close>

lemma align_eq: "align sz al = (if sz mod al = 0 then sz else sz + (al - sz mod al))"
proof -
  have unat64: "unat (ucast x :: u64) = unat x" for x :: u32
    using unat_bound32 [of x] by (simp add: unsigned_ucast_eq take_bit_eq_mod)
  have "\<not> 2 ^ 64 \<le> unat (ucast sz :: u64) + unat (ucast y :: u64)" for y :: u32
    using unat_bound32 [of sz] unat_bound32 [of y] by (simp add: unat64)
  moreover have "ucast (ucast sz + ucast y :: u64) = sz + y" for y :: u32
    using unat_bound32 [of sz] unat_bound32 [of y]
    by (simp add: word_unat_eq_iff unsigned_ucast_eq take_bit_eq_mod unat_word_ariths)
  ultimately show ?thesis by (simp add: align_def uaddll_overflow_def Let_def)
qed

lemma page_begin_page_of: "page_begin ptr 0x1000 = page_of ptr"
  by (simp add: page_begin_def page_of_minus)

section \<open>Geometry of a bucket\<close>

text \<open>
  The slot sizes whose slots fit the one frame a bucket has, the length of the bitmap that
  \<open>allocate_bucket\<close> computes for them, and the place of slot \<open>i\<close>. \<open>set_first_free\<close> scans as many
  bits as the bitmap has bytes, so a bucket has \<open>bm_bytes p\<close> slots in use at most.
\<close>

definition slot_sizes :: "u32 set" where
  "slot_sizes = {16, 32, 64, 128, 256, 512, 1024, 2048}"

definition bm_bytes :: "u32 \<Rightarrow> u32" where
  "bm_bytes p = (bitmap_size (align (p + SIZEOF_BUCKET) 0x1000) p + 7) div 8"

definition bucket_ok :: "memory \<Rightarrow> u32 \<Rightarrow> bool" where
  "bucket_ok m b \<longleftrightarrow> page_aligned b \<and> P2V b = b \<and> b_power_size m b \<in> slot_sizes \<and>
     b_bitmap m b = \<lparr>bm_ptr = b + SIZEOF_BUCKET, bm_size = bm_bytes (b_power_size m b)\<rparr>"

text \<open>Bytes of the bitmap that hold bits of slots, and the offset of the first slot.\<close>

definition data_offset :: "u32 \<Rightarrow> u32 \<Rightarrow> u32" where
  "data_offset b p = align (b + SIZEOF_BUCKET + (bm_bytes p + 7) div 8) SIZEOF_LONG_DOUBLE - b"

definition slot_addr :: "u32 \<Rightarrow> u32 \<Rightarrow> u32 \<Rightarrow> u32" where
  "slot_addr b p i = b + data_offset b p + i * p"

lemma slot_sizes_cases:
  assumes "p \<in> slot_sizes"
  obtains "p = 16" | "p = 32" | "p = 64" | "p = 128" | "p = 256" | "p = 512" | "p = 1024" | "p = 2048"
  using assms by (auto simp: slot_sizes_def)

lemma bm_bytes_eval:
  "bm_bytes 16 = 32" "bm_bytes 32 = 16" "bm_bytes 64 = 8" "bm_bytes 128 = 4"
  "bm_bytes 256 = 2" "bm_bytes 512 = 1" "bm_bytes 1024 = 1" "bm_bytes 2048 = 1"
  by (simp_all add: bm_bytes_def bitmap_size_def align_eq SIZEOF_BUCKET_def)

lemma bitmap_offset_slot: "bucket_ok m b \<Longrightarrow> bitmap_offset m b i = slot_addr b (b_power_size m b) i"
  by (simp add: bitmap_offset_def bucket_ok_def slot_addr_def data_offset_def Let_def)

lemma align_12_bounds:
  assumes "unat x + 12 \<le> 2 ^ 32"
  shows "unat x \<le> unat (align x 12)" and "unat (align x 12) < unat x + 12"
proof -
  have md: "unat (x mod 12) < 12" by (simp add: unat_mod_distrib)
  have "unat (x + (12 - x mod 12)) = unat x + (12 - unat (x mod 12))" if "x mod 12 \<noteq> 0"
  proof -
    have "x mod 12 \<le> 12" using md by (simp add: word_le_nat_alt)
    then have "unat (12 - x mod 12) = 12 - unat (x mod 12)" by (simp add: unat_sub)
    moreover have "0 < unat (x mod 12)" using that by (simp add: unat_gt_0)
    ultimately show ?thesis using assms md by (subst unat_add_lem [THEN iffD1]) auto
  qed
  moreover have "0 < unat (x mod 12)" if "x mod 12 \<noteq> 0" using that by (simp add: unat_gt_0)
  ultimately show "unat x \<le> unat (align x 12)" "unat (align x 12) < unat x + 12"
    using md by (auto simp: align_eq)
qed

lemma data_offset_bounds:
  assumes "page_aligned b" and "p \<in> slot_sizes"
  defines "base \<equiv> 20 + unat ((bm_bytes p + 7) div 8)"
  shows "base \<le> unat (data_offset b p)" and "unat (data_offset b p) < base + 12"
proof -
  have small: "unat ((bm_bytes p + 7) div 8) \<le> 4"
    using assms(2) by (cases p rule: slot_sizes_cases) (auto simp: bm_bytes_eval)
  let ?k = "SIZEOF_BUCKET + (bm_bytes p + 7) div 8"
  have k: "unat ?k = base" using small
    by (simp add: SIZEOF_BUCKET_def base_def) (subst unat_add_lem [THEN iffD1]; simp)
  with small have "?k < 4096" by (simp add: word_less_nat_alt base_def)
  then have x: "unat (b + ?k) = unat b + base" using assms(1) k by (simp add: unat_offset)
  have bound: "unat b + 4096 \<le> 2 ^ 32" using assms(1) by (rule page_aligned_bound)
  then have "unat (b + ?k) + 12 \<le> 2 ^ 32" using x small by (simp add: base_def)
  note al = align_12_bounds [OF this, unfolded x]
  then have "b \<le> align (b + ?k) 12" by (simp add: word_le_nat_alt)
  then have "unat (data_offset b p) = unat (align (b + ?k) 12) - unat b"
    by (simp add: data_offset_def SIZEOF_LONG_DOUBLE_def add.assoc unat_sub)
  with al show "base \<le> unat (data_offset b p)" "unat (data_offset b p) < base + 12" by auto
qed

text \<open>Offsets of the slots inside the page: slots come after the bits in use and fit.\<close>

lemma slot_fits:
  assumes b: "page_aligned b" and p: "p \<in> slot_sizes" and i: "i < bm_bytes p"
  defines "off \<equiv> unat (data_offset b p) + unat i * unat p"
  shows "off + unat p \<le> 4096" and "slot_addr b p i = b + word_of_nat off"
    and "20 + unat i div 8 < off"
proof -
  note db = data_offset_bounds [OF b p]
  show fit: "off + unat p \<le> 4096"
    using p i db by (cases p rule: slot_sizes_cases) (auto simp: bm_bytes_eval off_def word_less_nat_alt)
  show "slot_addr b p i = b + word_of_nat off"
    by (simp add: slot_addr_def off_def)
  show "20 + unat i div 8 < off"
    using p i db by (cases p rule: slot_sizes_cases) (auto simp: bm_bytes_eval off_def word_less_nat_alt)
qed

end
