(* ===== verification/Paging.thy ===== *)
theory Paging
  imports Pages Kstring Pmm
begin

text \<open>
  Paging structures (src/src/vmm/paging.cpp): page entries, \<open>Page::map_page\<close>, \<open>Page::copy\<close> and
  the CR3 conversions, over the memory the kernel sees in its window. The reference they are
  checked against is the address translation of the processor, \<open>walk\<close>: two levels of 1024
  entries, present bit 0, frame address in bits 12 to 31. \<open>invlpg\<close> only drops a cached
  translation and has no counterpart, since \<open>walk\<close> reads the tables every time.
\<close>

section \<open>Page entries\<close>

definition PageEntry_new :: "u32 \<Rightarrow> u16 \<Rightarrow> u32" where
  "PageEntry_new val flags = (val AND NOT 0xFFF) OR (ucast flags AND 0xFFF)"

text \<open>\<open>PageEntry::value\<close> of the entry at an address.\<close>

definition PageEntry_value :: "memory \<Rightarrow> u32 \<Rightarrow> u32" where
  [simp]: "PageEntry_value m a = load32 m a"

definition PageEntry_set_value :: "u32 \<Rightarrow> u32 \<Rightarrow> u32" where
  "PageEntry_set_value e val = e OR (val AND NOT 0xFFF)"

definition PageEntry_set_flags :: "u32 \<Rightarrow> u16 \<Rightarrow> u32" where
  "PageEntry_set_flags e flags = e OR (ucast flags AND 0xFFF)"

section \<open>Pages\<close>

definition pd_index :: "u32 \<Rightarrow> u32" where
  "pd_index virt_addr = drop_bit 22 virt_addr AND 0x3FF"

definition pt_index :: "u32 \<Rightarrow> u32" where
  "pt_index virt_addr = drop_bit 12 virt_addr AND 0x3FF"

text \<open>\<open>Page::operator[]\<close>: the reference is the address of the entry.\<close>

definition Page_index :: "u32 \<Rightarrow> u32 \<Rightarrow> u32" where
  "Page_index page index = entry page index"

definition Page_address :: "u32 \<Rightarrow> u32" where
  [simp]: "Page_address page = page"

definition get_current_pd :: "u32 \<Rightarrow> u32" where
  "get_current_pd cr3 = P2V cr3"

text \<open>The value \<open>update_cr3\<close> loads into CR3.\<close>

definition update_cr3 :: "u32 \<Rightarrow> u32" where
  "update_cr3 page = V2P (Page_address page)"

definition Page_copy :: "pmm \<Rightarrow> u32 \<Rightarrow> memory \<Rightarrow> u32 \<times> memory" where
  "Page_copy P page m =
     (let (frame, m1) = allocate_frame P m; new_page = P2V frame
      in (new_page, memcpy new_page page 0x1000 m1))"

definition new_table :: "pmm \<Rightarrow> u32 \<Rightarrow> u32 \<Rightarrow> memory \<Rightarrow> memory" where
  "new_table P pd pd_idx m =
     (let (frame, m1) = allocate_frame P m; new_page = P2V frame; m2 = memset new_page 0 0x1000 m1
      in store32 (Page_index pd pd_idx) (PageEntry_new (V2P new_page) 7) m2)"

definition map_page :: "pmm \<Rightarrow> u32 \<Rightarrow> u32 \<Rightarrow> u32 \<Rightarrow> u32 \<Rightarrow> memory \<Rightarrow> memory" where
  "map_page P page phys_addr virt_addr flags m =
     (let pd = P2V (Page_address page); pd_idx = pd_index virt_addr; pt_idx = pt_index virt_addr;
          m1 = (if PageEntry_value m (Page_index pd pd_idx) AND 1 = 0 then new_table P pd pd_idx m else m);
          pt = P2V (PageEntry_value m1 (Page_index pd pd_idx) AND NOT 0xFFF)
      in store32 (Page_index pt pt_idx) (PageEntry_new phys_addr (ucast flags)) m1)"

section \<open>Translation\<close>

definition present :: "u32 \<Rightarrow> bool" where
  "present e \<longleftrightarrow> e AND 1 \<noteq> 0"

definition table_of :: "u32 \<Rightarrow> u32" where
  "table_of e = P2V (page_of e)"

definition pde :: "memory \<Rightarrow> u32 \<Rightarrow> u32 \<Rightarrow> u32" where
  "pde m pd i = load32 m (entry pd i)"

text \<open>The two-level tables seen as one: the entry at \<open>(i, k)\<close>, zero where there is no table.\<close>

definition pte_at :: "memory \<Rightarrow> u32 \<Rightarrow> u32 \<Rightarrow> u32 \<Rightarrow> u32" where
  "pte_at m pd i k = (if present (pde m pd i) then load32 m (entry (table_of (pde m pd i)) k) else 0)"

definition walk :: "memory \<Rightarrow> u32 \<Rightarrow> u32 \<Rightarrow> u32 option" where
  "walk m cr3 va =
     (let e1 = load32 m (entry (P2V (page_of cr3)) (pd_index va)) in
      if \<not> present e1 then None
      else let e2 = load32 m (entry (P2V (page_of e1)) (pt_index va)) in
        if \<not> present e2 then None else Some (page_of e2 OR (va AND 0xFFF)))"

lemma present_0 [simp]: "\<not> present 0"
  by (simp add: present_def)

lemma present_iff_bit: "present e \<longleftrightarrow> bit e 0"
  by (simp add: present_def bit_iff_and_push_bit_not_eq_0)

lemma pd_index_bound [simp]: "pd_index va < 1024"
  and pt_index_bound [simp]: "pt_index va < 1024"
proof -
  have "x AND 0x3FF < 1024" for x :: u32
    by (rule le_less_trans [OF word_and_le1]) simp
  then show "pd_index va < 1024" "pt_index va < 1024"
    by (simp_all add: pd_index_def pt_index_def)
qed

lemma page_aligned_P2V: "page_aligned a \<Longrightarrow> page_aligned (P2V a)"
  by (simp add: page_aligned_def page_of_P2V)

lemma page_aligned_table_of [simp]: "page_aligned (table_of e)"
  by (simp add: table_of_def page_aligned_P2V)

text \<open>
  A directory the kernel may edit: page-aligned, inside the window, its tables distinct from
  one another and from the directory itself.
\<close>

definition pd_wf :: "memory \<Rightarrow> u32 \<Rightarrow> bool" where
  "pd_wf m pd \<longleftrightarrow> page_aligned pd \<and> P2V pd = pd \<and>
     (\<forall>i < 1024. present (pde m pd i) \<longrightarrow> table_of (pde m pd i) \<noteq> pd) \<and>
     (\<forall>i < 1024. \<forall>j < 1024. i \<noteq> j \<longrightarrow> present (pde m pd i) \<longrightarrow> present (pde m pd j) \<longrightarrow>
        table_of (pde m pd i) \<noteq> table_of (pde m pd j))"

text \<open>A page that is neither the directory nor one of its tables.\<close>

definition outside_pd :: "memory \<Rightarrow> u32 \<Rightarrow> u32 \<Rightarrow> bool" where
  "outside_pd m pd q \<longleftrightarrow> q \<noteq> pd \<and>
     (\<forall>i < 1024. present (pde m pd i) \<longrightarrow> table_of (pde m pd i) \<noteq> q)"

lemma walk_pte_at:
  "walk m cr3 va = (let e = pte_at m (P2V (page_of cr3)) (pd_index va) (pt_index va) in
     if present e then Some (page_of e OR (va AND 0xFFF)) else None)"
  by (auto simp: walk_def pte_at_def pde_def table_of_def Let_def)

section \<open>What an edit does to the tables\<close>

lemma page_of_PageEntry_new: "page_of (PageEntry_new v f) = page_of v"
  unfolding page_of_def PageEntry_new_def mask_12
  by (rule bit_word_eqI) (auto simp: bit_simps)

lemma present_PageEntry_new: "present (PageEntry_new v f) \<longleftrightarrow> bit f 0"
  unfolding present_iff_bit PageEntry_new_def mask_12 by (auto simp: bit_simps)

lemma table_of_PageEntry_new: "page_aligned q \<Longrightarrow> P2V q = q \<Longrightarrow> table_of (PageEntry_new (V2P q) f) = q"
  by (simp add: table_of_def page_of_PageEntry_new page_of_V2P page_aligned_def P2V_V2P)

lemma page_aligned_frame: "page_aligned (i * FRAME_SIZE)"
proof -
  have "i * FRAME_SIZE = push_bit 12 i"
    by (simp add: FRAME_SIZE_def push_bit_eq_mult)
  then show ?thesis
    unfolding page_aligned_def page_of_def mask_12
    by (simp only:) (rule bit_word_eqI, auto simp: bit_simps)
qed

lemma page_aligned_allocate_frame [simp]: "page_aligned (fst (allocate_frame P m))"
proof -
  have "page_aligned 0" by (simp add: page_aligned_def page_of_def)
  then show ?thesis by (auto simp: allocate_frame_def page_aligned_frame split: option.split)
qed

definition bitmap_apart :: "pmm \<Rightarrow> u32 \<Rightarrow> bool" where
  "bitmap_apart P q \<longleftrightarrow> (\<forall>x. in_bitmap (pmm_bm P) x \<longrightarrow> page_of x \<noteq> q)"

definition tables_apart :: "pmm \<Rightarrow> memory \<Rightarrow> u32 \<Rightarrow> bool" where
  "tables_apart P m pd \<longleftrightarrow> bitmap_apart P pd \<and>
     (\<forall>i < 1024. present (pde m pd i) \<longrightarrow> bitmap_apart P (table_of (pde m pd i)))"

text \<open>
  What \<open>map_page\<close> relies on: a well-formed directory and, when it has to add a table, a frame
  that is neither the directory nor one of its tables, with the allocator's bitmap elsewhere.
\<close>

definition map_ready :: "pmm \<Rightarrow> memory \<Rightarrow> u32 \<Rightarrow> u32 \<Rightarrow> bool" where
  "map_ready P m pd va \<longleftrightarrow> pd_wf m pd \<and>
     (present (pde m pd (pd_index va)) \<or>
      tables_apart P m pd \<and> outside_pd m pd (P2V (fst (allocate_frame P m))))"

lemma allocate_frame_page:
  "bitmap_apart P (page_of x) \<Longrightarrow> snd (allocate_frame P m) x = m x"
  by (rule allocate_frame_outside) (auto simp: bitmap_apart_def)

lemma memset_page: "page_aligned q \<Longrightarrow> memset q v 0x1000 m x = (if page_of x = q then v else m x)"
  by (simp add: memset_apply in_page_iff)

lemma load32_zero_page: "(\<And>x. page_of x = q \<Longrightarrow> m x = 0) \<Longrightarrow> page_aligned q \<Longrightarrow> k < 1024 \<Longrightarrow>
    load32 m (entry q k) = 0"
  using load32_entry_cong [of q k m "\<lambda>_. 0"] by (simp add: load32_def)

lemma new_table_bytes:
  assumes "page_aligned pd" "i < 1024" "bitmap_apart P (page_of x)" "page_of x \<noteq> pd"
  shows "new_table P pd i m x =
    (if page_of x = P2V (fst (allocate_frame P m)) then 0 else m x)"
  using assms by (simp add: new_table_def Page_index_def split_beta Let_def store32_entry_outside
      memset_page page_aligned_P2V allocate_frame_page)

lemma new_table_bytes_new:
  assumes "page_aligned pd" "i < 1024" "page_of x = P2V (fst (allocate_frame P m))" "page_of x \<noteq> pd"
  shows "new_table P pd i m x = 0"
  using assms by (simp add: new_table_def Page_index_def split_beta Let_def store32_entry_outside
      memset_page page_aligned_P2V)

lemma new_table_pde:
  assumes "page_aligned pd" "i < 1024" "j < 1024" "bitmap_apart P pd"
    and "P2V (fst (allocate_frame P m)) \<noteq> pd"
  shows "pde (new_table P pd i m) pd j =
    (if j = i then PageEntry_new (V2P (P2V (fst (allocate_frame P m)))) 7 else pde m pd j)"
proof -
  let ?new = "P2V (fst (allocate_frame P m))"
  have "load32 (memset ?new 0 0x1000 (snd (allocate_frame P m))) (entry pd j) = load32 m (entry pd j)"
    using assms by (intro load32_entry_cong)
      (auto simp: memset_page page_aligned_P2V allocate_frame_page)
  with assms show ?thesis
    by (simp add: pde_def new_table_def Page_index_def split_beta Let_def load32_store32_entry)
qed

lemma new_table_pte_at:
  assumes wf: "pd_wf m pd" and i: "i < 1024" and abs: "\<not> present (pde m pd i)"
    and ap: "tables_apart P m pd" and out: "outside_pd m pd (P2V (fst (allocate_frame P m)))"
    and j: "j < 1024" and k: "k < 1024"
  shows "pte_at (new_table P pd i m) pd j k = pte_at m pd j k"
proof -
  let ?new = "P2V (fst (allocate_frame P m))" and ?m1 = "new_table P pd i m"
  have al: "page_aligned pd" "page_aligned ?new" using wf by (auto simp: pd_wf_def page_aligned_P2V)
  have ne: "?new \<noteq> pd" using out by (simp add: outside_pd_def)
  have pde1: "pde ?m1 pd j = (if j = i then PageEntry_new (V2P ?new) 7 else pde m pd j)"
    using al i j ap ne by (intro new_table_pde) (auto simp: tables_apart_def)
  show ?thesis
  proof (cases "j = i")
    case True
    have "load32 ?m1 (entry ?new k) = 0"
      using al i ne k by (intro load32_zero_page) (auto intro: new_table_bytes_new)
    with True pde1 abs al show ?thesis
      by (simp add: pte_at_def present_PageEntry_new table_of_PageEntry_new)
  next
    case False
    have "load32 ?m1 (entry (table_of (pde m pd j)) k) = load32 m (entry (table_of (pde m pd j)) k)"
      if "present (pde m pd j)"
    proof (rule load32_entry_cong)
      fix x assume "page_of x = table_of (pde m pd j)"
      with that j al i wf ap out show "?m1 x = m x"
        by (subst new_table_bytes) (auto simp: tables_apart_def outside_pd_def pd_wf_def)
    qed (use k in auto)
    with False pde1 show ?thesis by (simp add: pte_at_def)
  qed
qed

lemma new_table_pd_wf:
  assumes wf: "pd_wf m pd" and i: "i < 1024" and abs: "\<not> present (pde m pd i)"
    and ap: "tables_apart P m pd" and out: "outside_pd m pd (P2V (fst (allocate_frame P m)))"
  shows "pd_wf (new_table P pd i m) pd" and "present (pde (new_table P pd i m) pd i)"
proof -
  let ?new = "P2V (fst (allocate_frame P m))" and ?m1 = "new_table P pd i m"
  have al: "page_aligned pd" "page_aligned ?new" using wf by (auto simp: pd_wf_def page_aligned_P2V)
  have ne: "?new \<noteq> pd" using out by (simp add: outside_pd_def)
  have pde1: "pde ?m1 pd j = (if j = i then PageEntry_new (V2P ?new) 7 else pde m pd j)"
    if "j < 1024" for j
    using al i that ap ne by (intro new_table_pde) (auto simp: tables_apart_def)
  have tab: "table_of (PageEntry_new (V2P ?new) 7) = ?new"
    using al by (simp add: table_of_PageEntry_new)
  show "present (pde ?m1 pd i)" using i by (simp add: pde1 present_PageEntry_new)
  have "\<forall>j < 1024. present (pde m pd j) \<longrightarrow> table_of (pde m pd j) \<noteq> ?new"
    using out by (auto simp: outside_pd_def)
  with wf ne show "pd_wf ?m1 pd"
    unfolding pd_wf_def by (simp add: pde1 tab) metis
qed

lemma pde_store_other:
  "page_aligned pd \<Longrightarrow> page_aligned q \<Longrightarrow> q \<noteq> pd \<Longrightarrow> k < 1024 \<Longrightarrow> j < 1024 \<Longrightarrow>
    pde (store32 (entry q k) v m) pd j = pde m pd j"
  by (simp add: pde_def load32_store32_entry)

lemma pd_wf_table:
  assumes "pd_wf m pd" "i < 1024" "present (pde m pd i)"
  shows "table_of (pde m pd i) \<noteq> pd" and "page_aligned pd"
  using assms by (auto simp: pd_wf_def)

lemma pd_wf_inj:
  assumes "pd_wf m pd" "i < 1024" "present (pde m pd i)" "j < 1024" "present (pde m pd j)"
  shows "table_of (pde m pd j) = table_of (pde m pd i) \<longleftrightarrow> j = i"
  using assms unfolding pd_wf_def by metis

lemma pte_store_pte_at:
  assumes wf: "pd_wf m pd" and i: "i < 1024" "present (pde m pd i)" and k: "k < 1024"
    and j: "j < 1024" and l: "l < 1024"
  shows "pte_at (store32 (entry (table_of (pde m pd i)) k) v m) pd j l =
    (if j = i \<and> l = k then v else pte_at m pd j l)"
proof -
  let ?m1 = "store32 (entry (table_of (pde m pd i)) k) v m"
  have "pde ?m1 pd j = pde m pd j"
    using pd_wf_table [OF wf i] k j by (simp add: pde_store_other)
  moreover have "load32 ?m1 (entry (table_of (pde m pd j)) l) =
      (if j = i \<and> l = k then v else load32 m (entry (table_of (pde m pd j)) l))"
    if "present (pde m pd j)"
    using k l pd_wf_inj [OF wf i j that] by (auto simp: load32_store32_entry)
  ultimately show ?thesis
    using i by (auto simp: pte_at_def)
qed

lemma pte_store_pd_wf:
  assumes wf: "pd_wf m pd" and i: "i < 1024" "present (pde m pd i)" and k: "k < 1024"
  shows "pd_wf (store32 (entry (table_of (pde m pd i)) k) v m) pd"
proof -
  have "pde (store32 (entry (table_of (pde m pd i)) k) v m) pd j = pde m pd j" if "j < 1024" for j
    using pd_wf_table [OF wf i] k that by (simp add: pde_store_other)
  with wf show ?thesis by (simp add: pd_wf_def)
qed

text \<open>The directory with the table for \<open>va\<close> in place, as \<open>map_page\<close> leaves it before its last store.\<close>

definition with_table :: "pmm \<Rightarrow> u32 \<Rightarrow> u32 \<Rightarrow> memory \<Rightarrow> memory" where
  "with_table P pd va m =
     (if present (pde m pd (pd_index va)) then m else new_table P pd (pd_index va) m)"

lemma map_page_split:
  assumes "P2V pd = pd"
  shows "map_page P pd pa va flags m =
    store32 (entry (table_of (pde (with_table P pd va m) pd (pd_index va))) (pt_index va))
      (PageEntry_new pa (ucast flags)) (with_table P pd va m)"
  using assms by (simp add: map_page_def with_table_def Let_def Page_index_def present_def pde_def
      table_of_def page_of_def)

lemma with_table_ready:
  assumes "map_ready P m pd va"
  shows "pd_wf (with_table P pd va m) pd" and "present (pde (with_table P pd va m) pd (pd_index va))"
    and "j < 1024 \<Longrightarrow> l < 1024 \<Longrightarrow> pte_at (with_table P pd va m) pd j l = pte_at m pd j l"
    and "P2V pd = pd"
  using assms
  by (auto simp: with_table_def map_ready_def new_table_pd_wf new_table_pte_at)
    (simp_all add: pd_wf_def)

text \<open>\<open>map_page\<close> is the update of one entry of the two-level table.\<close>

lemma map_page_pte_at:
  assumes "map_ready P m pd va" and "j < 1024" and "l < 1024"
  shows "pte_at (map_page P pd pa va flags m) pd j l =
    (if j = pd_index va \<and> l = pt_index va then PageEntry_new pa (ucast flags) else pte_at m pd j l)"
  using assms with_table_ready [OF assms(1)] by (simp add: map_page_split pte_store_pte_at)

lemma map_page_pd_wf: "map_ready P m pd va \<Longrightarrow> pd_wf (map_page P pd pa va flags m) pd"
  using with_table_ready [of P m pd va] by (simp add: map_page_split pte_store_pd_wf)

section \<open>Translation after an edit\<close>

lemma page_of_from_indices: "page_of va = push_bit 22 (pd_index va) OR push_bit 12 (pt_index va)"
  unfolding page_of_def pd_index_def pt_index_def mask_12 mask_10
proof (rule bit_word_eqI)
  fix n assume "n < LENGTH(32)"
  then consider "n < 12" | "12 \<le> n" "n < 22" | "22 \<le> n" "n < 32" by fastforce
  then show "bit (va AND NOT (mask 12)) n =
      bit (push_bit 22 (drop_bit 22 va AND mask 10) OR push_bit 12 (drop_bit 12 va AND mask 10)) n"
    by cases (auto simp: bit_simps)
qed

lemma pd_index_page_of: "pd_index (page_of va) = pd_index va"
  unfolding pd_index_def page_of_def mask_12 mask_10
  by (rule bit_word_eqI) (auto simp: bit_simps)

lemma pt_index_page_of: "pt_index (page_of va) = pt_index va"
  unfolding pt_index_def page_of_def mask_12 mask_10
  by (rule bit_word_eqI) (auto simp: bit_simps)

lemma same_page_iff:
  "page_of va = page_of vb \<longleftrightarrow> pd_index va = pd_index vb \<and> pt_index va = pt_index vb"
  by (metis page_of_from_indices pd_index_page_of pt_index_page_of)

lemma cr3_of_directory: "page_aligned pd \<Longrightarrow> P2V pd = pd \<Longrightarrow> P2V (page_of (update_cr3 pd)) = pd"
  by (simp add: update_cr3_def page_of_V2P page_aligned_def P2V_V2P)

lemma map_page_walk:
  assumes "map_ready P m pd va"
  shows "walk (map_page P pd pa va flags m) (update_cr3 pd) vb =
    (if page_of vb = page_of va
     then if bit flags 0 then Some (page_of pa OR (vb AND 0xFFF)) else None
     else walk m (update_cr3 pd) vb)"
proof -
  have pd: "P2V (page_of (update_cr3 pd)) = pd"
    using assms by (auto simp: map_ready_def pd_wf_def cr3_of_directory)
  have flag: "bit (ucast flags :: u16) 0 \<longleftrightarrow> bit flags 0" by (simp add: bit_simps)
  show ?thesis
    unfolding walk_pte_at pd
    by (auto simp: map_page_pte_at [OF assms] same_page_iff [of vb va] Let_def
        present_PageEntry_new page_of_PageEntry_new flag)
qed

section \<open>Address spaces over the frame allocator\<close>

text \<open>Page \<open>q\<close> of the window shows a frame the allocator has handed out.\<close>

definition owned :: "pmm \<Rightarrow> memory \<Rightarrow> u32 \<Rightarrow> bool" where
  "owned P m q \<longleftrightarrow>
     (\<exists>i. 1 \<le> i \<and> i < pmm_nbFrames P \<and> q = P2V (i * FRAME_SIZE) \<and> frame_used P i m)"

text \<open>No free frame holds the bitmap of the allocator.\<close>

definition free_apart :: "pmm \<Rightarrow> memory \<Rightarrow> bool" where
  "free_apart P m \<longleftrightarrow>
     (\<forall>i. 1 \<le> i \<and> i < pmm_nbFrames P \<and> \<not> frame_used P i m \<longrightarrow> bitmap_apart P (P2V (i * FRAME_SIZE)))"

definition as_inv :: "pmm \<Rightarrow> memory \<Rightarrow> u32 \<Rightarrow> bool" where
  "as_inv P m pd \<longleftrightarrow> fa_inv (P, m) \<and> free_apart P m \<and> pd_wf m pd \<and> tables_apart P m pd \<and>
     owned P m pd \<and> (\<forall>i < 1024. present (pde m pd i) \<longrightarrow> owned P m (table_of (pde m pd i)))"

lemma window_frame_inj:
  assumes "i < 0x40000" "j < 0x40000"
  shows "P2V (i * FRAME_SIZE) = P2V (j * FRAME_SIZE) \<longleftrightarrow> i = j"
  unfolding P2V_eq_iff by (metis frame_of_addr assms)

lemma frame_used_cong:
  "(\<And>x. in_bitmap (pmm_bm P) x \<Longrightarrow> m x = m' x) \<Longrightarrow> frame_used P i m = frame_used P i m'"
  unfolding frame_used_def by (rule get_bit_cong)

lemma frame_used_write_page:
  assumes "bitmap_apart P q" and "\<And>x. page_of x \<noteq> q \<Longrightarrow> m' x = m x"
  shows "frame_used P i m' = frame_used P i m"
  using assms by (intro frame_used_cong) (auto simp: bitmap_apart_def)

text \<open>A frame just handed out: not in use before, and away from everything owned.\<close>

lemma allocated_frame:
  assumes inv: "fa_inv (P, m)" and nz: "fst (allocate_frame P m) \<noteq> 0"
  obtains f where "allocate_frame P m = (f * FRAME_SIZE, snd (set_bit (pmm_bm P) f m))"
    and "1 \<le> f" and "f < pmm_nbFrames P" and "\<not> frame_used P f m"
    and "\<forall>q. owned P m q \<longrightarrow> q \<noteq> P2V (f * FRAME_SIZE)"
proof -
  from inv nz obtain f where f: "allocate_frame P m = (f * FRAME_SIZE, snd (set_bit (pmm_bm P) f m))"
    "1 \<le> f" "f < pmm_nbFrames P" "\<not> frame_used P f m"
    by (cases rule: fa_cases [OF inv]) (auto simp: fa_alloc_def split_beta prod_eq_iff)
  moreover have "q \<noteq> P2V (f * FRAME_SIZE)" if "owned P m q" for q
  proof -
    from that obtain i where i: "i < pmm_nbFrames P" "q = P2V (i * FRAME_SIZE)" "frame_used P i m"
      by (auto simp: owned_def)
    with f have "i \<noteq> f" by auto
    moreover from inv i f have "i < 0x40000" "f < 0x40000"
      by (auto simp: fa_inv_def intro: less_le_trans)
    ultimately show ?thesis using i by (simp add: window_frame_inj)
  qed
  ultimately show thesis by (intro that [of f]) auto
qed

lemma as_inv_map_ready:
  assumes "as_inv P m pd" and "present (pde m pd (pd_index va)) \<or> fst (allocate_frame P m) \<noteq> 0"
  shows "map_ready P m pd va"
proof (cases "present (pde m pd (pd_index va))")
  case True
  with assms show ?thesis by (simp add: map_ready_def as_inv_def)
next
  case False
  with assms have "fa_inv (P, m)" "fst (allocate_frame P m) \<noteq> 0" by (auto simp: as_inv_def)
  then obtain f where f: "allocate_frame P m = (f * FRAME_SIZE, snd (set_bit (pmm_bm P) f m))"
    and new: "\<forall>q. owned P m q \<longrightarrow> q \<noteq> P2V (f * FRAME_SIZE)"
    by (rule allocated_frame)
  from assms(1) new have "outside_pd m pd (P2V (f * FRAME_SIZE))"
    by (auto simp: as_inv_def outside_pd_def)
  with f assms(1) show ?thesis by (simp add: map_ready_def as_inv_def)
qed

lemma owned_mono: "owned P m q \<Longrightarrow> (\<And>i. frame_used P i m \<Longrightarrow> frame_used P i m') \<Longrightarrow> owned P m' q"
  by (auto simp: owned_def)

lemma new_table_as_inv:
  assumes inv: "as_inv P m pd" and i: "i < 1024" and abs: "\<not> present (pde m pd i)"
    and nz: "fst (allocate_frame P m) \<noteq> 0"
  shows "as_inv P (new_table P pd i m) pd"
proof -
  let ?m1 = "new_table P pd i m"
  from inv have fa: "fa_inv (P, m)" and wf: "pd_wf m pd" and ap: "tables_apart P m pd"
    by (auto simp: as_inv_def)
  from fa nz obtain f where f: "allocate_frame P m = (f * FRAME_SIZE, snd (set_bit (pmm_bm P) f m))"
    "1 \<le> f" "f < pmm_nbFrames P" "\<not> frame_used P f m"
    and new: "\<forall>q. owned P m q \<longrightarrow> q \<noteq> P2V (f * FRAME_SIZE)"
    by (rule allocated_frame)
  let ?new = "P2V (f * FRAME_SIZE)"
  have al: "page_aligned pd" "page_aligned ?new" "P2V pd = pd"
    using wf by (auto simp: pd_wf_def page_aligned_P2V page_aligned_frame)
  have out: "outside_pd m pd ?new" using inv new by (auto simp: as_inv_def outside_pd_def)
  have apn: "bitmap_apart P ?new" using inv f by (auto simp: as_inv_def free_apart_def)
  have used: "frame_used P j ?m1 \<longleftrightarrow> j = f \<or> frame_used P j m" for j
  proof -
    have "frame_used P j ?m1 = frame_used P j (snd (set_bit (pmm_bm P) f m))"
      using al i ap apn by (intro frame_used_cong)
        (auto simp: new_table_def f Page_index_def Let_def store32_entry_outside memset_page
          tables_apart_def bitmap_apart_def)
    then show ?thesis using fa f by (simp add: frame_used_set fa_inv_def)
  qed
  have pde1: "pde ?m1 pd j = (if j = i then PageEntry_new (V2P ?new) 7 else pde m pd j)"
    if "j < 1024" for j
    using al i that ap out f by (subst new_table_pde) (auto simp: tables_apart_def outside_pd_def)
  have tab: "table_of (PageEntry_new (V2P ?new) 7) = ?new"
    using al by (simp add: table_of_PageEntry_new)
  have own: "owned P ?m1 q" if "owned P m q" for q
    using that by (rule owned_mono) (simp add: used)
  have "owned P ?m1 ?new" using f used by (auto simp: owned_def)
  moreover have "pd_wf ?m1 pd" using wf i abs ap out f by (intro new_table_pd_wf) auto
  moreover have "free_apart P ?m1" using inv by (auto simp: as_inv_def free_apart_def used)
  ultimately show ?thesis
    using inv apn by (auto simp: as_inv_def fa_inv_def tables_apart_def own pde1 tab)
qed

lemma pte_store_as_inv:
  assumes inv: "as_inv P m pd" and i: "i < 1024" "present (pde m pd i)" and k: "k < 1024"
  shows "as_inv P (store32 (entry (table_of (pde m pd i)) k) v m) pd"
    and "frame_used P j (store32 (entry (table_of (pde m pd i)) k) v m) = frame_used P j m"
proof -
  let ?t = "table_of (pde m pd i)" and ?m1 = "store32 (entry (table_of (pde m pd i)) k) v m"
  from inv have wf: "pd_wf m pd" and ap: "bitmap_apart P ?t"
    using i by (auto simp: as_inv_def tables_apart_def)
  have used: "frame_used P j ?m1 = frame_used P j m" for j
    by (rule frame_used_write_page [OF ap]) (simp add: store32_entry_outside k)
  then show "frame_used P j ?m1 = frame_used P j m" .
  have "pde ?m1 pd j = pde m pd j" if "j < 1024" for j
    using pd_wf_table [OF wf i] k that by (simp add: pde_store_other)
  with inv used pte_store_pd_wf [OF wf i k] show "as_inv P ?m1 pd"
    by (simp add: as_inv_def fa_inv_def free_apart_def tables_apart_def owned_def)
qed

lemma map_page_as_inv:
  assumes inv: "as_inv P m pd"
    and room: "present (pde m pd (pd_index va)) \<or> fst (allocate_frame P m) \<noteq> 0"
  shows "as_inv P (map_page P pd pa va flags m) pd"
proof -
  have "as_inv P (with_table P pd va m) pd"
    using inv room by (auto simp: with_table_def new_table_as_inv)
  with with_table_ready [OF as_inv_map_ready [OF inv room]] show ?thesis
    by (simp add: map_page_split pte_store_as_inv)
qed

section \<open>Copies and isolation\<close>

lemma load32_shifted_page:
  assumes "\<And>k. k < 4096 \<Longrightarrow> m' (new + k) = m (old + k)" and "i < 1024"
  shows "load32 m' (entry new i) = load32 m (entry old i)"
proof -
  have "m' (entry new i + c) = m (entry old i + c)" if "c < 4" for c
  proof -
    have "4 * i + c < 4096" using index_offset [OF assms(2)] assms(2) that
      by (subst word_less_nat_alt, subst unat_add_lem [THEN iffD1]) (auto simp: word_less_nat_alt)
    from assms(1) [OF this] show ?thesis by (simp add: entry_def add.assoc)
  qed
  from this [of 0] this [of 1] this [of 2] this [of 3] show ?thesis by (simp add: load32_def)
qed

lemma pages_far: "page_aligned p \<Longrightarrow> page_aligned q \<Longrightarrow> p \<noteq> q \<Longrightarrow> 4096 \<le> p - q"
  using in_page_iff [of q p] by (simp add: in_block_def page_aligned_def linorder_not_less)

lemma Page_copy_bytes:
  assumes "page_aligned pd" "P2V (fst (allocate_frame P m)) \<noteq> pd" "bitmap_apart P pd"
  shows "fst (Page_copy P pd m) = P2V (fst (allocate_frame P m))"
    and "k < 4096 \<Longrightarrow> snd (Page_copy P pd m) (P2V (fst (allocate_frame P m)) + k) = m (pd + k)"
    and "page_of x \<noteq> P2V (fst (allocate_frame P m)) \<Longrightarrow>
      snd (Page_copy P pd m) x = snd (allocate_frame P m) x"
proof -
  let ?new = "P2V (fst (allocate_frame P m))"
  have al: "page_aligned ?new" by (simp add: page_aligned_P2V)
  have copy: "snd (Page_copy P pd m) y =
      (if page_of y = ?new then snd (allocate_frame P m) (pd + (y - ?new)) else snd (allocate_frame P m) y)"
    for y using pages_far [OF al assms(1,2)] al
    by (simp add: Page_copy_def split_beta Let_def memcpy_apply in_page_iff)
  show "fst (Page_copy P pd m) = ?new" by (simp add: Page_copy_def split_beta Let_def)
  show "snd (Page_copy P pd m) (?new + k) = m (pd + k)" if "k < 4096"
    using that al assms by (simp add: copy page_of_offset allocate_frame_page)
  show "page_of x \<noteq> ?new \<Longrightarrow> snd (Page_copy P pd m) x = snd (allocate_frame P m) x"
    by (simp add: copy)
qed

lemma Page_copy_effect:
  assumes inv: "as_inv P m pd" and nz: "fst (allocate_frame P m) \<noteq> 0"
    and j: "j < 1024" and k: "k < 1024"
  defines "new \<equiv> fst (Page_copy P pd m)" and "m' \<equiv> snd (Page_copy P pd m)"
  shows "new \<noteq> pd" and "page_aligned new" and "P2V new = new"
    and "pde m' new j = pde m pd j" and "pde m' pd j = pde m pd j"
    and "pte_at m' new j k = pte_at m pd j k" and "pte_at m' pd j k = pte_at m pd j k"
proof -
  from inv have fa: "fa_inv (P, m)" and al: "page_aligned pd" and ap: "tables_apart P m pd"
    by (auto simp: as_inv_def pd_wf_def)
  from fa nz obtain f where f: "fst (allocate_frame P m) = f * FRAME_SIZE"
    and fresh: "\<forall>q. owned P m q \<longrightarrow> q \<noteq> P2V (f * FRAME_SIZE)"
    by (rule allocated_frame) auto
  have ne: "P2V (fst (allocate_frame P m)) \<noteq> pd" using inv fresh f by (auto simp: as_inv_def)
  have apd: "bitmap_apart P pd" using ap by (simp add: tables_apart_def)
  note bytes = Page_copy_bytes [OF al ne apd]
  have new: "new = P2V (fst (allocate_frame P m))" unfolding new_def by (rule bytes(1))
  show "new \<noteq> pd" "page_aligned new" "P2V new = new" using ne by (simp_all add: new page_aligned_P2V)
  show pde_new: "pde m' new j = pde m pd j"
    unfolding pde_def by (rule load32_shifted_page [OF _ j]) (simp add: m'_def new bytes(2))
  have same: "load32 m' (entry q i) = load32 m (entry q i)"
    if "page_aligned q" "q \<noteq> new" "bitmap_apart P q" "i < 1024" for q i
    using that by (intro load32_entry_cong) (auto simp: m'_def new bytes(3) allocate_frame_page)
  show pde_pd: "pde m' pd j = pde m pd j"
    using same [OF al _ apd j] ne by (simp add: pde_def new)
  have "load32 m' (entry (table_of (pde m pd j)) k) = load32 m (entry (table_of (pde m pd j)) k)"
    if "present (pde m pd j)"
    using inv that j k fresh f by (intro same) (auto simp: new as_inv_def tables_apart_def)
  then show "pte_at m' new j k = pte_at m pd j k" "pte_at m' pd j k = pte_at m pd j k"
    by (simp_all add: pte_at_def pde_new pde_pd)
qed

lemma Page_copy_walk:
  assumes "as_inv P m pd" and "fst (allocate_frame P m) \<noteq> 0" and "Page_copy P pd m = (new, m')"
  shows "walk m' (update_cr3 new) va = walk m (update_cr3 pd) va"
    and "walk m' (update_cr3 pd) va = walk m (update_cr3 pd) va"
proof -
  have new: "new = fst (Page_copy P pd m)" and m': "m' = snd (Page_copy P pd m)"
    using assms(3) by simp_all
  have pd: "P2V (page_of (update_cr3 pd)) = pd"
    using assms(1) by (auto simp: as_inv_def pd_wf_def cr3_of_directory)
  note eff = Page_copy_effect [OF assms(1,2), of "pd_index va" "pt_index va", folded new m']
  have "P2V (page_of (update_cr3 new)) = new" using eff(2,3) by (simp add: cr3_of_directory)
  with pd eff(6,7) show "walk m' (update_cr3 new) va = walk m (update_cr3 pd) va"
    "walk m' (update_cr3 pd) va = walk m (update_cr3 pd) va"
    by (simp_all add: walk_pte_at)
qed

text \<open>A directory that shares no table with the edited place is not affected by the edit.\<close>

lemma map_page_isolated:
  assumes inv: "as_inv P m pd" and inv': "as_inv P m pd'" and ne: "pd' \<noteq> pd"
    and abs: "\<not> present (pde m pd (pd_index va))" and nz: "fst (allocate_frame P m) \<noteq> 0"
    and foreign: "outside_pd m pd' pd"
  shows "walk (map_page P pd pa va flags m) (update_cr3 pd') vb = walk m (update_cr3 pd') vb"
proof -
  let ?m1 = "new_table P pd (pd_index va) m" and ?m2 = "map_page P pd pa va flags m"
  from inv have fa: "fa_inv (P, m)" and al: "page_aligned pd" "P2V pd = pd"
    and ap: "tables_apart P m pd" by (auto simp: as_inv_def pd_wf_def)
  from fa nz obtain f where f: "fst (allocate_frame P m) = f * FRAME_SIZE"
    and fresh: "\<forall>q. owned P m q \<longrightarrow> q \<noteq> P2V (f * FRAME_SIZE)"
    by (rule allocated_frame) auto
  let ?new = "P2V (f * FRAME_SIZE)"
  have nal: "page_aligned ?new" by (simp add: page_aligned_P2V page_aligned_frame)
  have "pde ?m1 pd (pd_index va) = PageEntry_new (V2P ?new) 7"
    using al ap fresh inv f by (subst new_table_pde) (auto simp: tables_apart_def as_inv_def)
  then have tab: "table_of (pde ?m1 pd (pd_index va)) = ?new"
    using nal by (simp add: table_of_PageEntry_new)
  have bytes: "?m2 x = m x" if "page_of x \<noteq> pd" "page_of x \<noteq> ?new" "bitmap_apart P (page_of x)" for x
    using that abs al nal f
    by (simp add: map_page_split with_table_def tab store32_entry_outside new_table_bytes)
  have same: "load32 ?m2 (entry q i) = load32 m (entry q i)"
    if "page_aligned q" "q \<noteq> pd" "owned P m q" "bitmap_apart P q" "i < 1024" for q i
    using that fresh by (intro load32_entry_cong) (auto intro!: bytes)
  have "pte_at ?m2 pd' j k = pte_at m pd' j k" if "j < 1024" "k < 1024" for j k
  proof -
    have pde: "pde ?m2 pd' j = pde m pd' j"
      unfolding pde_def using inv' ne that
      by (intro same) (auto simp: as_inv_def pd_wf_def tables_apart_def)
    have "load32 ?m2 (entry (table_of (pde m pd' j)) k) = load32 m (entry (table_of (pde m pd' j)) k)"
      if "present (pde m pd' j)"
      using inv' foreign that \<open>j < 1024\<close> \<open>k < 1024\<close>
      by (intro same) (auto simp: as_inv_def tables_apart_def outside_pd_def)
    with pde show ?thesis by (simp add: pte_at_def)
  qed
  moreover have "P2V (page_of (update_cr3 pd')) = pd'"
    using inv' by (auto simp: as_inv_def pd_wf_def cr3_of_directory)
  ultimately show ?thesis by (simp add: walk_pte_at)
qed

text \<open>
  The result of \<open>allocate_frame\<close> is not checked: with no frame left, the directory entry points
  to the table at physical address 0, whose page is cleared.
\<close>

lemma new_table_exhausted:
  assumes "page_aligned pd" "i < 1024" "pd \<noteq> P2V 0" "fst (allocate_frame P m) = 0"
  shows "load32 (new_table P pd i m) (entry pd i) = 7"
    and "page_of x = P2V 0 \<Longrightarrow> new_table P pd i m x = 0"
proof -
  have "PageEntry_new (V2P (P2V 0)) 7 = 7" by (simp add: PageEntry_new_def V2P_def P2V_def KERNEL_OFFSET_def)
  with assms show "load32 (new_table P pd i m) (entry pd i) = 7"
    by (simp add: new_table_def split_beta Let_def Page_index_def)
  show "page_of x = P2V 0 \<Longrightarrow> new_table P pd i m x = 0"
    using assms by (intro new_table_bytes_new) auto
qed

end
