(* ===== verification/Kmalloc.thy ===== *)
theory Kmalloc
  imports Bucket Paging
begin

text \<open>
  The kernel heap (src/src/vmm/kmalloc.cpp): \<open>malloc\<close>, \<open>free\<close>, \<open>realloc\<close> and \<open>calloc\<close> over the
  list of buckets. The static head of the list and the memory form the state. The walks of the
  list have no bound, so the operations are partial: \<open>None\<close> is a walk that does not end.
\<close>

section \<open>State and operations\<close>

record heap =
  hp_buckets :: u32
  hp_mem :: memory

partial_function (option) malloc_scan ::
  "u32 \<Rightarrow> u32 \<Rightarrow> memory \<Rightarrow> (u32 option \<times> memory) option" where
  "malloc_scan power_two current m =
     (if current \<noteq> 0 then
        (if b_power_size m current = power_two then
           (let (i, m') = set_first_free (b_bitmap m current) m in
            if i \<noteq> - 1 then Some (Some (bitmap_offset m' current i), m')
            else malloc_scan power_two (b_next m' current) m')
         else malloc_scan power_two (b_next m current) m)
      else Some (None, m))"

definition kmalloc :: "pmm \<Rightarrow> u32 \<Rightarrow> heap \<Rightarrow> (u32 \<times> heap) option" where
  "kmalloc P sz h =
     (case compute_power sz of None \<Rightarrow> None
      | Some power_two \<Rightarrow>
        (case malloc_scan power_two (hp_buckets h) (hp_mem h) of None \<Rightarrow> None
         | Some (Some ptr, m) \<Rightarrow> Some (ptr, h\<lparr>hp_mem := m\<rparr>)
         | Some (None, m) \<Rightarrow>
             (let (ret, buckets, m1) = push_bucket P (hp_buckets h) power_two m in
              if ret = - 1 then Some (0, \<lparr>hp_buckets = buckets, hp_mem = m1\<rparr>)
              else let (i, m2) = set_first_free (b_bitmap m1 buckets) m1;
                       h2 = \<lparr>hp_buckets = buckets, hp_mem = m2\<rparr>
                in if i \<noteq> - 1 then Some (bitmap_offset m2 buckets i, h2) else Some (0, h2))))"

definition kfree :: "pmm \<Rightarrow> u32 \<Rightarrow> heap \<Rightarrow> heap option" where
  "kfree P ptr h =
     (if ptr = 0 \<or> hp_buckets h = 0 then Some h
      else let current = page_begin ptr 0x1000; m = hp_mem h in
        if current = 0 then Some h
        else let bm = b_bitmap m current;
                 bit_offset = (ptr - bm_ptr bm + bm_size bm) div b_power_size m current;
                 m1 = snd (clear_bit bm bit_offset m)
          in if is_empty (b_bitmap m1 current) m1
             then (case remove_bucket P (hp_buckets h) current m1 of None \<Rightarrow> None
                   | Some (buckets, m2) \<Rightarrow> Some \<lparr>hp_buckets = buckets, hp_mem = m2\<rparr>)
             else Some (h\<lparr>hp_mem := m1\<rparr>))"

definition krealloc :: "pmm \<Rightarrow> u32 \<Rightarrow> u32 \<Rightarrow> heap \<Rightarrow> (u32 \<times> heap) option" where
  "krealloc P ptr sz h =
     (if sz = 0 then map_option (\<lambda>h'. (0, h')) (kfree P ptr h)
      else if ptr = 0 then kmalloc P sz h
      else let current = page_begin ptr 0x1000 in
        if current \<noteq> 0 \<and> sz \<le> b_power_size (hp_mem h) current then Some (ptr, h)
        else (case kmalloc P sz h of None \<Rightarrow> None
          | Some (copy, h1) \<Rightarrow>
              if copy = 0 then Some (0, h1)
              else let m2 = memcpy copy ptr (b_power_size (hp_mem h1) current) (hp_mem h1)
                in map_option (\<lambda>h'. (copy, h')) (kfree P ptr (h1\<lparr>hp_mem := m2\<rparr>))))"

text \<open>\<open>__builtin_umulll_overflow\<close>, on the two 32-bit arguments widened to 64 bits.\<close>

definition umulll_overflow :: "u64 \<Rightarrow> u64 \<Rightarrow> bool \<times> u64" where
  "umulll_overflow a b = (2 ^ 64 \<le> unat a * unat b, a * b)"

definition kcalloc :: "pmm \<Rightarrow> u32 \<Rightarrow> u32 \<Rightarrow> heap \<Rightarrow> (u32 \<times> heap) option" where
  "kcalloc P nmemb sz h =
     (let (overflow, result) = umulll_overflow (ucast nmemb) (ucast sz) in
      if overflow then Some (0, h)
      else (case kmalloc P (ucast result) h of None \<Rightarrow> None
        | Some (out, h1) \<Rightarrow>
            if out = 0 then Some (0, h1)
            else Some (out, h1\<lparr>hp_mem := memset out 0 (ucast result) (hp_mem h1)\<rparr>)))"

section \<open>The list of buckets\<close>

fun chain :: "memory \<Rightarrow> u32 \<Rightarrow> u32 list \<Rightarrow> bool" where
  "chain m a [] \<longleftrightarrow> a = 0"
| "chain m a (b # bs) \<longleftrightarrow> a = b \<and> b \<noteq> 0 \<and> chain m (b_next m b) bs"

text \<open>Buckets \<open>bs\<close>, in list order, all well formed and on frames of their own.\<close>

definition heap_inv :: "pmm \<Rightarrow> heap \<Rightarrow> u32 list \<Rightarrow> bool" where
  "heap_inv P h bs \<longleftrightarrow> fa_inv (P, hp_mem h) \<and> free_apart P (hp_mem h) \<and>
     chain (hp_mem h) (hp_buckets h) bs \<and> distinct bs \<and>
     (\<forall>b \<in> set bs. bucket_ok (hp_mem h) b \<and> owned P (hp_mem h) b \<and> bitmap_apart P b)"

text \<open>The slots in use: bucket and index.\<close>

definition slot_live :: "memory \<Rightarrow> u32 \<Rightarrow> u32 \<Rightarrow> bool" where
  "slot_live m b i \<longleftrightarrow> i < bm_bytes (b_power_size m b) \<and> get_bit (b_bitmap m b) i m"

definition live :: "memory \<Rightarrow> u32 list \<Rightarrow> (u32 \<times> u32) set" where
  "live m bs = {(b, i). b \<in> set bs \<and> slot_live m b i}"

section \<open>What the header and the bitmap occupy\<close>

text \<open>Two memories that agree on the page of a bucket, except the bytes from the first slot on.\<close>

definition agree_meta :: "u32 \<Rightarrow> memory \<Rightarrow> memory \<Rightarrow> bool" where
  "agree_meta b m m' \<longleftrightarrow>
     (\<forall>k. k < SIZEOF_BUCKET + (bm_bytes (b_power_size m b) + 7) div 8 \<longrightarrow> m' (b + k) = m (b + k))"

definition agree_header :: "u32 \<Rightarrow> memory \<Rightarrow> memory \<Rightarrow> bool" where
  "agree_header b m m' \<longleftrightarrow> (\<forall>k < SIZEOF_BUCKET. m' (b + k) = m (b + k))"

lemma header_load:
  assumes "agree_header b m m'" "unat k + 4 \<le> 20"
  shows "load32 m' (b + k) = load32 m (b + k)"
proof (rule load32_cong)
  fix x assume x: "x - (b + k) < 4"
  define d where "d = x - (b + k)"
  have "d < 4" and xk: "x = b + (k + d)" using x by (auto simp: d_def)
  have "k + d < SIZEOF_BUCKET"
    using \<open>d < 4\<close> assms(2) unfolding SIZEOF_BUCKET_def
    by (simp add: word_less_nat_alt) (subst unat_add_lem [THEN iffD1]; simp)
  with assms(1) show "m' x = m x" by (simp add: agree_header_def xk)
qed

lemma header_fields:
  assumes "agree_header b m m'"
  shows "b_next m' b = b_next m b" and "b_power_size m' b = b_power_size m b"
    and "b_bitmap m' b = b_bitmap m b"
  using header_load [OF assms, of 0] header_load [OF assms, of 8] header_load [OF assms, of 12]
    header_load [OF assms, of 16]
  by (simp_all add: b_next_def b_power_size_def b_bitmap_def)

lemma bucket_ok_cong: "agree_header b m m' \<Longrightarrow> bucket_ok m' b = bucket_ok m b"
  by (simp add: bucket_ok_def header_fields)

lemma meta_size_le:
  "p \<in> slot_sizes \<Longrightarrow> (bm_bytes p + 7) div 8 \<le> 4 \<and> bm_bytes p \<le> 32 \<and> 0 < bm_bytes p"
  by (cases p rule: slot_sizes_cases) (auto simp: bm_bytes_eval)

lemma meta_bound:
  assumes "p \<in> slot_sizes"
  shows "unat (SIZEOF_BUCKET + (bm_bytes p + 7) div 8) = 20 + unat ((bm_bytes p + 7) div 8)"
  using meta_size_le [OF assms] unfolding SIZEOF_BUCKET_def
  by (subst unat_add_lem [THEN iffD1]) (auto simp: word_le_nat_alt)

lemma bit_byte_bound: "i < n \<Longrightarrow> n \<le> 32 \<Longrightarrow> i div 8 < (n + 7) div 8" for i n :: u32
  by (simp add: word_less_nat_alt word_le_nat_alt unat_div_distrib unat_word_ariths)

lemma slot_bit_offset:
  assumes "p \<in> slot_sizes" "i < bm_bytes p"
  shows "SIZEOF_BUCKET + i div 8 < SIZEOF_BUCKET + (bm_bytes p + 7) div 8"
    and "SIZEOF_BUCKET + i div 8 < 4096" and "\<not> SIZEOF_BUCKET + i div 8 < SIZEOF_BUCKET"
proof -
  have le: "i div 8 < (bm_bytes p + 7) div 8" "(bm_bytes p + 7) div 8 \<le> 4"
    using meta_size_le [OF assms(1)] assms(2) by (auto intro: bit_byte_bound)
  then have "unat (SIZEOF_BUCKET + i div 8) = 20 + unat (i div 8)"
    unfolding SIZEOF_BUCKET_def
    by (subst unat_add_lem [THEN iffD1]) (auto simp: word_le_nat_alt word_less_nat_alt)
  with le show "SIZEOF_BUCKET + i div 8 < SIZEOF_BUCKET + (bm_bytes p + 7) div 8"
    "SIZEOF_BUCKET + i div 8 < 4096" "\<not> SIZEOF_BUCKET + i div 8 < SIZEOF_BUCKET"
    unfolding word_less_nat_alt word_le_nat_alt meta_bound [OF assms(1)]
    by (simp_all add: SIZEOF_BUCKET_def)
qed

lemma agree_meta_header: "bucket_ok m b \<Longrightarrow> agree_meta b m m' \<Longrightarrow> agree_header b m m'"
  unfolding agree_meta_def agree_header_def bucket_ok_def
  by (auto simp: word_less_nat_alt meta_bound SIZEOF_BUCKET_def [THEN arg_cong [where f = unat]])

lemma slot_live_cong:
  assumes ok: "bucket_ok m b" and ag: "agree_meta b m m'"
  shows "slot_live m' b i = slot_live m b i"
proof -
  note hd = header_fields [OF agree_meta_header [OF ok ag]]
  have "m' (b + SIZEOF_BUCKET + i div 8) = m (b + SIZEOF_BUCKET + i div 8)"
    if "i < bm_bytes (b_power_size m b)"
    using ag ok slot_bit_offset(1) [OF _ that]
    by (simp add: agree_meta_def bucket_ok_def add.assoc)
  with ok show ?thesis by (auto simp: slot_live_def hd get_bit_iff bucket_ok_def valid_bit_def)
qed

lemma bitmap_in_page:
  assumes ok: "bucket_ok m b" and x: "in_bitmap (b_bitmap m b) x"
  shows "page_of x = b" and "\<not> x - b < SIZEOF_BUCKET"
proof -
  let ?n = "bm_bytes (b_power_size m b)"
  define d where "d = x - (b + SIZEOF_BUCKET)"
  have b: "b_bitmap m b = \<lparr>bm_ptr = b + SIZEOF_BUCKET, bm_size = ?n\<rparr>"
    and p: "b_power_size m b \<in> slot_sizes" and al: "page_aligned b"
    using ok by (auto simp: bucket_ok_def)
  have "d < ?n" using x by (simp add: in_bitmap_def in_block_def b d_def)
  then have "unat d < 32" using meta_size_le [OF p] by (auto simp: word_less_nat_alt word_le_nat_alt)
  moreover have xb: "x - b = SIZEOF_BUCKET + d" by (simp add: d_def)
  ultimately have "unat (x - b) = 20 + unat d"
    unfolding xb SIZEOF_BUCKET_def by (subst unat_add_lem [THEN iffD1]) auto
  with \<open>unat d < 32\<close> show "\<not> x - b < SIZEOF_BUCKET" "page_of x = b"
    using al by (auto simp: word_less_nat_alt SIZEOF_BUCKET_def in_page_iff [symmetric] in_block_def)
qed

text \<open>Writing the bitmap of a bucket changes neither its header nor any other page.\<close>

lemma bitmap_write:
  assumes ok: "bucket_ok m b" and same: "\<And>x. \<not> in_bitmap (b_bitmap m b) x \<Longrightarrow> m' x = m x"
  shows "page_of x \<noteq> b \<Longrightarrow> m' x = m x" and "agree_header b m m'"
proof -
  show "page_of x \<noteq> b \<Longrightarrow> m' x = m x" using bitmap_in_page(1) [OF ok] same by blast
  show "agree_header b m m'"
    unfolding agree_header_def using bitmap_in_page(2) [OF ok] same by fastforce
qed

section \<open>Changes inside one bucket\<close>

lemma agree_meta_page:
  assumes "page_aligned b" "b_power_size m b \<in> slot_sizes"
    and same: "\<And>x. page_of x = b \<Longrightarrow> m' x = m x"
  shows "agree_meta b m m'"
  unfolding agree_meta_def
proof (intro allI impI)
  fix k assume "k < SIZEOF_BUCKET + (bm_bytes (b_power_size m b) + 7) div 8"
  then have "k < 4096"
    using meta_size_le [OF assms(2)] meta_bound [OF assms(2)]
    by (simp add: word_less_nat_alt word_le_nat_alt)
  with assms(1) show "m' (b + k) = m (b + k)" by (intro same) (simp add: page_of_offset)
qed

lemma chain_cong:
  "(\<And>b. b \<in> set bs \<Longrightarrow> b_next m' b = b_next m b) \<Longrightarrow> chain m' a bs = chain m a bs"
  by (induction m a bs rule: chain.induct) auto

lemma heap_inv_local:
  assumes inv: "heap_inv P h bs" and b: "b \<in> set bs"
    and other: "\<And>x. page_of x \<noteq> b \<Longrightarrow> m' x = hp_mem h x" and hd: "agree_header b (hp_mem h) m'"
  shows "heap_inv P (h\<lparr>hp_mem := m'\<rparr>) bs"
    and "b' \<in> set bs \<Longrightarrow> b' \<noteq> b \<Longrightarrow> slot_live m' b' i = slot_live (hp_mem h) b' i"
    and "frame_used P j m' = frame_used P j (hp_mem h)"
proof -
  let ?m = "hp_mem h"
  have ok: "bucket_ok ?m c" if "c \<in> set bs" for c using inv that by (simp add: heap_inv_def)
  have used: "frame_used P j m' = frame_used P j ?m" for j
    using inv b other by (intro frame_used_write_page [of P b]) (auto simp: heap_inv_def)
  then show "frame_used P j m' = frame_used P j ?m" .
  have meta: "agree_meta c ?m m'" if "c \<in> set bs" "c \<noteq> b" for c
    using ok [OF that(1)] that(2) by (intro agree_meta_page) (auto simp: bucket_ok_def intro: other)
  have head: "agree_header c ?m m'" if "c \<in> set bs" for c
    using that hd meta ok by (cases "c = b") (auto intro: agree_meta_header)
  show "b' \<in> set bs \<Longrightarrow> b' \<noteq> b \<Longrightarrow> slot_live m' b' i = slot_live ?m b' i"
    by (intro slot_live_cong ok meta)
  have "chain m' (hp_buckets h) bs = chain ?m (hp_buckets h) bs"
    by (intro chain_cong) (simp add: header_fields(1) [OF head])
  with inv show "heap_inv P (h\<lparr>hp_mem := m'\<rparr>) bs"
    by (simp add: heap_inv_def fa_inv_def free_apart_def owned_def used bucket_ok_cong [OF head])
qed

section \<open>Taking and giving back a slot\<close>

lemma less_bm_bytes_valid: "bucket_ok m b \<Longrightarrow> i < bm_bytes (b_power_size m b) \<Longrightarrow> valid_bit (b_bitmap m b) i"
  by (intro less_size_valid) (simp add: bucket_ok_def)

lemma live_local:
  assumes "heap_inv P h bs" and "b \<in> set bs"
    and "\<And>x. page_of x \<noteq> b \<Longrightarrow> m' x = hp_mem h x" and "agree_header b (hp_mem h) m'"
    and "\<And>i. slot_live m' b i \<longleftrightarrow> Q i"
  shows "live m' bs = {(c, i) \<in> live (hp_mem h) bs. c \<noteq> b} \<union> {(b, i) | i. Q i}"
  using heap_inv_local(2) [OF assms(1-4)] assms(2,5) by (auto simp: live_def)

lemma set_slot:
  assumes inv: "heap_inv P h bs" and b: "b \<in> set bs" and i: "i < bm_bytes (b_power_size (hp_mem h) b)"
  defines "m' \<equiv> snd (set_bit (b_bitmap (hp_mem h) b) i (hp_mem h))"
  shows "heap_inv P (h\<lparr>hp_mem := m'\<rparr>) bs" and "live m' bs = insert (b, i) (live (hp_mem h) bs)"
    and "agree_header b (hp_mem h) m'" and "page_of x \<noteq> b \<Longrightarrow> m' x = hp_mem h x"
proof -
  let ?m = "hp_mem h"
  have ok: "bucket_ok ?m b" using inv b by (simp add: heap_inv_def)
  note w = bitmap_write [OF ok, of m', unfolded m'_def, OF set_bit_outside, folded m'_def]
  show hd: "agree_header b ?m m'" and out: "page_of x \<noteq> b \<Longrightarrow> m' x = ?m x" for x
    by (auto intro: w)
  show "heap_inv P (h\<lparr>hp_mem := m'\<rparr>) bs" by (rule heap_inv_local(1) [OF inv b out hd])
  have "slot_live m' b j \<longleftrightarrow> j = i \<or> slot_live ?m b j" for j
    using i less_bm_bytes_valid [OF ok i]
    by (auto simp: slot_live_def header_fields [OF hd]) (auto simp: m'_def get_set_bit)
  from live_local [OF inv b out hd this] b i
  show "live m' bs = insert (b, i) (live ?m bs)" by (auto simp: live_def)
qed

lemma clear_slot:
  fixes i :: u32
  assumes inv: "heap_inv P h bs" and b: "b \<in> set bs"
  defines "m' \<equiv> snd (clear_bit (b_bitmap (hp_mem h) b) i (hp_mem h))"
  shows "heap_inv P (h\<lparr>hp_mem := m'\<rparr>) bs" and "live m' bs = live (hp_mem h) bs - {(b, i)}"
    and "agree_header b (hp_mem h) m'" and "page_of x \<noteq> b \<Longrightarrow> m' x = hp_mem h x"
proof -
  let ?m = "hp_mem h"
  have ok: "bucket_ok ?m b" using inv b by (simp add: heap_inv_def)
  note w = bitmap_write [OF ok, of m', unfolded m'_def, OF clear_bit_outside, folded m'_def]
  show hd: "agree_header b ?m m'" and out: "page_of x \<noteq> b \<Longrightarrow> m' x = ?m x" for x
    by (auto intro: w)
  show "heap_inv P (h\<lparr>hp_mem := m'\<rparr>) bs" by (rule heap_inv_local(1) [OF inv b out hd])
  have "slot_live m' b j \<longleftrightarrow> j \<noteq> i \<and> slot_live ?m b j" for j
    by (auto simp: slot_live_def header_fields [OF hd]) (auto simp: m'_def bv.get_clear_any)
  from live_local [OF inv b out hd this] b
  show "live m' bs = live ?m bs - {(b, i)}" by (auto simp: live_def)
qed

section \<open>The walk of malloc\<close>

definition has_room :: "memory \<Rightarrow> u32 \<Rightarrow> u32 \<Rightarrow> bool" where
  "has_room m p b \<longleftrightarrow> b_power_size m b = p \<and> (\<exists>i < bm_bytes p. \<not> slot_live m b i)"

lemma set_first_free_slot:
  assumes ok: "bucket_ok m b" and room: "has_room m p b"
  obtains i where "set_first_free (b_bitmap m b) m = (i, snd (set_bit (b_bitmap m b) i m))"
    and "i < bm_bytes p" and "\<not> slot_live m b i" and "i \<noteq> - 1"
proof -
  let ?bm = "b_bitmap m b"
  have p: "b_power_size m b = p" "p \<in> slot_sizes" "bm_size ?bm = bm_bytes p"
    using ok room by (auto simp: has_room_def bucket_ok_def)
  from room have "\<exists>k < bm_size ?bm. \<not> get_bit ?bm k m" by (auto simp: has_room_def slot_live_def p)
  then obtain i where i: "find_from 0 (bm_size ?bm) (\<lambda>i. \<not> get_bit ?bm i m) = Some i"
    by (cases "find_from 0 (bm_size ?bm) (\<lambda>i. \<not> get_bit ?bm i m)") (auto simp: find_from_None_iff)
  then have ib: "i < bm_bytes p" "\<not> get_bit ?bm i m" using find_from_SomeD [OF i] p by auto
  then have "i < 32" using meta_size_le [OF p(2)] by (auto intro: less_le_trans)
  then have "i \<noteq> - 1" by auto
  with i ib p show thesis by (intro that [of i]) (auto simp: set_first_free_def slot_live_def)
qed

lemma set_first_free_no_room:
  assumes "bucket_ok m b" "b_power_size m b = p" "\<not> has_room m p b"
  shows "set_first_free (b_bitmap m b) m = (- 1, m)"
  using assms by (intro set_first_free_None) (auto simp: has_room_def slot_live_def bucket_ok_def)

lemma malloc_scan_none:
  assumes "chain m a bs" and "\<And>b. b \<in> set bs \<Longrightarrow> bucket_ok m b" and "\<And>b. b \<in> set bs \<Longrightarrow> \<not> has_room m p b"
  shows "malloc_scan p a m = Some (None, m)"
  using assms
proof (induction bs arbitrary: a)
  case Nil
  then show ?case by (subst malloc_scan.simps) simp
next
  case (Cons b bs)
  then have "malloc_scan p a m = malloc_scan p (b_next m b) m"
    by (subst malloc_scan.simps) (auto simp: set_first_free_no_room)
  with Cons show ?case by simp
qed

lemma malloc_scan_some:
  assumes "chain m a bs" and "\<And>b. b \<in> set bs \<Longrightarrow> bucket_ok m b" and "\<exists>b \<in> set bs. has_room m p b"
  obtains b i where "b \<in> set bs" and "b_power_size m b = p" and "i < bm_bytes p" and "\<not> slot_live m b i"
    and "malloc_scan p a m = Some (Some (bitmap_offset (snd (set_bit (b_bitmap m b) i m)) b i),
           snd (set_bit (b_bitmap m b) i m))"
proof -
  have "\<exists>b i. b \<in> set bs \<and> b_power_size m b = p \<and> i < bm_bytes p \<and> \<not> slot_live m b i \<and>
    malloc_scan p a m = Some (Some (bitmap_offset (snd (set_bit (b_bitmap m b) i m)) b i),
      snd (set_bit (b_bitmap m b) i m))"
    using assms
  proof (induction bs arbitrary: a)
    case (Cons b bs)
    show ?case
    proof (cases "has_room m p b")
      case True
      have "bucket_ok m b" using Cons.prems by simp
      then obtain i where i: "set_first_free (b_bitmap m b) m = (i, snd (set_bit (b_bitmap m b) i m))"
        "i < bm_bytes p" "\<not> slot_live m b i" "i \<noteq> - 1" using True by (rule set_first_free_slot)
      moreover have "malloc_scan p a m = Some (Some (bitmap_offset (snd (set_bit (b_bitmap m b) i m)) b i),
          snd (set_bit (b_bitmap m b) i m))"
        using Cons.prems(1) True i by (subst malloc_scan.simps) (simp add: has_room_def)
      ultimately show ?thesis using True by (auto simp: has_room_def)
    next
      case False
      then have "malloc_scan p a m = malloc_scan p (b_next m b) m"
        using Cons.prems by (subst malloc_scan.simps) (auto simp: set_first_free_no_room)
      moreover have "chain m (b_next m b) bs" "\<exists>c \<in> set bs. has_room m p c"
        using Cons.prems False by auto
      from Cons.IH [OF this(1) _ this(2)] Cons.prems(2)
      obtain c i where "c \<in> set bs" "b_power_size m c = p" "i < bm_bytes p" "\<not> slot_live m c i"
        "malloc_scan p (b_next m b) m =
          Some (Some (bitmap_offset (snd (set_bit (b_bitmap m c) i m)) c i), snd (set_bit (b_bitmap m c) i m))"
        by auto
      ultimately show ?thesis by (intro exI [of _ c] exI [of _ i]) simp
    qed
  qed simp
  with that show thesis by blast
qed

section \<open>A new bucket\<close>

lemma slots_eval:
  assumes "p \<in> slot_sizes"
  defines "s \<equiv> bitmap_size (align (p + SIZEOF_BUCKET) 0x1000) p"
  shows "\<not> sint s < 1" and "(s + 7) div 8 = bm_bytes p"
  using assms(1) unfolding s_def
  by (auto simp: bm_bytes_def elim!: slot_sizes_cases)
    (simp_all add: bitmap_size_def align_eq SIZEOF_BUCKET_def)

text \<open>The memory \<open>allocate_bucket\<close> leaves, as one sequence of stores.\<close>

lemma allocate_bucket_eq:
  fixes P :: pmm and m :: memory
  assumes p: "p \<in> slot_sizes"
  defines "b \<equiv> P2V (fst (allocate_frame P m))"
  shows "allocate_bucket P p m = (b, memset (b + 20) 0 (bm_bytes p)
    (store32 (b + 16) (bm_bytes p) (store32 (b + 12) (b + 20)
      (store32 b 0 (store32 (b + 4) (align (p + SIZEOF_BUCKET) 0x1000)
        (store32 (b + 8) p (snd (allocate_frame P m))))))))"
proof -
  have pw: "b_power_size (store32 b 0 (store32 (b + 4) v (store32 (b + 8) p m'))) b = p" for v m'
    by (simp add: b_power_size_def load_store32_other)
  show ?thesis
    using slots_eval [OF p]
    by (simp add: allocate_bucket_def split_beta Let_def b_def [symmetric] pw store_bitmap_def
        Bitmap_new_def SIZEOF_BUCKET_def)
qed

lemma header_store_in_page:
  assumes "page_aligned b" "page_of x \<noteq> b" "unat k + 4 \<le> 4096"
  shows "store32 (b + k) v m x = m x"
proof (rule store32_other, rule ccontr)
  assume "\<not> 4 \<le> x - (b + k)"
  define d where "d = x - (b + k)"
  have "unat d < 4" using \<open>\<not> 4 \<le> x - (b + k)\<close> by (simp add: d_def word_le_nat_alt)
  moreover have xb: "x - b = k + d" by (simp add: d_def)
  ultimately have "x - b < 4096"
    using assms(3) unfolding xb by (simp add: word_less_nat_alt) (subst unat_add_lem [THEN iffD1]; simp)
  with assms(1,2) show False by (simp add: in_page_iff [symmetric] in_block_def)
qed

lemma allocate_bucket_effect:
  assumes p: "p \<in> slot_sizes" and ab: "allocate_bucket P p m = (b, m')"
  shows "b = P2V (fst (allocate_frame P m))" and "bucket_ok m' b" and "b_power_size m' b = p"
    and "\<not> get_bit (b_bitmap m' b) i m'" and "page_of x \<noteq> b \<Longrightarrow> m' x = snd (allocate_frame P m) x"
proof -
  let ?m1 = "snd (allocate_frame P m)"
  let ?s = "store32 (b + 16) (bm_bytes p) (store32 (b + 12) (b + 20)
      (store32 b 0 (store32 (b + 4) (align (p + SIZEOF_BUCKET) 0x1000) (store32 (b + 8) p ?m1))))"
  from ab allocate_bucket_eq [OF p, of P m]
  show b: "b = P2V (fst (allocate_frame P m))" by simp
  with ab allocate_bucket_eq [OF p, of P m] have m': "m' = memset (b + 20) 0 (bm_bytes p) ?s" by simp
  have al: "page_aligned b" "P2V b = b" by (simp_all add: b page_aligned_P2V)
  have n: "unat (bm_bytes p) \<le> 32" using meta_size_le [OF p] by (simp add: word_le_nat_alt)
  have head: "agree_header b ?s m'"
    unfolding agree_header_def
  proof (intro allI impI)
    fix k assume "k < SIZEOF_BUCKET"
    then have "\<not> k - 20 < bm_bytes p" using n
      by (simp add: SIZEOF_BUCKET_def word_less_nat_alt unat_sub_if')
    then show "m' (b + k) = ?s (b + k)" by (simp add: m' memset_apply in_block_def)
  qed
  have pw: "b_power_size m' b = p"
    by (simp only: header_fields(2) [OF head]) (simp add: b_power_size_def load_store32_other)
  have bm: "b_bitmap m' b = \<lparr>bm_ptr = b + 20, bm_size = bm_bytes p\<rparr>"
    by (simp only: header_fields(3) [OF head]) (simp add: b_bitmap_def load_store32_other)
  show "b_power_size m' b = p" by (rule pw)
  show "bucket_ok m' b" using al p by (simp add: bucket_ok_def pw bm SIZEOF_BUCKET_def)
  have "m' (b + 20 + j) = 0" if "j < bm_bytes p" for j
    using that by (simp add: m' memset_apply in_block_def)
  then show "\<not> get_bit (b_bitmap m' b) i m'" by (simp add: bm get_bit_iff valid_bit_def)
  show "m' x = ?m1 x" if "page_of x \<noteq> b"
  proof -
    have "\<not> in_block (b + 20) (bm_bytes p) x"
    proof
      assume "in_block (b + 20) (bm_bytes p) x"
      then have "unat (x - (b + 20)) < 32" using n by (simp add: in_block_def word_less_nat_alt)
      moreover have "x - b = 20 + (x - (b + 20))" by simp
      ultimately have "x - b < 4096"
        by (simp only: word_less_nat_alt) (subst unat_add_lem [THEN iffD1]; simp)
      with al that show False by (simp add: in_page_iff [symmetric] in_block_def)
    qed
    moreover have "?s x = ?m1 x"
      using that al header_store_in_page [OF al(1) that, of 0]
      by (simp add: header_store_in_page)
    ultimately show ?thesis by (simp add: m' memset_apply)
  qed
qed

text \<open>The heap writes to its buckets only, those it had and those on frames it took.\<close>

definition heap_grows :: "pmm \<Rightarrow> memory \<Rightarrow> u32 list \<Rightarrow> memory \<Rightarrow> u32 list \<Rightarrow> bool" where
  "heap_grows P m bs m' bs' \<longleftrightarrow> (\<forall>j. frame_used P j m \<longrightarrow> frame_used P j m') \<and>
     (\<forall>x. page_of x \<notin> set bs' \<longrightarrow> bitmap_apart P (page_of x) \<longrightarrow> m' x = m x) \<and>
     (\<forall>c \<in> set bs' - set bs. \<not> owned P m c)"

text \<open>\<open>push_bucket\<close> with a frame at hand: one more bucket, all its slots free.\<close>

lemma push_bucket_effect:
  assumes inv: "heap_inv P h bs" and p: "p \<in> slot_sizes" and nz: "fst (allocate_frame P (hp_mem h)) \<noteq> 0"
  obtains b m' where "push_bucket P (hp_buckets h) p (hp_mem h) = (1, b, m')"
    and "heap_inv P \<lparr>hp_buckets = b, hp_mem = m'\<rparr> (b # bs)" and "b \<notin> set bs"
    and "has_room m' p b" and "bits (b_bitmap m' b) m' = {}" and "live m' (b # bs) = live (hp_mem h) bs"
    and "\<And>c x. c \<in> set bs \<Longrightarrow> page_of x = c \<Longrightarrow> m' x = hp_mem h x"
    and "\<And>j. frame_used P j m' \<Longrightarrow>
      frame_used P j (hp_mem h) \<or> j * FRAME_SIZE = fst (allocate_frame P (hp_mem h))"
    and "heap_grows P (hp_mem h) bs m' (b # bs)"
proof -
  let ?m = "hp_mem h"
  from inv have fa: "fa_inv (P, ?m)" by (simp add: heap_inv_def)
  from fa nz obtain f where f: "allocate_frame P ?m = (f * FRAME_SIZE, snd (set_bit (pmm_bm P) f ?m))"
    "1 \<le> f" "f < pmm_nbFrames P" "\<not> frame_used P f ?m"
    and new: "\<forall>q. owned P ?m q \<longrightarrow> q \<noteq> P2V (f * FRAME_SIZE)"
    by (rule allocated_frame)
  obtain b m1 where ab: "allocate_bucket P p ?m = (b, m1)" by (cases "allocate_bucket P p ?m")
  note eff = allocate_bucket_effect [OF p ab]
  define m' where "m' = store32 b (hp_buckets h) m1"
  have b: "b = P2V (f * FRAME_SIZE)" using eff(1) f by simp
  have al: "page_aligned b" using eff(2) by (simp add: bucket_ok_def)
  have apb: "bitmap_apart P b" using inv f by (auto simp: heap_inv_def free_apart_def b)
  have notin: "b \<notin> set bs" using inv new b by (auto simp: heap_inv_def)
  have out: "m' x = snd (set_bit (pmm_bm P) f ?m) x" if "page_of x \<noteq> b" for x
    using that eff(5) [of x] f header_store_in_page [OF al that, of 0] by (simp add: m'_def)
  have used: "frame_used P j m' \<longleftrightarrow> j = f \<or> frame_used P j ?m" for j
    using frame_used_write_page [OF apb, of m' "snd (set_bit (pmm_bm P) f ?m)"] out fa f
    by (simp add: frame_used_set fa_inv_def)
  have same: "m' x = ?m x" if "c \<in> set bs" "page_of x = c" for c x
  proof -
    have "bitmap_apart P c" "c \<noteq> b" using inv that notin by (auto simp: heap_inv_def)
    then show ?thesis using that out [of x] set_bit_outside [of "pmm_bm P" x f ?m]
      by (auto simp: bitmap_apart_def)
  qed
  have meta: "agree_meta c ?m m'" if "c \<in> set bs" for c
    using inv that same [OF that] by (intro agree_meta_page) (auto simp: heap_inv_def bucket_ok_def)
  have ok: "bucket_ok ?m c" if "c \<in> set bs" for c using inv that by (simp add: heap_inv_def)
  have head: "agree_header c ?m m'" if "c \<in> set bs" for c
    using ok [OF that] meta [OF that] by (rule agree_meta_header)
  have fields: "b_power_size m' b = p" "b_bitmap m' b = b_bitmap m1 b" "b_next m' b = hp_buckets h"
    using eff(3) by (simp_all add: m'_def b_power_size_def b_bitmap_def b_next_def load_store32_other)
  have okb: "bucket_ok m' b" using eff(2,3) by (simp add: bucket_ok_def fields)
  have clear: "\<not> get_bit (b_bitmap m' b) i m'" for i
  proof
    assume get: "get_bit (b_bitmap m' b) i m'"
    then have "valid_bit (b_bitmap m' b) i" by (rule valid_bit_set)
    then have "in_bitmap (b_bitmap m' b) (bm_ptr (b_bitmap m' b) + i div 8)" by (rule valid_bit_in_bitmap)
    from bitmap_in_page(2) [OF okb this]
    have "4 \<le> bm_ptr (b_bitmap m' b) + i div 8 - b"
      unfolding SIZEOF_BUCKET_def by unat_arith
    then have "m' (bm_ptr (b_bitmap m' b) + i div 8) = m1 (bm_ptr (b_bitmap m' b) + i div 8)"
      by (simp add: m'_def store32_other)
    with eff(4) [of i] get show False by (simp add: get_bit_iff fields(2))
  qed
  have room: "has_room m' p b" using clear meta_size_le [OF p]
    by (auto simp: has_room_def fields slot_live_def intro!: exI [of _ 0])
  have bnz: "b \<noteq> 0" by (simp add: b)
  have "chain m' (hp_buckets h) bs = chain ?m (hp_buckets h) bs"
    by (intro chain_cong) (simp add: header_fields(1) [OF head])
  then have ch: "chain m' b (b # bs)" using inv bnz by (simp add: fields heap_inv_def)
  have "owned P m' b" using f used by (auto simp: owned_def b)
  moreover have "owned P m' c" if "owned P ?m c" for c using that by (rule owned_mono) (simp add: used)
  ultimately have "heap_inv P \<lparr>hp_buckets = b, hp_mem = m'\<rparr> (b # bs)"
    using inv ch notin okb apb by (auto simp: heap_inv_def fa_inv_def free_apart_def used bucket_ok_cong [OF head])
  moreover have "live m' (b # bs) = live ?m bs"
    using clear notin by (auto simp: live_def slot_live_cong [OF ok meta]) (auto simp: slot_live_def fields)
  moreover have "push_bucket P (hp_buckets h) p ?m = (1, b, m')"
    using bnz by (simp add: push_bucket_def ab m'_def)
  moreover have "m' x = ?m x" if "page_of x \<noteq> b" "bitmap_apart P (page_of x)" for x
  proof -
    have "\<not> in_bitmap (pmm_bm P) x" using that(2) by (auto simp: bitmap_apart_def)
    then show ?thesis using out [OF that(1)] by (simp add: set_bit_outside)
  qed
  then have "heap_grows P ?m bs m' (b # bs)" using used new b by (auto simp: heap_grows_def)
  moreover have "bits (b_bitmap m' b) m' = {}" using clear by (simp add: bits_def)
  ultimately show thesis using notin room same used f(1) by (intro that [of b m']) auto
qed

section \<open>Blocks\<close>

text \<open>Address \<open>x\<close> lies in slot \<open>i\<close> of bucket \<open>b\<close>: the block a caller may use.\<close>

definition in_slot :: "memory \<Rightarrow> u32 \<Rightarrow> u32 \<Rightarrow> u32 \<Rightarrow> bool" where
  "in_slot m b i x \<longleftrightarrow> in_block (slot_addr b (b_power_size m b) i) (b_power_size m b) x"

lemma in_slot_offset:
  assumes ok: "bucket_ok m b" and i: "i < bm_bytes (b_power_size m b)" and x: "in_slot m b i x"
  defines "p \<equiv> b_power_size m b"
  shows "page_of x = b"
    and "unat (data_offset b p) + unat i * unat p \<le> unat (x - b)"
    and "unat (x - b) < unat (data_offset b p) + (unat i + 1) * unat p"
    and "\<not> x - b < SIZEOF_BUCKET + (bm_bytes p + 7) div 8"
proof -
  have b: "page_aligned b" and p: "p \<in> slot_sizes" using ok by (auto simp: bucket_ok_def p_def)
  define off where "off = unat (data_offset b p) + unat i * unat p"
  define d where "d = x - slot_addr b p i"
  note fit = slot_fits [OF b p i [folded p_def], folded off_def]
  have d: "unat d < unat p" using x by (simp add: in_slot_def in_block_def p_def d_def word_less_nat_alt)
  have "x - b = word_of_nat off + d" using fit(2) by (simp add: d_def)
  moreover have "unat (word_of_nat off :: u32) = off" using fit(1) d by (simp add: unat_of_nat)
  ultimately have xb: "unat (x - b) = off + unat d"
    using fit(1) d by (simp only:) (subst unat_add_lem [THEN iffD1]; simp)
  then show "unat (data_offset b p) + unat i * unat p \<le> unat (x - b)"
    "unat (x - b) < unat (data_offset b p) + (unat i + 1) * unat p"
    using d by (auto simp: off_def algebra_simps)
  have "unat (x - b) < 4096" using xb d fit(1) by simp
  then show "page_of x = b" using b by (simp add: in_page_iff [symmetric] in_block_def word_less_nat_alt)
  show "\<not> x - b < SIZEOF_BUCKET + (bm_bytes p + 7) div 8"
    using data_offset_bounds(1) [OF b p] xb by (simp add: word_less_nat_alt meta_bound [OF p] off_def)
qed

text \<open>Blocks of different slots have no byte in common.\<close>

lemma slots_disjoint:
  assumes "bucket_ok m b" "i < bm_bytes (b_power_size m b)" "bucket_ok m c" "j < bm_bytes (b_power_size m c)"
    and "in_slot m b i x" "in_slot m c j x"
  shows "b = c \<and> i = j"
proof -
  note bi = in_slot_offset [OF assms(1,2,5)] and cj = in_slot_offset [OF assms(3,4,6)]
  have bc: "b = c" using bi(1) cj(1) by simp
  let ?p = "unat (b_power_size m b)"
  have "unat i * ?p < (unat j + 1) * ?p" "unat j * ?p < (unat i + 1) * ?p"
    using bi(2,3) cj(2,3) unfolding bc by linarith+
  then have "unat i < unat j + 1" "unat j < unat i + 1" by (metis mult_less_cancel2)+
  with bc show ?thesis by (simp add: word_unat_eq_iff)
qed

lemma power_local:
  assumes "\<And>x. page_of x \<noteq> b \<Longrightarrow> m' x = m x" and "agree_header b m m'" and ok: "bucket_ok m c"
  shows "b_power_size m' c = b_power_size m c"
proof (cases "c = b")
  case False
  then have "agree_meta c m m'"
    using ok assms(1) by (intro agree_meta_page) (auto simp: bucket_ok_def)
  then show ?thesis using header_fields(2) [OF agree_meta_header [OF ok]] by blast
qed (use assms in \<open>simp add: header_fields(2)\<close>)

text \<open>Writing inside a slot changes no header, no bit in use and no other slot.\<close>

lemma slot_write_meta:
  assumes inv: "heap_inv P h bs" and b: "b \<in> set bs" and i: "i < bm_bytes (b_power_size (hp_mem h) b)"
    and same: "\<And>x. \<not> in_slot (hp_mem h) b i x \<Longrightarrow> m' x = hp_mem h x"
  shows "heap_inv P (h\<lparr>hp_mem := m'\<rparr>) bs" and "live m' bs = live (hp_mem h) bs"
    and "c \<in> set bs \<Longrightarrow> b_power_size m' c = b_power_size (hp_mem h) c"
proof -
  let ?m = "hp_mem h" and ?p = "b_power_size (hp_mem h) b"
  have ok: "bucket_ok ?m b" using inv b by (simp add: heap_inv_def)
  have meta: "agree_meta b ?m m'"
    unfolding agree_meta_def
  proof (intro allI impI)
    fix k assume "k < SIZEOF_BUCKET + (bm_bytes ?p + 7) div 8"
    then show "m' (b + k) = ?m (b + k)"
      using in_slot_offset(4) [OF ok i, of "b + k"] by (intro same) auto
  qed
  have out: "m' x = ?m x" if "page_of x \<noteq> b" for x
    using in_slot_offset(1) [OF ok i, of x] that by (intro same) auto
  note hd = agree_meta_header [OF ok meta]
  show "heap_inv P (h\<lparr>hp_mem := m'\<rparr>) bs" by (rule heap_inv_local(1) [OF inv b out hd])
  show "c \<in> set bs \<Longrightarrow> b_power_size m' c = b_power_size ?m c"
    using inv by (intro power_local [OF out hd]) (auto simp: heap_inv_def)
  from live_local [OF inv b out hd slot_live_cong [OF ok meta]] b
  show "live m' bs = live ?m bs" by (auto simp: live_def)
qed

section \<open>malloc\<close>

text \<open>The bytes of every block in use are as they were.\<close>

definition blocks_kept :: "memory \<Rightarrow> memory \<Rightarrow> (u32 \<times> u32) set \<Rightarrow> bool" where
  "blocks_kept m m' L \<longleftrightarrow> (\<forall>(b, i) \<in> L. \<forall>x. in_slot m b i x \<longrightarrow> m' x = m x)"

lemma bit_byte_not_in_slot:
  assumes ok: "bucket_ok m b" and i: "i < bm_bytes (b_power_size m b)"
    and c: "bucket_ok m c" and j: "j < bm_bytes (b_power_size m c)"
  shows "\<not> in_slot m c j (bm_ptr (b_bitmap m b) + i div 8)"
proof
  let ?x = "bm_ptr (b_bitmap m b) + i div 8"
  assume x: "in_slot m c j ?x"
  have p: "b_power_size m b \<in> slot_sizes" and bm: "bm_ptr (b_bitmap m b) = b + SIZEOF_BUCKET"
    and al: "page_aligned b" using ok by (auto simp: bucket_ok_def)
  have "page_of ?x = b"
    using al slot_bit_offset(2) [OF p i] by (simp add: bm page_of_offset add.assoc)
  with in_slot_offset(1) [OF c j x] have bc: "c = b" by simp
  have "?x - b = SIZEOF_BUCKET + i div 8" by (simp add: bm)
  with in_slot_offset(4) [OF c j x] slot_bit_offset(1) [OF p i] show False
    unfolding bc by simp
qed

lemma live_slot: "heap_inv P h bs \<Longrightarrow> (b, i) \<in> live (hp_mem h) bs \<Longrightarrow>
    b \<in> set bs \<and> bucket_ok (hp_mem h) b \<and> i < bm_bytes (b_power_size (hp_mem h) b)"
  by (auto simp: live_def slot_live_def heap_inv_def)

lemma set_slot_blocks:
  assumes inv: "heap_inv P h bs" and b: "b \<in> set bs" and i: "i < bm_bytes (b_power_size (hp_mem h) b)"
  shows "blocks_kept (hp_mem h) (snd (set_bit (b_bitmap (hp_mem h) b) i (hp_mem h))) (live (hp_mem h) bs)"
    and "blocks_kept (hp_mem h) (snd (clear_bit (b_bitmap (hp_mem h) b) i (hp_mem h))) (live (hp_mem h) bs)"
proof -
  have ok: "bucket_ok (hp_mem h) b" using inv b by (simp add: heap_inv_def)
  have "x \<noteq> bm_ptr (b_bitmap (hp_mem h) b) + i div 8"
    if "(c, j) \<in> live (hp_mem h) bs" "in_slot (hp_mem h) c j x" for c j x
    using live_slot [OF inv that(1)] bit_byte_not_in_slot [OF ok i, of c j] that(2) by auto
  then show "blocks_kept (hp_mem h) (snd (set_bit (b_bitmap (hp_mem h) b) i (hp_mem h))) (live (hp_mem h) bs)"
    "blocks_kept (hp_mem h) (snd (clear_bit (b_bitmap (hp_mem h) b) i (hp_mem h))) (live (hp_mem h) bs)"
    by (auto simp: blocks_kept_def intro!: set_bit_other_byte clear_bit_other_byte)
qed

text \<open>What a call of \<open>malloc\<close> that returns a block has done.\<close>

definition malloc_post ::
  "pmm \<Rightarrow> u32 \<Rightarrow> heap \<Rightarrow> u32 list \<Rightarrow> u32 \<Rightarrow> heap \<Rightarrow> u32 list \<Rightarrow> u32 \<Rightarrow> u32 \<Rightarrow> bool" where
  "malloc_post P sz h bs ptr h' bs' b i \<longleftrightarrow>
     heap_inv P h' bs' \<and> set bs \<subseteq> set bs' \<and> b \<in> set bs' \<and> i < bm_bytes (b_power_size (hp_mem h') b) \<and>
     ptr = slot_addr b (b_power_size (hp_mem h') b) i \<and> sz \<le> b_power_size (hp_mem h') b \<and>
     compute_power sz = Some (b_power_size (hp_mem h') b) \<and>
     (\<forall>c \<in> set bs. b_power_size (hp_mem h') c = b_power_size (hp_mem h) c) \<and>
     (b \<notin> set bs \<longrightarrow> bits (b_bitmap (hp_mem h') b) (hp_mem h') = {i}) \<and>
     (b, i) \<notin> live (hp_mem h) bs \<and> live (hp_mem h') bs' = insert (b, i) (live (hp_mem h) bs) \<and>
     blocks_kept (hp_mem h) (hp_mem h') (live (hp_mem h) bs) \<and>
     heap_grows P (hp_mem h) bs (hp_mem h') bs' \<and>
     (\<forall>j. frame_used P j (hp_mem h') \<longrightarrow>
        frame_used P j (hp_mem h) \<or> j * FRAME_SIZE = fst (allocate_frame P (hp_mem h)))"

lemma small_power:
  assumes "sz \<le> 2048"
  obtains p where "compute_power sz = Some p" "p \<in> slot_sizes" "sz \<le> p"
proof -
  have "sz \<le> 2 ^ 31" using assms by (rule order_trans) simp
  then obtain k where k: "4 \<le> k" "k \<le> 31" "sz \<le> 2 ^ k" "k = 4 \<or> 2 ^ (k - 1) < sz"
    "compute_power sz = Some (2 ^ k)" by (rule compute_power_total)
  have "k \<le> 11"
  proof (rule ccontr)
    assume "\<not> k \<le> 11"
    then have "11 \<le> k - 1" "k - 1 < 32" "k \<noteq> 4" using k by auto
    then have "(2 :: nat) ^ 11 \<le> 2 ^ (k - 1)" by (intro power_increasing) auto
    also have "\<dots> = unat (2 ^ (k - 1) :: u32)" using \<open>k - 1 < 32\<close> by (simp add: unat_exp)
    also have "\<dots> < unat sz" using k \<open>k \<noteq> 4\<close> by (simp add: word_less_nat_alt)
    finally show False using assms by (simp add: word_le_nat_alt)
  qed
  with k(1) have "k \<in> {4, 5, 6, 7, 8, 9, 10, 11}" by auto
  then have "(2 :: u32) ^ k \<in> slot_sizes" by (auto simp: slot_sizes_def)
  with k that show thesis by blast
qed

lemma kmalloc_existing:
  assumes inv: "heap_inv P h bs" and p: "compute_power sz = Some p" "sz \<le> p"
    and room: "\<exists>b \<in> set bs. has_room (hp_mem h) p b"
  shows "\<exists>ptr h' b i. kmalloc P sz h = Some (ptr, h') \<and> malloc_post P sz h bs ptr h' bs b i"
proof -
  let ?m = "hp_mem h"
  have ok: "\<And>b. b \<in> set bs \<Longrightarrow> bucket_ok ?m b" and ch: "chain ?m (hp_buckets h) bs"
    using inv by (auto simp: heap_inv_def)
  from malloc_scan_some [OF ch ok room] obtain b i where
    b: "b \<in> set bs" "b_power_size ?m b = p" "i < bm_bytes p" "\<not> slot_live ?m b i"
    and scan: "malloc_scan p (hp_buckets h) ?m = Some (Some (bitmap_offset (snd (set_bit (b_bitmap ?m b) i ?m)) b i),
      snd (set_bit (b_bitmap ?m b) i ?m))" by blast
  define m' where "m' = snd (set_bit (b_bitmap ?m b) i ?m)"
  have i: "i < bm_bytes (b_power_size ?m b)" using b by simp
  note eff = set_slot [OF inv b(1) i, folded m'_def]
  have ok': "bucket_ok m' b" using ok [OF b(1)] by (simp add: bucket_ok_cong [OF eff(3)])
  have pw: "b_power_size m' b = p" using b by (simp add: header_fields [OF eff(3)])
  have grows: "heap_grows P ?m bs m' bs"
  proof -
    have "m' x = ?m x" if "page_of x \<notin> set bs" for x using eff(4) [of x] b(1) that by auto
    then show ?thesis using heap_inv_local(3) [OF inv b(1) eff(4,3)] by (simp add: heap_grows_def)
  qed
  have "kmalloc P sz h = Some (slot_addr b p i, h\<lparr>hp_mem := m'\<rparr>)"
    using p scan ok' pw by (simp add: kmalloc_def m'_def bitmap_offset_slot)
  moreover have "malloc_post P sz h bs (slot_addr b p i) (h\<lparr>hp_mem := m'\<rparr>) bs b i"
    using eff(1,2) b p pw set_slot_blocks(1) [OF inv b(1) i] power_local [OF eff(4,3)] ok
      heap_inv_local(3) [OF inv b(1) eff(4,3)] grows
    by (auto simp: malloc_post_def m'_def live_def)
  ultimately show ?thesis by blast
qed

lemma blocks_kept_trans:
  assumes "blocks_kept m m1 L" "blocks_kept m1 m2 L" "\<And>b. b \<in> fst ` L \<Longrightarrow> b_power_size m1 b = b_power_size m b"
  shows "blocks_kept m m2 L"
  using assms by (force simp: blocks_kept_def in_slot_def)

lemma kmalloc_new:
  assumes inv: "heap_inv P h bs" and p: "compute_power sz = Some p" "sz \<le> p" "p \<in> slot_sizes"
    and full: "\<not> (\<exists>b \<in> set bs. has_room (hp_mem h) p b)"
    and nz: "fst (allocate_frame P (hp_mem h)) \<noteq> 0"
  shows "\<exists>ptr h' b i. kmalloc P sz h = Some (ptr, h') \<and> malloc_post P sz h bs ptr h' (b # bs) b i"
proof -
  let ?m = "hp_mem h"
  have ok: "\<And>b. b \<in> set bs \<Longrightarrow> bucket_ok ?m b" and ch: "chain ?m (hp_buckets h) bs"
    using inv by (auto simp: heap_inv_def)
  have scan: "malloc_scan p (hp_buckets h) ?m = Some (None, ?m)"
    using full by (intro malloc_scan_none [OF ch ok]) auto
  from push_bucket_effect [OF inv p(3) nz] obtain b m1 where
    push: "push_bucket P (hp_buckets h) p ?m = (1, b, m1)"
    and inv1: "heap_inv P \<lparr>hp_buckets = b, hp_mem = m1\<rparr> (b # bs)" and nb: "b \<notin> set bs"
    and room: "has_room m1 p b" and none: "bits (b_bitmap m1 b) m1 = {}" and live1: "live m1 (b # bs) = live ?m bs"
    and same: "\<And>c x. c \<in> set bs \<Longrightarrow> page_of x = c \<Longrightarrow> m1 x = ?m x"
    and used1: "\<And>j. frame_used P j m1 \<Longrightarrow> frame_used P j ?m \<or> j * FRAME_SIZE = fst (allocate_frame P ?m)"
    and grows1: "heap_grows P ?m bs m1 (b # bs)" by blast
  let ?h1 = "\<lparr>hp_buckets = b, hp_mem = m1\<rparr>"
  have ok1: "bucket_ok m1 b" using inv1 by (simp add: heap_inv_def)
  obtain i where ff: "set_first_free (b_bitmap m1 b) m1 = (i, snd (set_bit (b_bitmap m1 b) i m1))"
    and i: "i < bm_bytes p" "\<not> slot_live m1 b i" "i \<noteq> - 1" using ok1 room by (rule set_first_free_slot)
  have pw1: "b_power_size m1 b = p" using room by (simp add: has_room_def)
  define m' where "m' = snd (set_bit (b_bitmap m1 b) i m1)"
  have ib: "i < bm_bytes (b_power_size (hp_mem ?h1) b)" using i pw1 by simp
  have bb: "b \<in> set (b # bs)" by simp
  note eff = set_slot [OF inv1 bb ib, unfolded heap.simps, folded m'_def]
  have ok': "bucket_ok m' b" using ok1 by (simp add: bucket_ok_cong [OF eff(3)])
  have pw: "b_power_size m' b = p" using pw1 by (simp add: header_fields [OF eff(3)])
  have res: "kmalloc P sz h = Some (slot_addr b p i, \<lparr>hp_buckets = b, hp_mem = m'\<rparr>)"
    using p scan push ff i ok' pw by (simp add: kmalloc_def m'_def bitmap_offset_slot)
  have "agree_header c ?m m1" if "c \<in> set bs" for c
    using ok [OF that] same [OF that]
    by (intro agree_meta_header agree_meta_page) (auto simp: bucket_ok_def)
  then have pws: "b_power_size m1 c = b_power_size ?m c" if "c \<in> set bs" for c
    using that by (intro header_fields(2)) auto
  have "blocks_kept ?m m1 (live ?m bs)"
    using live_slot [OF inv] in_slot_offset(1) same by (fastforce simp: blocks_kept_def)
  moreover have "blocks_kept m1 m' (live ?m bs)"
    using set_slot_blocks(1) [OF inv1 bb ib] live1 by (simp add: m'_def)
  ultimately have "blocks_kept ?m m' (live ?m bs)"
    by (rule blocks_kept_trans) (auto simp: pws dest: live_slot [OF inv])
  moreover have "(b, i) \<notin> live ?m bs" using nb by (auto simp: live_def)
  moreover have "b_power_size m' c = b_power_size ?m c" if "c \<in> set bs" for c
    using power_local [OF eff(4,3), of c] pws [OF that] inv1 that by (auto simp: heap_inv_def)
  moreover have "heap_grows P ?m bs m' (b # bs)"
    using grows1 eff(4) heap_inv_local(3) [OF inv1 bb, unfolded heap.simps, OF eff(4,3)]
    by (auto simp: heap_grows_def)
  moreover have "bits (b_bitmap m' b) m' = {i}"
    using none less_bm_bytes_valid [OF ok1 ib [unfolded heap.simps]]
    by (simp add: header_fields(3) [OF eff(3)]) (simp add: m'_def bits_set_bit)
  ultimately have "malloc_post P sz h bs (slot_addr b p i) \<lparr>hp_buckets = b, hp_mem = m'\<rparr> (b # bs) b i"
    using eff(1,2) live1 i p pw used1 heap_inv_local(3) [OF inv1 bb, unfolded heap.simps, OF eff(4,3)]
    by (auto simp: malloc_post_def)
  with res show ?thesis by blast
qed

lemma kmalloc_correct:
  assumes inv: "heap_inv P h bs" and sz: "sz \<le> 2048" and nz: "fst (allocate_frame P (hp_mem h)) \<noteq> 0"
  shows "\<exists>ptr h' bs' b i. kmalloc P sz h = Some (ptr, h') \<and> malloc_post P sz h bs ptr h' bs' b i"
proof -
  obtain p where p: "compute_power sz = Some p" "p \<in> slot_sizes" "sz \<le> p"
    using sz by (rule small_power)
  show ?thesis
    using kmalloc_existing [OF inv p(1,3)] kmalloc_new [OF inv p(1,3,2) _ nz] by blast
qed

end
