(* ===== verification/Kfree.thy ===== *)
theory Kfree
  imports Kmalloc
begin

text \<open>
  \<open>free\<close>, \<open>realloc\<close> and \<open>calloc\<close> of the kernel heap on a heap that satisfies \<open>heap_inv\<close>: which bit
  \<open>free\<close> clears, what unlinking a bucket does to the list, and the effect of the three calls on the
  set of blocks in use. The definitions are in the theory Kmalloc.
\<close>

section \<open>The bit that free clears\<close>

definition free_index :: "memory \<Rightarrow> u32 \<Rightarrow> u32 \<Rightarrow> u32" where
  "free_index m b ptr =
     (ptr - bm_ptr (b_bitmap m b) + bm_size (b_bitmap m b)) div b_power_size m b"

lemma free_index_slot:
  assumes ok: "bucket_ok m b" and i: "i < bm_bytes (b_power_size m b)"
  shows "free_index m b (slot_addr b (b_power_size m b) i) =
    (if b_power_size m b = 16 then i + 2 else i)"
proof -
  let ?p = "b_power_size m b" and ?D = "unat (data_offset b (b_power_size m b))"
  have b: "page_aligned b" and p: "?p \<in> slot_sizes"
    and bm: "b_bitmap m b = \<lparr>bm_ptr = b + SIZEOF_BUCKET, bm_size = bm_bytes ?p\<rparr>"
    using ok by (auto simp: bucket_ok_def)
  note D = data_offset_bounds [OF b p] and fit = slot_fits [OF b p i]
  define N where "N = ?D - 20 + unat (bm_bytes ?p) + unat i * unat ?p"
  have "slot_addr b ?p i - (b + SIZEOF_BUCKET) + bm_bytes ?p = word_of_nat N"
    unfolding fit(2) N_def using D by (simp add: SIZEOF_BUCKET_def of_nat_diff)
  moreover have "N < 4294967296"
  proof -
    have "?D + unat i * unat ?p + unat ?p \<le> 4096" "unat (bm_bytes ?p) \<le> 32"
      using fit(1) meta_size_le [OF p] by (simp_all add: word_le_nat_alt)
    then show ?thesis unfolding N_def by linarith
  qed
  ultimately have "unat (free_index m b (slot_addr b ?p i)) = N div unat ?p"
    by (simp add: free_index_def bm unat_div_distrib unat_of_nat)
  moreover have "N div unat ?p = (if ?p = 16 then unat i + 2 else unat i)"
    using p D by (cases ?p rule: slot_sizes_cases) (auto simp: bm_bytes_eval N_def)
  moreover have "unat (i + 2) = unat i + 2"
    using i meta_size_le [OF p] by (subst unat_add_lem [THEN iffD1]) (auto simp: word_less_nat_alt word_le_nat_alt)
  ultimately show ?thesis by (auto simp: word_unat_eq_iff)
qed

section \<open>Unlinking\<close>

lemma remove_scan_chain:
  "chain m a (pre @ b # post) \<Longrightarrow> b \<notin> set pre \<Longrightarrow> remove_scan b a prev m = Some (b, last (prev # pre))"
proof (induction pre arbitrary: a prev)
  case Nil
  then show ?case by (subst remove_scan.simps) simp
next
  case (Cons c pre)
  then have "remove_scan b a prev m = remove_scan b (b_next m c) c m"
    by (subst remove_scan.simps) auto
  with Cons show ?case by simp
qed

lemma chain_tail: "chain m a (pre @ b # post) \<Longrightarrow> chain m (b_next m b) post"
  by (induction pre arbitrary: a) auto

lemma chain_unlink:
  assumes "chain m a (pre @ q # b # post)" and "b_next m' q = b_next m b"
    and "\<And>c. c \<in> set pre \<union> set post \<Longrightarrow> b_next m' c = b_next m c"
  shows "chain m' a (pre @ q # post)"
  using assms
proof (induction pre arbitrary: a)
  case Nil
  then have "chain m' (b_next m b) post = chain m (b_next m b) post"
    by (intro chain_cong) simp
  with Nil show ?case by simp
qed simp

text \<open>Writing the \<open>next\<close> field of a bucket.\<close>

lemma store_next:
  assumes ok: "bucket_ok m b"
  shows "b_next (store32 b v m) b = v" and "bucket_ok (store32 b v m) b"
    and "b_power_size (store32 b v m) b = b_power_size m b"
    and "slot_live (store32 b v m) b i = slot_live m b i"
    and "page_of x \<noteq> b \<Longrightarrow> store32 b v m x = m x"
    and "4 \<le> x - b \<Longrightarrow> store32 b v m x = m x"
proof -
  have al: "page_aligned b" using ok by (simp add: bucket_ok_def)
  have fields: "b_power_size (store32 b v m) b = b_power_size m b"
    "b_bitmap (store32 b v m) b = b_bitmap m b"
    by (simp_all add: b_power_size_def b_bitmap_def load_store32_other)
  then show "bucket_ok (store32 b v m) b" "b_power_size (store32 b v m) b = b_power_size m b"
    using ok by (simp_all add: bucket_ok_def)
  show "b_next (store32 b v m) b = v" by (simp add: b_next_def)
  show far: "4 \<le> x - b \<Longrightarrow> store32 b v m x = m x" for x by (rule store32_other)
  show "page_of x \<noteq> b \<Longrightarrow> store32 b v m x = m x"
    using store32_entry_outside [of b 0 x v m] al by (simp add: entry_def)
  have "store32 b v m (b + SIZEOF_BUCKET + i div 8) = m (b + SIZEOF_BUCKET + i div 8)"
    if "i < bm_bytes (b_power_size m b)"
  proof (rule far)
    have "b_power_size m b \<in> slot_sizes" using ok by (simp add: bucket_ok_def)
    from slot_bit_offset(3) [OF this that] show "4 \<le> b + SIZEOF_BUCKET + i div 8 - b"
      unfolding SIZEOF_BUCKET_def by (simp add: add.assoc) unat_arith
  qed
  then show "slot_live (store32 b v m) b i = slot_live m b i"
    using ok by (auto simp: slot_live_def fields get_bit_iff bucket_ok_def valid_bit_def)
qed

text \<open>Buckets whose pages a change leaves alone, up to the list links.\<close>

lemma slot_in_page_kept:
  assumes "bucket_ok m c" "j < bm_bytes (b_power_size m c)" "in_slot m c j x"
    and "\<And>x. page_of x = c \<Longrightarrow> \<not> x - c < 4 \<Longrightarrow> m' x = m x"
  shows "m' x = m x"
proof -
  note off = in_slot_offset [OF assms(1-3)]
  have "b_power_size m c \<in> slot_sizes" using assms(1) by (simp add: bucket_ok_def)
  from off(4) meta_bound [OF this] have "\<not> x - c < 4" by (simp add: word_less_nat_alt)
  with off(1) show ?thesis by (intro assms(4))
qed

lemma empty_bucket_live:
  "bucket_ok m b \<Longrightarrow> is_empty (b_bitmap m b) m \<Longrightarrow> \<not> slot_live m b i"
  by (auto simp: slot_live_def is_empty_def find_from_None_iff get_bit_iff valid_bit_def)

section \<open>Releasing a bucket\<close>

lemma free_frame_owned:
  assumes inv: "fa_inv (P, m)" and b: "owned P m b"
  obtains f where "b = P2V (f * FRAME_SIZE)" "1 \<le> f" "f < pmm_nbFrames P" "frame_used P f m"
    and "\<And>j m1. frame_used P j (free_frame P b m1) \<longleftrightarrow> frame_used P j m1 \<and> j \<noteq> f"
    and "\<And>q. owned P m q \<Longrightarrow> q \<noteq> b \<Longrightarrow> owned P (free_frame P b m) q"
proof -
  from b obtain f where f: "b = P2V (f * FRAME_SIZE)" "1 \<le> f" "f < pmm_nbFrames P" "frame_used P f m"
    by (auto simp: owned_def)
  from inv f have small: "f < 0x40000" by (auto simp: fa_inv_def intro: less_le_trans)
  have free: "frame_used P j (free_frame P b m1) \<longleftrightarrow> frame_used P j m1 \<and> j \<noteq> f" for j m1
    using f small by (auto simp: frame_used_free V2P_P2V frame_of_addr)
  moreover have "owned P (free_frame P b m) q" if q: "owned P m q" "q \<noteq> b" for q
  proof -
    from q(1) obtain i where i: "1 \<le> i" "i < pmm_nbFrames P" "q = P2V (i * FRAME_SIZE)" "frame_used P i m"
      by (auto simp: owned_def)
    with q(2) f have "i \<noteq> f" by auto
    with i show ?thesis by (auto simp: owned_def free)
  qed
  ultimately show thesis using f by (intro that [of f])
qed

lemma remove_bucket_memory:
  assumes ch: "chain m a bs" and d: "distinct bs" and b: "b \<in> set bs" and ok: "\<And>c. c \<in> set bs \<Longrightarrow> bucket_ok m c"
  obtains a' m1 where "remove_bucket P a b m = Some (a', free_frame P b m1)"
    and "chain m1 a' (remove1 b bs)"
    and "\<And>c. c \<in> set (remove1 b bs) \<Longrightarrow> bucket_ok m1 c \<and> b_power_size m1 c = b_power_size m c"
    and "\<And>c i. c \<in> set (remove1 b bs) \<Longrightarrow> slot_live m1 c i = slot_live m c i"
    and "\<And>x. (\<And>c. c \<in> set (remove1 b bs) \<Longrightarrow> page_of x \<noteq> c) \<Longrightarrow> m1 x = m x"
    and "\<And>c x. c \<in> set (remove1 b bs) \<Longrightarrow> page_of x = c \<Longrightarrow> \<not> x - c < 4 \<Longrightarrow> m1 x = m x"
proof -
  obtain pre post where bs: "bs = pre @ b # post" using b by (auto dest: split_list)
  then have nb: "b \<notin> set pre" "b \<notin> set post" using d by auto
  have rem: "remove1 b bs = pre @ post" using nb by (simp add: bs remove1_append)
  have scan: "remove_scan b a 0 m = Some (b, last (0 # pre))"
    using ch nb by (intro remove_scan_chain) (simp_all add: bs)
  have bz: "b \<noteq> 0" using ok [OF b] P2V_nonzero [of b] by (auto simp: bucket_ok_def)
  show thesis
  proof (cases pre rule: rev_cases)
    case Nil
    then have "remove_bucket P a b m = Some (b_next m b, free_frame P b m)"
      using ch scan by (simp add: remove_bucket_def free_bucket_def bs)
    moreover have "chain m (b_next m b) (remove1 b bs)" using ch by (simp add: rem Nil bs)
    ultimately show thesis using ok b by (intro that [of "b_next m b" m]) (auto simp: rem Nil bs)
  next
    case (snoc ys q)
    have q: "q \<in> set bs" "q \<noteq> b" and qz: "q \<noteq> 0"
      using nb ok [of q] P2V_nonzero [of q] by (auto simp: bs snoc bucket_ok_def)
    have ab: "a \<noteq> b" using ch nb by (cases ys) (auto simp: bs snoc)
    define m1 where "m1 = store32 q (b_next m b) m"
    note st = store_next [OF ok [OF q(1)], where v = "b_next m b", folded m1_def]
    have other: "agree_meta c m m1" if "c \<in> set bs" "c \<noteq> q" for c
      using ok [OF that(1)] that by (intro agree_meta_page) (auto simp: bucket_ok_def intro: st(5))
    have hd: "agree_header c m m1" if "c \<in> set bs" "c \<noteq> q" for c
      using ok [OF that(1)] other [OF that] by (rule agree_meta_header)
    have "b_next m1 c = b_next m c" if c: "c \<in> set ys \<union> set post" for c
    proof -
      have "c \<in> set bs" "c \<noteq> q" using c d by (auto simp: bs snoc)
      then have "agree_header c m m1" by (rule hd)
      then show ?thesis by (rule header_fields(1))
    qed
    with ch st(1) have "chain m1 a (ys @ q # post)"
      by - (rule chain_unlink [where b = b and m = m], simp_all add: bs snoc)
    then have "chain m1 a (remove1 b bs)" by (simp add: rem snoc)
    moreover have "remove_bucket P a b m = Some (a, free_frame P b m1)"
      using scan ab bz qz by (simp add: remove_bucket_def free_bucket_def snoc m1_def)
    moreover have "bucket_ok m1 c \<and> b_power_size m1 c = b_power_size m c" if "c \<in> set bs" for c
      using ok [OF that] st(2,3) bucket_ok_cong [OF hd [OF that]] header_fields(2) [OF hd [OF that]]
      by (cases "c = q") simp_all
    moreover have "slot_live m1 c i = slot_live m c i" if "c \<in> set bs" for c i
      using slot_live_cong [OF ok [OF that] other [OF that]] st(4) by (cases "c = q") simp_all
    moreover have "m1 x = m x" if "\<And>c. c \<in> set (remove1 b bs) \<Longrightarrow> page_of x \<noteq> c" for x
      using that by (intro st(5)) (auto simp: rem snoc)
    moreover have "m1 x = m x" if "page_of x = c" "\<not> x - c < 4" for c x
      using that st(5,6) [of x] by (cases "c = q") (auto simp: linorder_not_less)
    moreover have "set (remove1 b bs) \<subseteq> set bs" by (rule set_remove1_subset)
    ultimately show thesis by (intro that [of a m1]) auto
  qed
qed

lemma remove_bucket_effect:
  assumes inv: "heap_inv P h bs" and b: "b \<in> set bs" and empty: "\<And>i. \<not> slot_live (hp_mem h) b i"
  obtains a' m' where "remove_bucket P (hp_buckets h) b (hp_mem h) = Some (a', m')"
    and "heap_inv P \<lparr>hp_buckets = a', hp_mem = m'\<rparr> (remove1 b bs)"
    and "live m' (remove1 b bs) = live (hp_mem h) bs"
    and "\<And>c. c \<in> set (remove1 b bs) \<Longrightarrow> b_power_size m' c = b_power_size (hp_mem h) c"
    and "blocks_kept (hp_mem h) m' (live (hp_mem h) bs)" and "\<not> owned P m' b"
proof -
  let ?m = "hp_mem h" and ?bs = "remove1 b bs"
  have ch: "chain ?m (hp_buckets h) bs" and d: "distinct bs" and fa: "fa_inv (P, ?m)"
    and fr: "free_apart P ?m"
    and ok: "\<And>c. c \<in> set bs \<Longrightarrow> bucket_ok ?m c" and own: "\<And>c. c \<in> set bs \<Longrightarrow> owned P ?m c"
    and ap: "\<And>c. c \<in> set bs \<Longrightarrow> bitmap_apart P c" using inv by (auto simp: heap_inv_def)
  have set: "set ?bs = set bs - {b}" using d by simp
  obtain a' m1 where
    res: "remove_bucket P (hp_buckets h) b ?m = Some (a', free_frame P b m1)"
    and ch1: "chain m1 a' ?bs"
    and ok1: "\<And>c. c \<in> set ?bs \<Longrightarrow> bucket_ok m1 c \<and> b_power_size m1 c = b_power_size ?m c"
    and live1: "\<And>c i. c \<in> set ?bs \<Longrightarrow> slot_live m1 c i = slot_live ?m c i"
    and out1: "\<And>x. (\<And>c. c \<in> set ?bs \<Longrightarrow> page_of x \<noteq> c) \<Longrightarrow> m1 x = ?m x"
    and in1: "\<And>c x. c \<in> set ?bs \<Longrightarrow> page_of x = c \<Longrightarrow> \<not> x - c < 4 \<Longrightarrow> m1 x = ?m x"
    by (rule remove_bucket_memory [where P = P, OF ch d b ok]) (assumption | blast)+
  from fa own [OF b] obtain f where f: "b = P2V (f * FRAME_SIZE)" "1 \<le> f" "f < pmm_nbFrames P"
    and free: "\<And>j m1. frame_used P j (free_frame P b m1) \<longleftrightarrow> frame_used P j m1 \<and> j \<noteq> f"
    and own2: "\<And>q. owned P ?m q \<Longrightarrow> q \<noteq> b \<Longrightarrow> owned P (free_frame P b ?m) q"
    by (rule free_frame_owned) blast
  define m2 where "m2 = free_frame P b m1"
  have "frame_used P j m1 = frame_used P j ?m" for j
    using ap set by (intro frame_used_cong out1) (auto simp: bitmap_apart_def)
  then have used: "frame_used P j m2 \<longleftrightarrow> frame_used P j ?m \<and> j \<noteq> f" for j by (simp add: m2_def free)
  have same: "m2 x = m1 x" if "c \<in> set ?bs" "page_of x = c" for c x
    using that ap [of c] set unfolding m2_def bitmap_apart_def by (intro free_frame_outside) auto
  have meta: "agree_meta c m1 m2" if "c \<in> set ?bs" for c
    using ok1 [OF that] same [OF that] by (intro agree_meta_page) (auto simp: bucket_ok_def)
  have hd: "agree_header c m1 m2" if "c \<in> set ?bs" for c
    using ok1 [OF that] meta [OF that] by (blast intro: agree_meta_header)
  have live2: "slot_live m2 c i = slot_live ?m c i" if "c \<in> set ?bs" for c i
    using slot_live_cong [OF _ meta [OF that]] ok1 [OF that] live1 [OF that] by simp
  have pw: "b_power_size m2 c = b_power_size ?m c" if "c \<in> set ?bs" for c
    using header_fields(2) [OF hd [OF that]] ok1 [OF that] by simp
  have "chain m2 a' ?bs = chain m1 a' ?bs" by (intro chain_cong header_fields(1) hd)
  moreover have "bucket_ok m2 c" if "c \<in> set ?bs" for c
    using bucket_ok_cong [OF hd [OF that]] ok1 [OF that] by simp
  moreover have "owned P m2 c" if "c \<in> set ?bs" for c
  proof (rule owned_mono [OF own2])
    show "owned P ?m c" "c \<noteq> b" using that set own by auto
  qed (simp add: used free)
  moreover have "free_apart P m2" using fr ap [OF b] f by (auto simp: free_apart_def used)
  ultimately have "heap_inv P \<lparr>hp_buckets = a', hp_mem = m2\<rparr> ?bs"
    using ch1 fa d ap set by (auto simp: heap_inv_def fa_inv_def)
  moreover have "live m2 ?bs = live ?m bs" using live2 set b empty by (auto simp: live_def)
  moreover have "blocks_kept ?m m2 (live ?m bs)"
  proof -
    have "m2 x = ?m x" if l: "(c, i) \<in> live ?m bs" "in_slot ?m c i x" for c i x
    proof -
      note s = live_slot [OF inv l(1)]
      have c: "c \<in> set ?bs" using l(1) set empty by (auto simp: live_def)
      show ?thesis
      proof (rule slot_in_page_kept [of ?m c i])
        show "m2 y = ?m y" if "page_of y = c" "\<not> y - c < 4" for y
          using same [OF c that(1)] in1 [OF c that] by simp
      qed (use s l in auto)
    qed
    then show ?thesis by (auto simp: blocks_kept_def)
  qed
  moreover have "\<not> owned P m2 b"
  proof
    assume "owned P m2 b"
    then obtain i where "i < pmm_nbFrames P" "P2V (i * FRAME_SIZE) = b" "frame_used P i m2"
      by (auto simp: owned_def)
    moreover have "i < 0x40000" "f < 0x40000" using fa f \<open>i < pmm_nbFrames P\<close>
      by (auto simp: fa_inv_def intro: less_le_trans)
    ultimately show False using f used by (simp add: window_frame_inj)
  qed
  ultimately show thesis using res pw by (intro that [of a' m2]) (auto simp: m2_def)
qed

section \<open>free\<close>

text \<open>
  What a call of \<open>free\<close> on slot \<open>i\<close> of bucket \<open>b\<close> has done. When the bit of the slot was the only one
  set in the bitmap of the bucket, the bucket leaves the list and its frame is free again; otherwise
  the list is the same. (The bitmap is \<open>bm_bytes\<close> bytes long, eight times the bits handed out, and
  its end lies in the first slots: what a caller stored there counts as bits too.)
\<close>

definition free_post :: "pmm \<Rightarrow> heap \<Rightarrow> u32 list \<Rightarrow> heap \<Rightarrow> u32 list \<Rightarrow> u32 \<Rightarrow> u32 \<Rightarrow> bool" where
  "free_post P h bs h' bs' b i \<longleftrightarrow>
     heap_inv P h' bs' \<and> live (hp_mem h') bs' = live (hp_mem h) bs - {(b, i)} \<and>
     blocks_kept (hp_mem h) (hp_mem h') (live (hp_mem h) bs - {(b, i)}) \<and>
     (\<forall>c \<in> set bs'. b_power_size (hp_mem h') c = b_power_size (hp_mem h) c) \<and>
     (if bits (b_bitmap (hp_mem h) b) (hp_mem h) = {i}
      then bs' = remove1 b bs \<and> \<not> owned P (hp_mem h') b else bs' = bs)"

text \<open>The test of \<open>free\<close> for an emptied bucket, after the bit of slot \<open>i\<close> has been cleared.\<close>

lemma emptied_iff:
  assumes ok: "bucket_ok m b" and l: "slot_live m b i" and ok1: "b_bitmap m1 b = b_bitmap m b"
    and m1: "m1 = snd (clear_bit (b_bitmap m b) i m)"
  shows "is_empty (b_bitmap m1 b) m1 \<longleftrightarrow> bits (b_bitmap m b) m = {i}"
proof -
  have "b_power_size m b \<in> slot_sizes" "bm_size (b_bitmap m b) = bm_bytes (b_power_size m b)"
    using ok by (simp_all add: bucket_ok_def)
  with meta_size_le have "bm_size (b_bitmap m b) \<le> 32" by metis
  then have "bm_size (b_bitmap m b) < 2 ^ 29" by (rule le_less_trans) simp
  then have "is_empty (b_bitmap m1 b) m1 \<longleftrightarrow> bits (b_bitmap m b) m - {i} = {}"
    by (simp add: ok1 is_empty_iff) (simp add: m1 bits_clear_bit)
  moreover have "i \<in> bits (b_bitmap m b) m" using l by (simp add: slot_live_def bits_def)
  ultimately show ?thesis by auto
qed

lemma blocks_kept_mono: "blocks_kept m m' L \<Longrightarrow> L' \<subseteq> L \<Longrightarrow> blocks_kept m m' L'"
  by (auto simp: blocks_kept_def)

lemma slot_addr_in_slot: "bucket_ok m b \<Longrightarrow> in_slot m b i (slot_addr b (b_power_size m b) i)"
  by (auto simp: in_slot_def in_block_def bucket_ok_def elim: slot_sizes_cases)

lemma kfree_slot_addr:
  assumes inv: "heap_inv P h bs" and b: "b \<in> set bs" and i: "i < bm_bytes (b_power_size (hp_mem h) b)"
  defines "ptr \<equiv> slot_addr b (b_power_size (hp_mem h) b) i"
  shows "kfree P ptr h =
    (let m1 = snd (clear_bit (b_bitmap (hp_mem h) b) (free_index (hp_mem h) b ptr) (hp_mem h))
     in if is_empty (b_bitmap m1 b) m1
        then map_option (\<lambda>(a, m2). \<lparr>hp_buckets = a, hp_mem = m2\<rparr>) (remove_bucket P (hp_buckets h) b m1)
        else Some (h\<lparr>hp_mem := m1\<rparr>))" and "page_begin ptr 0x1000 = b" and "ptr \<noteq> 0"
proof -
  have ok: "bucket_ok (hp_mem h) b" using inv b by (simp add: heap_inv_def)
  have pg: "page_of ptr = b"
    unfolding ptr_def by (rule in_slot_offset(1) [OF ok i slot_addr_in_slot [OF ok]])
  have bz: "b \<noteq> 0" using ok P2V_nonzero [of b] by (auto simp: bucket_ok_def)
  have "hp_buckets h \<noteq> 0" using inv b by (cases bs) (auto simp: heap_inv_def)
  moreover show "ptr \<noteq> 0" using pg bz by (auto simp: page_of_def)
  moreover show "page_begin ptr 0x1000 = b" by (simp add: page_begin_page_of pg)
  ultimately show "kfree P ptr h =
    (let m1 = snd (clear_bit (b_bitmap (hp_mem h) b) (free_index (hp_mem h) b ptr) (hp_mem h))
     in if is_empty (b_bitmap m1 b) m1
        then map_option (\<lambda>(a, m2). \<lparr>hp_buckets = a, hp_mem = m2\<rparr>) (remove_bucket P (hp_buckets h) b m1)
        else Some (h\<lparr>hp_mem := m1\<rparr>))"
    using bz by (auto simp: kfree_def Let_def free_index_def split: option.splits prod.splits)
qed

lemma kfree_correct:
  assumes inv: "heap_inv P h bs" and l: "(b, i) \<in> live (hp_mem h) bs" and p: "b_power_size (hp_mem h) b \<noteq> 16"
  shows "\<exists>h' bs'. kfree P (slot_addr b (b_power_size (hp_mem h) b) i) h = Some h' \<and> free_post P h bs h' bs' b i"
proof -
  let ?m = "hp_mem h" and ?L = "live (hp_mem h) bs - {(b, i)}"
  from live_slot [OF inv l] have b: "b \<in> set bs" and ok: "bucket_ok ?m b"
    and i: "i < bm_bytes (b_power_size ?m b)" by auto
  define m1 where "m1 = snd (clear_bit (b_bitmap ?m b) i ?m)"
  let ?h1 = "h\<lparr>hp_mem := m1\<rparr>"
  note eff = clear_slot [OF inv b, where i = i, folded m1_def]
  have pw1: "b_power_size m1 c = b_power_size ?m c" if "c \<in> set bs" for c
    using that inv by (intro power_local [OF eff(4,3)]) (auto simp: heap_inv_def)
  have kept1: "blocks_kept ?m m1 ?L"
    using set_slot_blocks(2) [OF inv b i] by (auto simp: m1_def intro: blocks_kept_mono)
  have res: "kfree P (slot_addr b (b_power_size ?m b) i) h =
      (if is_empty (b_bitmap m1 b) m1
       then map_option (\<lambda>(a, m2). \<lparr>hp_buckets = a, hp_mem = m2\<rparr>) (remove_bucket P (hp_buckets h) b m1)
       else Some ?h1)"
    using kfree_slot_addr(1) [OF inv b i] free_index_slot [OF ok i] p by (simp add: m1_def)
  have "slot_live ?m b i" using l by (simp add: live_def)
  from emptied_iff [OF ok this header_fields(3) [OF eff(3)] m1_def]
  have emp: "is_empty (b_bitmap m1 b) m1 \<longleftrightarrow> bits (b_bitmap ?m b) ?m = {i}" .
  show ?thesis
  proof (cases "is_empty (b_bitmap m1 b) m1")
    case False
    then have "free_post P h bs ?h1 bs b i" using eff kept1 pw1 emp by (simp add: free_post_def)
    with res False show ?thesis by auto
  next
    case True
    have ok1: "bucket_ok m1 b" using ok bucket_ok_cong [OF eff(3)] by simp
    have inv1: "heap_inv P ?h1 bs" by (rule eff(1))
    have "\<not> slot_live (hp_mem ?h1) b j" for j using empty_bucket_live [OF ok1 True] by simp
    from inv1 b this obtain a' m2 where rem: "remove_bucket P (hp_buckets ?h1) b (hp_mem ?h1) = Some (a', m2)"
      and inv2: "heap_inv P \<lparr>hp_buckets = a', hp_mem = m2\<rparr> (remove1 b bs)"
      and live2: "live m2 (remove1 b bs) = live (hp_mem ?h1) bs"
      and pw2: "\<And>c. c \<in> set (remove1 b bs) \<Longrightarrow> b_power_size m2 c = b_power_size (hp_mem ?h1) c"
      and kept2: "blocks_kept (hp_mem ?h1) m2 (live (hp_mem ?h1) bs)" and gone: "\<not> owned P m2 b"
      by (rule remove_bucket_effect) blast
    have kept2': "blocks_kept ?m m2 ?L"
    proof (rule blocks_kept_trans [OF kept1])
      show "blocks_kept m1 m2 ?L" using kept2 eff(2) by simp
      show "b_power_size m1 c = b_power_size ?m c" if "c \<in> fst ` ?L" for c
        using that live_slot [OF inv] by (intro pw1) auto
    qed
    have "free_post P h bs \<lparr>hp_buckets = a', hp_mem = m2\<rparr> (remove1 b bs) b i"
      using inv2 live2 eff(2) gone pw2 pw1 kept2' emp [THEN iffD1, OF True] set_remove1_subset [of b bs]
      by (auto simp: free_post_def)
    with res True rem show ?thesis by auto
  qed
qed

text \<open>
  In a bucket of 16-byte slots the index that \<open>free\<close> computes is two too large: the block stays in
  use and the block two slots further is given back.
\<close>

lemma kfree_16:
  assumes inv: "heap_inv P h bs" and l: "(b, i) \<in> live (hp_mem h) bs" and p: "b_power_size (hp_mem h) b = 16"
  shows "\<exists>h'. kfree P (slot_addr b 16 i) h = Some h' \<and> heap_inv P h' bs \<and>
    live (hp_mem h') bs = live (hp_mem h) bs - {(b, i + 2)} \<and> (b, i) \<in> live (hp_mem h') bs"
proof -
  let ?m = "hp_mem h"
  from live_slot [OF inv l] have b: "b \<in> set bs" and ok: "bucket_ok ?m b"
    and i: "i < bm_bytes (b_power_size ?m b)" by auto
  define m1 where "m1 = snd (clear_bit (b_bitmap ?m b) (i + 2) ?m)"
  let ?h1 = "h\<lparr>hp_mem := m1\<rparr>"
  note eff = clear_slot [OF inv b, where i = "i + 2", folded m1_def]
  have l1: "(b, i) \<in> live m1 bs" using l eff(2) by simp
  have "bucket_ok m1 b" using ok bucket_ok_cong [OF eff(3)] by simp
  with l1 have "\<not> is_empty (b_bitmap m1 b) m1" using empty_bucket_live [of m1 b i] by (auto simp: live_def)
  then have "kfree P (slot_addr b 16 i) h = Some ?h1"
    using kfree_slot_addr(1) [OF inv b i] free_index_slot [OF ok i] p by (simp add: m1_def)
  with eff(1,2) l1 show ?thesis by auto
qed

section \<open>realloc\<close>

lemma krealloc_shrink:
  assumes inv: "heap_inv P h bs" and l: "(b, i) \<in> live (hp_mem h) bs"
    and sz: "0 < sz" "sz \<le> b_power_size (hp_mem h) b"
  defines "ptr \<equiv> slot_addr b (b_power_size (hp_mem h) b) i"
  shows "krealloc P ptr sz h = Some (ptr, h)"
proof -
  from live_slot [OF inv l] have b: "b \<in> set bs" and ok: "bucket_ok (hp_mem h) b"
    and i: "i < bm_bytes (b_power_size (hp_mem h) b)" by auto
  have "b \<noteq> 0" using ok P2V_nonzero [of b] by (auto simp: bucket_ok_def)
  with kfree_slot_addr(2,3) [OF inv b i, folded ptr_def] sz show ?thesis
    by (auto simp: krealloc_def Let_def)
qed

text \<open>Two blocks that share no byte do not overlap in the sense that \<open>memcpy\<close> needs.\<close>

lemma apart_blocks: "0 < n \<Longrightarrow> \<not> (\<exists>x. in_block a n x \<and> in_block b n x) \<Longrightarrow> n \<le> a - b" for n :: u32
  unfolding in_block_def by (metis diff_self linorder_not_le)

text \<open>What \<open>realloc\<close> to a larger size has done: block \<open>(b, i)\<close> moved to \<open>(b', i')\<close>.\<close>

definition realloc_post ::
  "pmm \<Rightarrow> u32 \<Rightarrow> heap \<Rightarrow> u32 list \<Rightarrow> u32 \<Rightarrow> u32 \<Rightarrow> u32 \<Rightarrow> heap \<Rightarrow> u32 list \<Rightarrow> u32 \<Rightarrow> u32 \<Rightarrow> bool" where
  "realloc_post P sz h bs b i ptr' h' bs' b' i' \<longleftrightarrow>
     heap_inv P h' bs' \<and> (b', i') \<notin> live (hp_mem h) bs \<and>
     live (hp_mem h') bs' = insert (b', i') (live (hp_mem h) bs - {(b, i)}) \<and>
     blocks_kept (hp_mem h) (hp_mem h') (live (hp_mem h) bs - {(b, i)}) \<and>
     (\<forall>d \<in> set bs \<inter> set bs'. b_power_size (hp_mem h') d = b_power_size (hp_mem h) d) \<and>
     ptr' = slot_addr b' (b_power_size (hp_mem h') b') i' \<and> sz \<le> b_power_size (hp_mem h') b' \<and>
     (\<forall>k < b_power_size (hp_mem h) b.
        hp_mem h' (ptr' + k) = hp_mem h (slot_addr b (b_power_size (hp_mem h) b) i + k))"

lemma in_slot_add: "k < b_power_size m b \<Longrightarrow> in_slot m b i (slot_addr b (b_power_size m b) i + k)"
  by (simp add: in_slot_def in_block_def)

lemma blocks_keptD: "blocks_kept m m' L \<Longrightarrow> (b, i) \<in> L \<Longrightarrow> in_slot m b i x \<Longrightarrow> m' x = m x"
  by (auto simp: blocks_kept_def)

lemma copy_into_slot:
  assumes inv: "heap_inv P h bs" and l: "(b, i) \<in> live (hp_mem h) bs" "(c, j) \<in> live (hp_mem h) bs"
    and ne: "(b, i) \<noteq> (c, j)" and le: "b_power_size (hp_mem h) b \<le> b_power_size (hp_mem h) c"
  defines "src \<equiv> slot_addr b (b_power_size (hp_mem h) b) i"
    and "dst \<equiv> slot_addr c (b_power_size (hp_mem h) c) j"
  defines "m' \<equiv> memcpy dst src (b_power_size (hp_mem h) b) (hp_mem h)"
  shows "heap_inv P (h\<lparr>hp_mem := m'\<rparr>) bs" and "live m' bs = live (hp_mem h) bs"
    and "k < b_power_size (hp_mem h) b \<Longrightarrow> m' (dst + k) = hp_mem h (src + k)"
    and "blocks_kept (hp_mem h) m' (live (hp_mem h) bs - {(c, j)})"
    and "d \<in> set bs \<Longrightarrow> b_power_size m' d = b_power_size (hp_mem h) d"
proof -
  let ?m = "hp_mem h" and ?n = "b_power_size (hp_mem h) b"
  note lb = live_slot [OF inv l(1)] and lc = live_slot [OF inv l(2)]
  have n0: "0 < ?n" using lb by (auto simp: bucket_ok_def elim: slot_sizes_cases)
  have inc: "in_slot ?m c j x" if "in_block dst ?n x" for x
    using that le by (simp add: in_slot_def in_block_def dst_def)
  have "\<not> (\<exists>x. in_block dst ?n x \<and> in_block src ?n x)"
  proof
    assume "\<exists>x. in_block dst ?n x \<and> in_block src ?n x"
    then obtain x where "in_slot ?m c j x" "in_slot ?m b i x"
      using inc by (auto simp: in_slot_def src_def)
    with slots_disjoint [of ?m b i c j x] lb lc ne show False by auto
  qed
  then have "?n \<le> dst - src" by (rule apart_blocks [OF n0])
  then have m': "m' x = (if in_block dst ?n x then ?m (src + (x - dst)) else ?m x)" for x
    by (simp add: m'_def memcpy_apply)
  then show "k < ?n \<Longrightarrow> m' (dst + k) = ?m (src + k)" by (simp add: in_block_def)
  have out: "m' x = ?m x" if "\<not> in_slot ?m c j x" for x using inc that by (auto simp: m')
  from lc have "c \<in> set bs" "j < bm_bytes (b_power_size ?m c)" by auto
  from slot_write_meta [OF inv this out]
  show "heap_inv P (h\<lparr>hp_mem := m'\<rparr>) bs" "live m' bs = live ?m bs"
    "d \<in> set bs \<Longrightarrow> b_power_size m' d = b_power_size ?m d" by auto
  have "m' x = ?m x" if d: "(d, k) \<in> live ?m bs" "(d, k) \<noteq> (c, j)" "in_slot ?m d k x" for d k x
    using slots_disjoint [of ?m d k c j x] live_slot [OF inv d(1)] lc d by (intro out) auto
  then show "blocks_kept ?m m' (live ?m bs - {(c, j)})" by (auto simp: blocks_kept_def)
qed

lemma krealloc_grow:
  assumes inv: "heap_inv P h bs" and l: "(b, i) \<in> live (hp_mem h) bs" and p16: "b_power_size (hp_mem h) b \<noteq> 16"
    and sz: "b_power_size (hp_mem h) b < sz" "sz \<le> 2048" and nz: "fst (allocate_frame P (hp_mem h)) \<noteq> 0"
  shows "\<exists>ptr' h' bs' b' i'. krealloc P (slot_addr b (b_power_size (hp_mem h) b) i) sz h = Some (ptr', h') \<and>
    realloc_post P sz h bs b i ptr' h' bs' b' i'"
proof -
  let ?m = "hp_mem h" and ?n = "b_power_size (hp_mem h) b"
  define ptr where "ptr = slot_addr b ?n i"
  from live_slot [OF inv l] have b: "b \<in> set bs" and ib: "i < bm_bytes ?n" and ok: "bucket_ok ?m b" by auto
  from kmalloc_correct [OF inv sz(2) nz] obtain ptr' h1 bs1 c j where
    al: "kmalloc P sz h = Some (ptr', h1)" and post: "malloc_post P sz h bs ptr' h1 bs1 c j" by blast
  let ?m1 = "hp_mem h1"
  from post have inv1: "heap_inv P h1 bs1" and c: "c \<in> set bs1" "j < bm_bytes (b_power_size ?m1 c)"
    and ptr': "ptr' = slot_addr c (b_power_size ?m1 c) j" and le: "sz \<le> b_power_size ?m1 c"
    and pw: "\<And>d. d \<in> set bs \<Longrightarrow> b_power_size ?m1 d = b_power_size ?m d"
    and new: "(c, j) \<notin> live ?m bs" and live1: "live ?m1 bs1 = insert (c, j) (live ?m bs)"
    and kept1: "blocks_kept ?m ?m1 (live ?m bs)" by (auto simp: malloc_post_def)
  have n1: "b_power_size ?m1 b = ?n" using pw b by simp
  have lb: "(b, i) \<in> live ?m1 bs1" and lc: "(c, j) \<in> live ?m1 bs1" and ne: "(b, i) \<noteq> (c, j)"
    using l new live1 by auto
  have nle: "b_power_size ?m1 b \<le> b_power_size ?m1 c" using n1 sz le by simp
  define m2 where "m2 = memcpy ptr' ptr ?n ?m1"
  let ?h2 = "h1\<lparr>hp_mem := m2\<rparr>"
  note cp = copy_into_slot [OF inv1 lb lc ne nle, unfolded n1, folded ptr' ptr_def, folded m2_def]
  have l2: "(b, i) \<in> live (hp_mem ?h2) bs1" using lb cp(2) by simp
  have p2: "b_power_size (hp_mem ?h2) b = ?n" using b n1 cp(5) [of b] lb by (auto simp: live_def)
  from kfree_correct [OF cp(1) l2] p2 p16 obtain h3 bs3 where
    fr: "kfree P ptr ?h2 = Some h3" and fp: "free_post P ?h2 bs1 h3 bs3 b i"
    by (auto simp: ptr_def)
  let ?m3 = "hp_mem h3"
  from fp cp(2) have inv3: "heap_inv P h3 bs3" and live3: "live ?m3 bs3 = live ?m1 bs1 - {(b, i)}"
    and kept3: "blocks_kept m2 ?m3 (live ?m1 bs1 - {(b, i)})"
    and pw3: "\<And>d. d \<in> set bs3 \<Longrightarrow> b_power_size ?m3 d = b_power_size m2 d"
    by (auto simp: free_post_def)
  have c3: "(c, j) \<in> live ?m3 bs3" using live3 lc ne by auto
  have pc: "b_power_size m2 c = b_power_size ?m1 c" by (rule cp(5) [OF c(1)])
  have pc3: "b_power_size ?m3 c = b_power_size ?m1 c" using pw3 [of c] c3 pc by (auto simp: live_def)
  have moved: "?m3 (ptr' + k) = ?m (ptr + k)" if k: "k < ?n" for k
  proof -
    have "k < b_power_size m2 c" using k nle n1 pc by simp
    then have "in_slot m2 c j (ptr' + k)" using in_slot_add [of k m2 c j] by (simp add: pc ptr')
    then have "?m3 (ptr' + k) = m2 (ptr' + k)" using lc ne by (intro blocks_keptD [OF kept3]) auto
    also have "\<dots> = ?m1 (ptr + k)" by (rule cp(3) [OF k])
    also have "\<dots> = ?m (ptr + k)" using k in_slot_add [of k ?m b i]
      by (intro blocks_keptD [OF kept1 l]) (simp add: ptr_def)
    finally show ?thesis .
  qed
  have "blocks_kept ?m ?m1 (live ?m bs - {(b, i)})" using kept1 by (rule blocks_kept_mono) auto
  moreover have "blocks_kept ?m1 m2 (live ?m bs - {(b, i)})"
    using cp(4) new live1 by (auto elim!: blocks_kept_mono)
  ultimately have "blocks_kept ?m m2 (live ?m bs - {(b, i)})"
    by (rule blocks_kept_trans) (auto simp: live_def pw)
  moreover have "blocks_kept m2 ?m3 (live ?m bs - {(b, i)})"
    using kept3 live1 by (auto elim!: blocks_kept_mono)
  ultimately have kept: "blocks_kept ?m ?m3 (live ?m bs - {(b, i)})"
  proof (rule blocks_kept_trans)
    fix d assume "d \<in> fst ` (live ?m bs - {(b, i)})"
    then obtain k where "(d, k) \<in> live ?m bs" by force
    with live1 have "d \<in> set bs" "(d, k) \<in> live ?m1 bs1" by (auto simp: live_def)
    then show "b_power_size m2 d = b_power_size ?m d" using cp(5) [of d] pw by (auto simp: live_def)
  qed
  have "b_power_size ?m3 d = b_power_size ?m d" if "d \<in> set bs" "d \<in> set bs3" for d
    using that post pw3 [of d] cp(5) [of d] pw [of d] by (auto simp: malloc_post_def)
  with kept have "realloc_post P sz h bs b i ptr' h3 bs3 c j"
    using inv3 new live3 live1 ne pc3 le moved ptr' by (auto simp: realloc_post_def ptr_def)
  moreover have "krealloc P ptr sz h = Some (ptr', h3)"
  proof -
    have "sz \<noteq> 0" "ptr' \<noteq> 0" "(sz \<le> ?n) = False"
      using sz(1) kfree_slot_addr(3) [OF inv1 c] by (auto simp: ptr')
    then show ?thesis
      using al fr n1 kfree_slot_addr(2,3) [OF inv b ib, folded ptr_def]
      by (simp add: krealloc_def Let_def m2_def)
  qed
  ultimately show ?thesis by (auto simp: ptr_def)
qed

section \<open>calloc\<close>

text \<open>The overflow check of \<open>calloc\<close> never fires: both factors are 32-bit values at 64 bits.\<close>

lemma umulll_overflow_never: "\<not> fst (umulll_overflow (ucast n) (ucast s))" for n s :: u32
proof -
  have "unat (ucast x :: u64) < 2 ^ 32" for x :: u32
    using unat_bound32 [of x] by (simp add: unsigned_ucast_eq take_bit_eq_mod)
  then have "unat (ucast n :: u64) * unat (ucast s :: u64) < 2 ^ 32 * 2 ^ 32"
    by (intro mult_strict_mono) auto
  then show ?thesis by (simp add: umulll_overflow_def)
qed

lemma ucast_product: "ucast (ucast n * ucast s :: u64) = n * s" for n s :: u32
proof -
  have "unat (ucast x :: u64) = unat x" for x :: u32
    using unat_bound32 [of x] by (simp add: unsigned_ucast_eq take_bit_eq_mod)
  then have "unat (ucast n * ucast s :: u64) = unat n * unat s mod 2 ^ 64"
    by (simp add: unat_word_ariths)
  then have "unat (ucast (ucast n * ucast s :: u64) :: u32) = unat n * unat s mod 2 ^ 64 mod 2 ^ 32"
    by (simp add: unsigned_ucast_eq take_bit_eq_mod)
  also have "\<dots> = unat n * unat s mod 2 ^ 32" by (rule mod_mod_cancel) simp
  also have "\<dots> = unat (n * s)" by (simp add: unat_word_ariths)
  finally show ?thesis by (simp only: word_unat_eq_iff)
qed

lemma kcalloc_eq:
  "kcalloc P n s h = (case kmalloc P (n * s) h of None \<Rightarrow> None
     | Some (out, h1) \<Rightarrow> if out = 0 then Some (0, h1)
         else Some (out, h1\<lparr>hp_mem := memset out 0 (n * s) (hp_mem h1)\<rparr>))"
  using umulll_overflow_never [of n s] unfolding kcalloc_def umulll_overflow_def
  by (simp only: Let_def case_prod_conv fst_conv ucast_product if_False)

end
