(* ===== verification/HeapRun.thy ===== *)
theory HeapRun
  imports Kfree
begin

text \<open>
  Runs of the heap as its callers see it (\<open>malloc\<close>, \<open>free\<close>, \<open>realloc\<close> of src/src/vmm/kmalloc.cpp and stores
  into the blocks they returned): a state is the heap with the list of outstanding blocks, each with the
  bytes its owner put there, and every call is a step. The invariant ties every outstanding block to a
  slot in use of its own. Blocks of at most 16 bytes may be taken but not given back in a run: \<open>free\<close>
  misses them (\<open>kfree_16\<close>).
\<close>

section \<open>Runs\<close>

type_synonym block = "u32 \<times> u8 list"

definition block_bytes :: "memory \<Rightarrow> u32 \<Rightarrow> nat \<Rightarrow> u8 list" where
  "block_bytes m a n = List.map (\<lambda>k. m (a + word_of_nat k)) [0..<n]"

inductive heap_step :: "pmm \<Rightarrow> heap \<times> block list \<Rightarrow> heap \<times> block list \<Rightarrow> bool" for P where
  Malloc: "sz \<le> 2048 \<Longrightarrow> fst (allocate_frame P (hp_mem h)) \<noteq> 0 \<Longrightarrow> kmalloc P sz h = Some (ptr, h') \<Longrightarrow>
    heap_step P (h, bl) (h', (ptr, block_bytes (hp_mem h') ptr (unat sz)) # bl)"
| Free: "16 < length cs \<Longrightarrow> kfree P ptr h = Some h' \<Longrightarrow>
    heap_step P (h, pre @ (ptr, cs) # bl) (h', pre @ bl)"
| Realloc: "16 < length cs \<Longrightarrow> 0 < sz \<Longrightarrow> sz \<le> 2048 \<Longrightarrow> fst (allocate_frame P (hp_mem h)) \<noteq> 0 \<Longrightarrow>
    krealloc P ptr sz h = Some (ptr', h') \<Longrightarrow>
    heap_step P (h, pre @ (ptr, cs) # bl) (h', pre @ (ptr', block_bytes (hp_mem h') ptr' (unat sz)) # bl)"
| Write: "k < length cs \<Longrightarrow>
    heap_step P (h, pre @ (ptr, cs) # bl)
      (h\<lparr>hp_mem := (hp_mem h)(ptr + word_of_nat k := v)\<rparr>, pre @ (ptr, cs[k := v]) # bl)"

inductive_cases heap_stepE: "heap_step P (h, bl) s"

definition blocks_apart :: "block \<Rightarrow> block \<Rightarrow> bool" where
  "blocks_apart = (\<lambda>(p, cs) (q, ds). \<not> (\<exists>x. in_block p (word_of_nat (length cs)) x \<and> in_block q (word_of_nat (length ds)) x))"

section \<open>The invariant of a run\<close>

definition in_slots :: "memory \<Rightarrow> u32 \<times> u32 \<Rightarrow> block \<Rightarrow> bool" where
  "in_slots m = (\<lambda>(b, i) (ptr, cs). ptr = slot_addr b (b_power_size m b) i \<and>
     length cs \<le> unat (b_power_size m b) \<and> block_bytes m ptr (length cs) = cs)"

definition run_inv :: "pmm \<Rightarrow> heap \<Rightarrow> block list \<Rightarrow> u32 list \<Rightarrow> (u32 \<times> u32) list \<Rightarrow> bool" where
  "run_inv P h bl bs sl \<longleftrightarrow> heap_inv P h bs \<and> distinct sl \<and> set sl \<subseteq> live (hp_mem h) bs \<and>
     list_all2 (in_slots (hp_mem h)) sl bl"

lemma block_bytes_cong: "(\<And>k. k < n \<Longrightarrow> m' (a + word_of_nat k) = m (a + word_of_nat k)) \<Longrightarrow> block_bytes m' a n = block_bytes m a n"
  by (simp add: block_bytes_def)

lemma length_block_bytes [simp]: "length (block_bytes m a n) = n"
  by (simp add: block_bytes_def)

lemma in_slot_byte:
  assumes "n \<le> unat (b_power_size m b)" "k < n"
  shows "in_slot m b i (slot_addr b (b_power_size m b) i + word_of_nat k)"
proof -
  have "k < unat (b_power_size m b)" "k < 2 ^ 32" using assms unat_bound32 [of "b_power_size m b"] by simp_all
  then have "word_of_nat k < b_power_size m b" by (simp add: word_less_nat_alt unat_of_nat)
  then show ?thesis by (rule in_slot_add)
qed

text \<open>Blocks whose slots a change of memory keeps stay what they are.\<close>

lemma in_slots_kept:
  assumes "in_slots m (b, i) x" and "blocks_kept m m' L" "(b, i) \<in> L" "b_power_size m' b = b_power_size m b"
  shows "in_slots m' (b, i) x"
proof -
  obtain ptr cs where x: "x = (ptr, cs)" by (cases x)
  have p: "ptr = slot_addr b (b_power_size m b) i" "length cs \<le> unat (b_power_size m b)"
    and cs: "block_bytes m ptr (length cs) = cs" using assms(1) by (auto simp: in_slots_def x)
  have "block_bytes m' ptr (length cs) = block_bytes m ptr (length cs)"
    using p in_slot_byte [of "length cs" m b _ i]
    by (intro block_bytes_cong blocks_keptD [OF assms(2,3)]) simp
  then have "block_bytes m' ptr (length cs) = cs" using cs by (rule trans)
  then show ?thesis using p assms(4) by (auto simp: in_slots_def x)
qed

lemma slots_kept:
  assumes "list_all2 (in_slots m) sl bl" and "blocks_kept m m' L" "set sl \<subseteq> L"
    and "\<And>b i. (b, i) \<in> set sl \<Longrightarrow> b_power_size m' b = b_power_size m b"
  shows "list_all2 (in_slots m') sl bl"
  using assms(1)
proof (rule list.rel_mono_strong)
  fix z x assume z: "z \<in> set sl" and "in_slots m z x"
  moreover obtain b i where "z = (b, i)" by (cases z)
  ultimately show "in_slots m' z x" using assms(3,4) by (auto intro!: in_slots_kept [OF _ assms(2)])
qed
lemma run_malloc:
  assumes inv: "run_inv P h bl bs sl" and post: "malloc_post P sz h bs ptr h' bs' b i"
  shows "run_inv P h' ((ptr, block_bytes (hp_mem h') ptr (unat sz)) # bl) bs' ((b, i) # sl)"
proof -
  from inv have l: "set sl \<subseteq> live (hp_mem h) bs" and d: "distinct sl" and all: "list_all2 (in_slots (hp_mem h)) sl bl"
    by (simp_all add: run_inv_def)
  have "list_all2 (in_slots (hp_mem h')) sl bl"
    by (rule slots_kept [OF all _ l]) (use post l in \<open>auto simp: malloc_post_def live_def\<close>)
  moreover have "in_slots (hp_mem h') (b, i) (ptr, block_bytes (hp_mem h') ptr (unat sz))"
    using post by (simp add: in_slots_def malloc_post_def word_le_nat_alt)
  ultimately show ?thesis using post l d by (auto simp: run_inv_def malloc_post_def)
qed

lemma run_split:
  assumes "run_inv P h (pre @ (ptr, cs) # bl) bs sl"
  obtains s1 b i s2 where "sl = s1 @ (b, i) # s2" "in_slots (hp_mem h) (b, i) (ptr, cs)"
    "list_all2 (in_slots (hp_mem h)) s1 pre" "list_all2 (in_slots (hp_mem h)) s2 bl"
    "(b, i) \<in> live (hp_mem h) bs" "set (s1 @ s2) \<subseteq> live (hp_mem h) bs - {(b, i)}" "distinct (s1 @ s2)"
proof -
  from assms have "list_all2 (in_slots (hp_mem h)) sl (pre @ (ptr, cs) # bl)" by (simp add: run_inv_def)
  then obtain s1 z s2 where "sl = s1 @ z # s2" "list_all2 (in_slots (hp_mem h)) s1 pre"
    "list_all2 (in_slots (hp_mem h)) s2 bl" "in_slots (hp_mem h) z (ptr, cs)"
    by (auto simp: list_all2_append2 list_all2_Cons2)
  moreover obtain b i where "z = (b, i)" by (cases z)
  ultimately show thesis using assms by (intro that [of s1 b i s2]) (auto simp: run_inv_def)
qed

lemma run_free:
  assumes inv: "run_inv P h (pre @ (ptr, cs) # bl) bs sl" and n: "16 < length cs"
  shows "\<exists>h' bs' sl'. kfree P ptr h = Some h' \<and> run_inv P h' (pre @ bl) bs' sl'"
proof -
  from inv obtain s1 b i s2 where s: "sl = s1 @ (b, i) # s2" "in_slots (hp_mem h) (b, i) (ptr, cs)"
    "list_all2 (in_slots (hp_mem h)) s1 pre" "list_all2 (in_slots (hp_mem h)) s2 bl"
    "(b, i) \<in> live (hp_mem h) bs" "set (s1 @ s2) \<subseteq> live (hp_mem h) bs - {(b, i)}" "distinct (s1 @ s2)"
    by (rule run_split)
  have hi: "heap_inv P h bs" using inv by (simp add: run_inv_def)
  have "b_power_size (hp_mem h) b \<noteq> 16" using s(2) n by (auto simp: in_slots_def)
  from kfree_correct [OF hi s(5) this] s(2) obtain h' bs' where
    f: "kfree P ptr h = Some h'" and post: "free_post P h bs h' bs' b i" by (auto simp: in_slots_def)
  from s(3,4) have "list_all2 (in_slots (hp_mem h)) (s1 @ s2) (pre @ bl)" by (rule list_all2_appendI)
  then have "list_all2 (in_slots (hp_mem h')) (s1 @ s2) (pre @ bl)"
  proof (rule slots_kept [OF _ _ s(6)])
    show "blocks_kept (hp_mem h) (hp_mem h') (live (hp_mem h) bs - {(b, i)})" using post by (simp add: free_post_def)
    fix c k assume "(c, k) \<in> set (s1 @ s2)"
    with s(6) post have "(c, k) \<in> live (hp_mem h') bs'" by (auto simp: free_post_def)
    then have "c \<in> set bs'" by (simp add: live_def)
    with post show "b_power_size (hp_mem h') c = b_power_size (hp_mem h) c" by (simp add: free_post_def)
  qed
  with post s(6,7) have "run_inv P h' (pre @ bl) bs' (s1 @ s2)" by (auto simp: run_inv_def free_post_def)
  with f show ?thesis by blast
qed

lemma run_shrink:
  assumes inv: "run_inv P h (pre @ (ptr, cs) # bl) bs sl" and s: "in_slots (hp_mem h) (b, i) (ptr, cs)"
  shows "n \<le> unat (b_power_size (hp_mem h) b) \<Longrightarrow> in_slots (hp_mem h) (b, i) (ptr, block_bytes (hp_mem h) ptr n)"
  using s by (simp add: in_slots_def)
text \<open>A store into an outstanding block.\<close>

lemma run_write:
  assumes inv: "run_inv P h (pre @ (ptr, cs) # bl) bs sl" and k: "k < length cs"
  shows "run_inv P (h\<lparr>hp_mem := (hp_mem h)(ptr + word_of_nat k := v)\<rparr>) (pre @ (ptr, cs[k := v]) # bl) bs sl"
proof -
  let ?m = "hp_mem h" and ?m' = "(hp_mem h)(ptr + word_of_nat k := v)"
  from inv obtain s1 b i s2 where s: "sl = s1 @ (b, i) # s2" "in_slots ?m (b, i) (ptr, cs)"
    "list_all2 (in_slots ?m) s1 pre" "list_all2 (in_slots ?m) s2 bl"
    "(b, i) \<in> live ?m bs" "set (s1 @ s2) \<subseteq> live ?m bs - {(b, i)}" "distinct (s1 @ s2)"
    by (rule run_split)
  have hi: "heap_inv P h bs" using inv by (simp add: run_inv_def)
  have p: "ptr = slot_addr b (b_power_size ?m b) i" "length cs \<le> unat (b_power_size ?m b)"
    and cs: "block_bytes ?m ptr (length cs) = cs" using s(2) by (auto simp: in_slots_def)
  note lb = live_slot [OF hi s(5)]
  have inb: "in_slot ?m b i (ptr + word_of_nat k)" unfolding p(1) using p(2) k by (rule in_slot_byte)
  have b: "b \<in> set bs" "i < bm_bytes (b_power_size ?m b)" using lb by auto
  have out: "?m' x = ?m x" if "\<not> in_slot ?m b i x" for x using inb that by auto
  from slot_write_meta [OF hi b out]
  have eff: "heap_inv P (h\<lparr>hp_mem := ?m'\<rparr>) bs" "live ?m' bs = live ?m bs"
    "\<And>c. c \<in> set bs \<Longrightarrow> b_power_size ?m' c = b_power_size ?m c" by (simp_all add: fun_upd_def)
  have kept: "blocks_kept ?m ?m' (live ?m bs - {(b, i)})"
    unfolding blocks_kept_def
  proof (clarify)
    fix c j x assume "(c, j) \<in> live ?m bs" and ne: "(c, j) \<notin> {}" "\<not> (c = b \<and> j = i)" and x: "in_slot ?m c j x"
    then show "?m' x = ?m x" using slots_disjoint [of ?m b i c j x] live_slot [OF hi] lb by (intro out) auto
  qed
  have pw: "b_power_size ?m' c = b_power_size ?m c" if "(c, j) \<in> live ?m bs" for c j
    using that by - (rule eff(3), auto simp: live_def)
  have "list_all2 (in_slots ?m') (s1 @ s2) (pre @ bl)"
    by (rule slots_kept [OF list_all2_appendI [OF s(3,4)] kept s(6)]) (use s(6) pw in blast)
  then have "list_all2 (in_slots ?m') s1 pre" "list_all2 (in_slots ?m') s2 bl"
    using list_all2_lengthD [OF s(3)] by (simp_all add: list_all2_append)
  moreover have "in_slots ?m' (b, i) (ptr, cs[k := v])"
  proof -
    have "block_bytes ?m' ptr (length cs) = (block_bytes ?m ptr (length cs))[k := v]"
    proof (rule nth_equalityI)
      fix j assume "j < length (block_bytes ?m' ptr (length cs))"
      then have "j < length cs" by simp
      moreover have "j < 2 ^ 32" "k < 2 ^ 32" using \<open>j < length cs\<close> p(2) k unat_bound32 [of "b_power_size ?m b"] by simp_all
      then have "(word_of_nat j :: u32) = word_of_nat k \<longleftrightarrow> j = k"
        by (auto simp: word_unat_eq_iff unat_of_nat)
      ultimately show "block_bytes ?m' ptr (length cs) ! j = (block_bytes ?m ptr (length cs))[k := v] ! j"
        by (auto simp: block_bytes_def nth_list_update)
    qed simp
    then have "block_bytes ?m' ptr (length cs) = cs[k := v]" by (simp only: cs)
    then show ?thesis using p pw [OF s(5)] by (auto simp: in_slots_def)
  qed
  ultimately have "list_all2 (in_slots ?m') sl (pre @ (ptr, cs[k := v]) # bl)" by (simp add: s(1) list_all2_appendI)
  moreover have "distinct sl" "set sl \<subseteq> live ?m bs" using inv by (simp_all add: run_inv_def)
  ultimately show ?thesis using eff(1,2) by (simp add: run_inv_def)
qed

lemma run_realloc:
  assumes inv: "run_inv P h (pre @ (ptr, cs) # bl) bs sl" and n: "16 < length cs" "0 < sz" "sz \<le> 2048"
    and nz: "fst (allocate_frame P (hp_mem h)) \<noteq> 0"
  shows "\<exists>ptr' h' bs' sl'. krealloc P ptr sz h = Some (ptr', h') \<and>
    run_inv P h' (pre @ (ptr', block_bytes (hp_mem h') ptr' (unat sz)) # bl) bs' sl'"
proof -
  let ?m = "hp_mem h"
  from inv obtain s1 b i s2 where s: "sl = s1 @ (b, i) # s2" "in_slots ?m (b, i) (ptr, cs)"
    "list_all2 (in_slots ?m) s1 pre" "list_all2 (in_slots ?m) s2 bl"
    "(b, i) \<in> live ?m bs" "set (s1 @ s2) \<subseteq> live ?m bs - {(b, i)}" "distinct (s1 @ s2)"
    by (rule run_split)
  have hi: "heap_inv P h bs" using inv by (simp add: run_inv_def)
  have p: "ptr = slot_addr b (b_power_size ?m b) i" "length cs \<le> unat (b_power_size ?m b)"
    using s(2) by (simp_all add: in_slots_def)
  have p16: "b_power_size ?m b \<noteq> 16" using p n(1) by auto
  show ?thesis
  proof (cases "sz \<le> b_power_size ?m b")
    case True
    with krealloc_shrink [OF hi s(5) n(2)] p have "krealloc P ptr sz h = Some (ptr, h)" by simp
    moreover have "run_inv P h (pre @ (ptr, block_bytes ?m ptr (unat sz)) # bl) bs sl"
      using inv s(3,4) True p(1) by (simp add: run_inv_def s(1) list_all2_appendI in_slots_def word_le_nat_alt)
    ultimately show ?thesis by blast
  next
    case False
    then have "b_power_size ?m b < sz" by simp
    from krealloc_grow [OF hi s(5) p16 this n(3) nz] p(1) obtain ptr' h' bs' c j where
      r: "krealloc P ptr sz h = Some (ptr', h')" and post: "realloc_post P sz h bs b i ptr' h' bs' c j" by auto
    let ?m' = "hp_mem h'"
    have sub: "set (s1 @ s2) \<subseteq> live ?m' bs'" and new: "(c, j) \<notin> set (s1 @ s2)" "(c, j) \<in> live ?m' bs'"
      using s(6) post by (auto simp: realloc_post_def)
    have "list_all2 (in_slots ?m') (s1 @ s2) (pre @ bl)"
    proof (rule slots_kept [OF list_all2_appendI [OF s(3,4)] _ s(6)])
      show "blocks_kept ?m ?m' (live ?m bs - {(b, i)})" using post by (simp add: realloc_post_def)
      fix d k assume "(d, k) \<in> set (s1 @ s2)"
      then have "d \<in> set bs" "d \<in> set bs'" using s(6) sub by (auto simp: live_def)
      then show "b_power_size ?m' d = b_power_size ?m d" using post by (simp add: realloc_post_def)
    qed
    then have "list_all2 (in_slots ?m') s1 pre" "list_all2 (in_slots ?m') s2 bl"
      using list_all2_lengthD [OF s(3)] by (simp_all add: list_all2_append)
    moreover have "in_slots ?m' (c, j) (ptr', block_bytes ?m' ptr' (unat sz))"
      using post by (simp add: in_slots_def realloc_post_def word_le_nat_alt)
    ultimately have "run_inv P h' (pre @ (ptr', block_bytes ?m' ptr' (unat sz)) # bl) bs' (s1 @ (c, j) # s2)"
      using post sub new s(7) by (auto simp: run_inv_def realloc_post_def list_all2_appendI)
    with r show ?thesis by blast
  qed
qed
lemma heap_step_inv:
  assumes "heap_step P (h, bl) (h', bl')" and inv: "run_inv P h bl bs sl"
  shows "\<exists>bs' sl'. run_inv P h' bl' bs' sl'"
  using assms(1)
proof cases
  case (Malloc sz ptr)
  have "heap_inv P h bs" using inv by (simp add: run_inv_def)
  from kmalloc_correct [OF this Malloc(2,3)] Malloc(4) obtain bs' b i where
    "malloc_post P sz h bs ptr h' bs' b i" by auto
  from run_malloc [OF inv this] show ?thesis using Malloc(1) by blast
next
  case (Free cs ptr pre bl1)
  with run_free [of P h pre ptr cs bl1 bs sl] inv show ?thesis by auto
next
  case (Realloc cs sz ptr ptr' pre bl1)
  with run_realloc [of P h pre ptr cs bl1 bs sl sz] inv show ?thesis by auto
next
  case (Write k cs pre ptr bl1 v)
  with run_write [of P h pre ptr cs bl1 bs sl k v] inv show ?thesis by auto
qed

lemma heap_run_inv:
  assumes "(heap_step P)\<^sup>*\<^sup>* (h, bl) s" and "run_inv P h bl bs sl"
  shows "\<exists>bs' sl'. run_inv P (fst s) (snd s) bs' sl'"
  using assms(1)
proof (induction rule: rtranclp_induct)
  case (step s t)
  then obtain bs' sl' where "run_inv P (fst s) (snd s) bs' sl'" by blast
  with heap_step_inv [of P "fst s" "snd s" "fst t" "snd t"] step(2) show ?case by simp
qed (use assms(2) in auto)

lemma in_slots_block:
  assumes "in_slots m (b, i) (ptr, cs)" and "in_block ptr (word_of_nat (length cs)) x"
  shows "in_slot m b i x"
proof -
  from assms(1) have le: "length cs \<le> unat (b_power_size m b)" and p: "ptr = slot_addr b (b_power_size m b) i"
    by (simp_all add: in_slots_def)
  have "length cs < 2 ^ 32" using le unat_bound32 [of "b_power_size m b"] by simp
  then have "(word_of_nat (length cs) :: u32) \<le> b_power_size m b" using le by (simp add: word_le_nat_alt unat_of_nat)
  with assms(2) show ?thesis by (auto simp: in_slot_def in_block_def p)
qed

lemma run_inv_apart:
  assumes "run_inv P h bl bs sl"
  shows "sorted_wrt blocks_apart bl" and "\<forall>(ptr, cs) \<in> set bl. block_bytes (hp_mem h) ptr (length cs) = cs"
proof -
  from assms have hi: "heap_inv P h bs" and d: "distinct sl" and l: "set sl \<subseteq> live (hp_mem h) bs"
    and all: "list_all2 (in_slots (hp_mem h)) sl bl" by (simp_all add: run_inv_def)
  note len = list_all2_lengthD [OF all]
  show "sorted_wrt blocks_apart bl"
    unfolding sorted_wrt_iff_nth_less
  proof (intro allI impI)
    fix j k assume jk: "j < k" "k < length bl"
    obtain b i c n where z: "sl ! j = (b, i)" "sl ! k = (c, n)" by (metis surj_pair)
    obtain p cs q ds where x: "bl ! j = (p, cs)" "bl ! k = (q, ds)" by (metis surj_pair)
    have s: "in_slots (hp_mem h) (b, i) (p, cs)" "in_slots (hp_mem h) (c, n) (q, ds)"
      using list_all2_nthD2 [OF all, of j] list_all2_nthD2 [OF all, of k] jk z x by simp_all
    have "(b, i) \<noteq> (c, n)" using d jk len z by (metis nth_eq_iff_index_eq order.strict_trans order_less_irrefl)
    moreover have "(b, i) \<in> live (hp_mem h) bs" "(c, n) \<in> live (hp_mem h) bs"
      using l jk len z nth_mem [of j sl] nth_mem [of k sl] by auto
    ultimately have "\<not> (in_slot (hp_mem h) b i y \<and> in_slot (hp_mem h) c n y)" for y
      using slots_disjoint [of "hp_mem h" b i c n y] live_slot [OF hi] by blast
    with in_slots_block [OF s(1)] in_slots_block [OF s(2)] show "blocks_apart (bl ! j) (bl ! k)"
      by (auto simp: blocks_apart_def x)
  qed
  show "\<forall>(ptr, cs) \<in> set bl. block_bytes (hp_mem h) ptr (length cs) = cs"
  proof clarify
    fix ptr cs assume "(ptr, cs) \<in> set bl"
    then obtain k where "k < length bl" "bl ! k = (ptr, cs)" by (auto simp: in_set_conv_nth)
    with list_all2_nthD2 [OF all, of k] show "block_bytes (hp_mem h) ptr (length cs) = cs"
      by (cases "sl ! k") (auto simp: in_slots_def)
  qed
qed

lemma run_inv_free:
  assumes "run_inv P h bl bs sl" "(ptr, cs) \<in> set bl" "16 < length cs"
  shows "kfree P ptr h \<noteq> None"
proof -
  from assms(2) obtain pre bl1 where "bl = pre @ (ptr, cs) # bl1" by (auto dest: split_list)
  with run_free [of P h pre ptr cs bl1 bs sl] assms show ?thesis by auto
qed

lemma run_inv_start: "heap_inv P h bs \<Longrightarrow> run_inv P h [] bs []"
  by (simp add: run_inv_def)

end
