(* ===== verification/Samples.thy ===== *)
theory Samples
  imports HeapRun
begin

text \<open>
  One small concrete machine on which the hypotheses of the theorems hold: eight frames, the
  bitmap of the allocator at the start of the kernel window, frame 1 in use as an empty page
  directory, and an empty heap.
\<close>

definition sample_pmm :: pmm where
  "sample_pmm = \<lparr>pmm_nbFrames = 8, pmm_bm = \<lparr>bm_ptr = 0xC0000000, bm_size = 1\<rparr>\<rparr>"

definition sample_mem :: memory where
  "sample_mem = (\<lambda>_. 0)(0xC0000000 := 2)"

definition sample_pd :: u32 where
  "sample_pd = 0xC0001000"

definition sample_heap :: heap where
  "sample_heap = \<lparr>hp_buckets = 0, hp_mem = sample_mem\<rparr>"

lemma sample_used: "frame_used sample_pmm i sample_mem \<longleftrightarrow> i = 1"
proof -
  have "bit (2 :: u8) (unat (i mod 8)) \<longleftrightarrow> i mod 8 = 1" if "i div 8 = 0"
    using unat_mod_8 [of i] bit_exp_u8 [of 1 i] by (auto simp: unat_1)
  moreover have "i div 8 < 1 \<longleftrightarrow> i div 8 = 0" by (metis word_less_1)
  moreover have "i = 1 \<longleftrightarrow> i div 8 = 0 \<and> i mod 8 = 1" using eq_iff_div_mod_8 [of i 1] by simp
  ultimately show ?thesis
    by (auto simp: frame_used_def get_bit_iff valid_bit_def sample_pmm_def sample_mem_def)
qed

lemma sample_fa_inv: "fa_inv (sample_pmm, sample_mem)"
  by (simp add: fa_inv_def pmm_wf_def sample_pmm_def)

lemma sample_bitmap_apart: "q \<noteq> 0xC0000000 \<Longrightarrow> bitmap_apart sample_pmm q"
  by (auto simp: bitmap_apart_def in_bitmap_def in_block_def sample_pmm_def page_of_def diff_eq_iff_add
      dest!: word_less_1 [THEN iffD1])

lemma sample_frame: "1 \<le> i \<Longrightarrow> i < 8 \<Longrightarrow> P2V (i * FRAME_SIZE) \<noteq> 0xC0000000"
proof -
  assume i: "1 \<le> i" "i < 8"
  have "P2V (i * FRAME_SIZE) \<noteq> P2V (0 * FRAME_SIZE)"
    using i by (subst window_frame_inj) (auto intro: less_le_trans)
  then show ?thesis by (simp add: P2V_def KERNEL_OFFSET_def)
qed

lemma sample_free_apart: "free_apart sample_pmm sample_mem"
  unfolding free_apart_def
proof (intro allI impI)
  fix i assume "1 \<le> i \<and> i < pmm_nbFrames sample_pmm \<and> \<not> frame_used sample_pmm i sample_mem"
  then have "P2V (i * FRAME_SIZE) \<noteq> 0xC0000000" by (intro sample_frame) (auto simp: sample_pmm_def)
  then show "bitmap_apart sample_pmm (P2V (i * FRAME_SIZE))" by (rule sample_bitmap_apart)
qed

lemma sample_alloc: "allocate_frame sample_pmm sample_mem =
    (2 * FRAME_SIZE, snd (set_bit (pmm_bm sample_pmm) 2 sample_mem))"
proof -
  have "(2 :: u32) \<le> k" if "\<not> k = 1" "1 \<le> k" for k :: u32 using that by unat_arith
  then have "find_from 1 8 (\<lambda>i. \<not> get_bit (pmm_bm sample_pmm) i sample_mem) = Some 2"
    using sample_used by (auto simp: find_from_Some_iff frame_used_def not_le [symmetric])
  then show ?thesis by (simp add: allocate_frame_def) (simp add: sample_pmm_def)
qed

lemma sample_alloc_nonzero: "fst (allocate_frame sample_pmm sample_mem) \<noteq> 0"
  by (simp add: sample_alloc FRAME_SIZE_def)

lemma sample_as_inv: "as_inv sample_pmm sample_mem sample_pd"
proof -
  have pd: "P2V (1 * FRAME_SIZE) = sample_pd"
    by (simp add: P2V_def KERNEL_OFFSET_def FRAME_SIZE_def sample_pd_def)
  then have own: "owned sample_pmm sample_mem sample_pd"
    using sample_used by (force simp: owned_def sample_pmm_def intro!: exI [of _ 1])
  have al: "page_aligned sample_pd" by (simp add: page_aligned_def page_of_def sample_pd_def)
  have ne: "sample_pd \<noteq> 0xC0000000" by (simp add: sample_pd_def)
  have "pde sample_mem sample_pd i = 0" if "i < 1024" for i
    unfolding pde_def
  proof (rule load32_zero_page [OF _ al that])
    fix x :: u32 assume "page_of x = sample_pd"
    then have "x \<noteq> 0xC0000000" by (auto simp: page_of_def sample_pd_def)
    then show "sample_mem x = 0" by (simp add: sample_mem_def)
  qed
  moreover have "P2V sample_pd = sample_pd" by (simp add: P2V_def KERNEL_OFFSET_def sample_pd_def)
  ultimately show ?thesis
    using al own sample_fa_inv sample_free_apart sample_bitmap_apart [OF ne]
    by (auto simp: as_inv_def pd_wf_def tables_apart_def)
qed

lemma sample_heap_inv: "heap_inv sample_pmm sample_heap []"
  by (simp add: heap_inv_def sample_heap_def sample_fa_inv sample_free_apart)

lemma sample_heap_mem [simp]: "hp_mem sample_heap = sample_mem"
  by (simp add: sample_heap_def)

end
