(* ===== verification/Ports.thy ===== *)
theory Ports
  imports Prelude
begin

text \<open>
  The port instructions of src/src/includes/io.hpp. What the devices answer is a parameter: for
  every port a sequence of bytes, one for each read. Writes are recorded in order.
\<close>

record ports =
  po_answers :: "u32 \<Rightarrow> nat \<Rightarrow> u8"
  po_reads :: "u32 \<Rightarrow> nat"
  po_writes :: "(u32 \<times> u8) list"

definition inb :: "u32 \<Rightarrow> ports \<Rightarrow> u8 \<times> ports" where
  "inb port s = (po_answers s port (po_reads s port),
     s\<lparr>po_reads := (po_reads s)(port := po_reads s port + 1)\<rparr>)"

definition outb :: "u32 \<Rightarrow> u8 \<Rightarrow> ports \<Rightarrow> ports" where
  "outb port v s = s\<lparr>po_writes := po_writes s @ [(port, v)]\<rparr>"

text \<open>The bytes written to one port, in order.\<close>

definition sent :: "u32 \<Rightarrow> ports \<Rightarrow> u8 list" where
  "sent port s = map snd (filter (\<lambda>w. fst w = port) (po_writes s))"

lemma sent_outb [simp]: "sent p (outb q v s) = (if q = p then sent p s @ [v] else sent p s)"
  by (simp add: sent_def outb_def)

lemma po_writes_outb [simp]: "po_writes (outb q v s) = po_writes s @ [(q, v)]"
  and po_reads_outb [simp]: "po_reads (outb q v s) = po_reads s"
  and po_answers_outb [simp]: "po_answers (outb q v s) = po_answers s"
  by (simp_all add: outb_def)

lemma sent_inb [simp]: "sent p (snd (inb q s)) = sent p s"
  and po_writes_inb [simp]: "po_writes (snd (inb q s)) = po_writes s"
  and po_answers_inb [simp]: "po_answers (snd (inb q s)) = po_answers s"
  by (simp_all add: sent_def inb_def)

end
