(* ===== verification/Kprintf.thy ===== *)
theory Kprintf
  imports Kstring
begin

text \<open>
  The formatted output that src/src/outputs/serial.cpp and src/src/outputs/vga.cpp share line by
  line: \<open>write_str\<close>, \<open>write\<close>, \<open>print_hex\<close>, \<open>print_dec\<close> and \<open>kprintf\<close>, over the \<open>write_char\<close> of the
  device, which is the parameter \<open>put\<close>. \<open>None\<close> is a call that does not return. Both files keep the
  digits of a number on a static stack of words. Variable arguments are the 32-bit words the
  caller pushed; a format that asks for more of them has no defined result, \<open>None\<close> as well.
\<close>

section \<open>Output of characters and strings\<close>

partial_function (option) write_str_loop ::
  "(u8 \<Rightarrow> 's \<Rightarrow> 's option) \<Rightarrow> memory \<Rightarrow> u32 \<Rightarrow> u32 \<Rightarrow> 's \<Rightarrow> (u32 \<times> 's) option" where
  "write_str_loop put m buf i s =
     (if m (buf + i) \<noteq> 0
      then (case put (m (buf + i)) s of None \<Rightarrow> None
            | Some s' \<Rightarrow> write_str_loop put m buf (i + 1) s')
      else Some (i, s))"

definition write_str :: "(u8 \<Rightarrow> 's \<Rightarrow> 's option) \<Rightarrow> memory \<Rightarrow> u32 \<Rightarrow> 's \<Rightarrow> (u32 \<times> 's) option" where
  "write_str put m buf s = write_str_loop put m buf 0 s"

fun put_all :: "(u8 \<Rightarrow> 's \<Rightarrow> 's option) \<Rightarrow> u8 list \<Rightarrow> 's \<Rightarrow> 's option" where
  "put_all put [] s = Some s"
| "put_all put (c # cs) s = (case put c s of None \<Rightarrow> None | Some s' \<Rightarrow> put_all put cs s')"

text \<open>A string literal, for the calls whose argument is one.\<close>

definition lit :: "string \<Rightarrow> u8 list" where
  "lit cs = map of_char cs"

definition write_buf :: "(u8 \<Rightarrow> 's \<Rightarrow> 's option) \<Rightarrow> memory \<Rightarrow> u32 \<Rightarrow> u32 \<Rightarrow> 's \<Rightarrow> (u32 \<times> 's) option" where
  "write_buf put m buf count s =
     map_option (Pair count)
       (for_from 0 count (\<lambda>i r. case r of None \<Rightarrow> None | Some s \<Rightarrow> put (m (buf + i)) s) (Some s))"

section \<open>Numbers\<close>

record kstack =
  ks_cells :: "u32 \<Rightarrow> u32"
  ks_idx :: u32

definition ks_push :: "u32 \<Rightarrow> kstack \<Rightarrow> kstack" where
  "ks_push v ks = ks\<lparr>ks_cells := (ks_cells ks)(ks_idx ks := v), ks_idx := ks_idx ks + 1\<rparr>"

definition ks_pop :: "kstack \<Rightarrow> u32 \<times> kstack" where
  "ks_pop ks = (ks_cells ks (ks_idx ks - 1), ks\<lparr>ks_idx := ks_idx ks - 1\<rparr>)"

lemma word_div_decreases: "v \<noteq> 0 \<Longrightarrow> 1 < unat d \<Longrightarrow> unat (v div d) < unat v"
  for v d :: "'a::len word"
  by (simp add: unat_div_distrib unat_gt_0)

function push_hex :: "u64 \<Rightarrow> u32 \<Rightarrow> kstack \<Rightarrow> u32 \<times> kstack" where
  "push_hex value digits ks =
     (if value \<noteq> 0 then push_hex (value div 16) (digits + 1) (ks_push (ucast (value mod 16)) ks)
      else (digits, ks))"
  by pat_completeness auto
termination
  by (relation "measure (\<lambda>(v, d, ks). unat v)") (auto simp: word_div_decreases)

function push_dec :: "u32 \<Rightarrow> u32 \<Rightarrow> kstack \<Rightarrow> u32 \<times> kstack" where
  "push_dec value digits ks =
     (if value \<noteq> 0 then push_dec (value div 10) (digits + 1) (ks_push (value mod 10) ks)
      else (digits, ks))"
  by pat_completeness auto
termination
  by (relation "measure (\<lambda>(v, d, ks). unat v)") (auto simp: word_div_decreases)

declare push_hex.simps [simp del] push_dec.simps [simp del]

text \<open>\<open>for (uint8_t i = digits; i < len; i++) write_char('0');\<close> with the 8-bit counter.\<close>

partial_function (option) pad_loop ::
  "(u8 \<Rightarrow> 's \<Rightarrow> 's option) \<Rightarrow> u8 \<Rightarrow> u32 \<Rightarrow> 's \<Rightarrow> 's option" where
  "pad_loop put i len s =
     (if ucast i < len
      then (case put (of_char CHR ''0'') s of None \<Rightarrow> None | Some s' \<Rightarrow> pad_loop put (i + 1) len s')
      else Some s)"

text \<open>\<open>for (uint8_t i = 0; i < digits; i++) write_char(f(stack[--stack_idx]));\<close>\<close>

partial_function (option) pop_loop ::
  "(u8 \<Rightarrow> 's \<Rightarrow> 's option) \<Rightarrow> (u32 \<Rightarrow> u8) \<Rightarrow> u8 \<Rightarrow> u32 \<Rightarrow> kstack \<Rightarrow> 's \<Rightarrow> (kstack \<times> 's) option" where
  "pop_loop put f i digits ks s =
     (if ucast i < digits
      then (let (v, ks') = ks_pop ks in
            case put (f v) s of None \<Rightarrow> None | Some s' \<Rightarrow> pop_loop put f (i + 1) digits ks' s')
      else Some (ks, s))"

definition hex_digit :: "u32 \<Rightarrow> u8" where
  "hex_digit v = lit ''0123456789ABCDEF'' ! unat v"

definition dec_digit :: "u32 \<Rightarrow> u8" where
  "dec_digit v = of_char CHR ''0'' + ucast v"

definition print_hex ::
  "(u8 \<Rightarrow> 's \<Rightarrow> 's option) \<Rightarrow> u64 \<Rightarrow> u32 \<Rightarrow> kstack \<Rightarrow> 's \<Rightarrow> (kstack \<times> 's) option" where
  "print_hex put value bits ks s =
     (let (digits, ks1) = push_hex value 0 ks in
      case put_all put (lit ''0x'') s of None \<Rightarrow> None
      | Some s1 \<Rightarrow>
          (case pad_loop put (ucast digits) (bits div 4) s1 of None \<Rightarrow> None
           | Some s2 \<Rightarrow> pop_loop put hex_digit 0 digits ks1 s2))"

definition print_dec ::
  "(u8 \<Rightarrow> 's \<Rightarrow> 's option) \<Rightarrow> u32 \<Rightarrow> kstack \<Rightarrow> 's \<Rightarrow> (kstack \<times> 's) option" where
  "print_dec put value ks s =
     (if value = 0 then map_option (Pair ks) (put (of_char CHR ''0'') s)
      else let (digits, ks1) = push_dec value 0 ks in pop_loop put dec_digit 0 digits ks1 s)"

section \<open>Formats\<close>

text \<open>
  One round of the loop of \<open>kprintf\<close>, and the loop; \<open>strings\<close> tells whether the device has the
  branch for \<open>%s\<close>, which the screen lacks.
\<close>

definition kprintf_step ::
  "bool \<Rightarrow> (u8 \<Rightarrow> 's \<Rightarrow> 's option) \<Rightarrow> memory \<Rightarrow> u8 \<Rightarrow> u8 \<Rightarrow> u32 list \<Rightarrow> kstack \<Rightarrow> 's \<Rightarrow>
    (u32 \<times> u32 list \<times> kstack \<times> 's) option"
where
  "kprintf_step strings put m c d args ks s =
     (if c \<noteq> of_char CHR ''%'' then map_option (\<lambda>s'. (1, args, ks, s')) (put c s)
      else if d = of_char CHR ''%'' then map_option (\<lambda>s'. (2, args, ks, s')) (put (of_char CHR ''%'') s)
      else if d = of_char CHR ''c'' then
        (case args of [] \<Rightarrow> None | a # args' \<Rightarrow> map_option (\<lambda>s'. (2, args', ks, s')) (put (ucast a) s))
      else if strings \<and> d = of_char CHR ''s'' then
        (case args of [] \<Rightarrow> None | a # args' \<Rightarrow>
           map_option (\<lambda>(n, s'). (2, args', ks, s')) (write_str put m a s))
      else if d = of_char CHR ''d'' then
        (case args of [] \<Rightarrow> None | a # args' \<Rightarrow> map_option (\<lambda>r. (2, args', r)) (print_dec put a ks s))
      else if d = of_char CHR ''x'' then
        (case args of [] \<Rightarrow> None | a # args' \<Rightarrow>
           map_option (\<lambda>r. (2, args', r)) (print_hex put (ucast a) 32 ks s))
      else if d = of_char CHR ''X'' then
        (case args of lo # hi # args' \<Rightarrow>
           map_option (\<lambda>r. (2, args', r)) (print_hex put (push_bit 32 (ucast hi) OR ucast lo) 64 ks s)
         | _ \<Rightarrow> None)
      else map_option (\<lambda>s'. (1, args, ks, s'))
             (put_all put (lit ''[WARNING] Invalid printing format!\<newline>'') s))"

partial_function (option) kprintf_loop ::
  "bool \<Rightarrow> (u8 \<Rightarrow> 's \<Rightarrow> 's option) \<Rightarrow> memory \<Rightarrow> u32 \<Rightarrow> u32 \<Rightarrow> u32 list \<Rightarrow> kstack \<Rightarrow> 's \<Rightarrow> (kstack \<times> 's) option"
where
  "kprintf_loop strings put m fmt i args ks s =
     (if m (fmt + i) = 0 then Some (ks, s)
      else case kprintf_step strings put m (m (fmt + i)) (m (fmt + (i + 1))) args ks s of None \<Rightarrow> None
           | Some (n, args', ks', s') \<Rightarrow> kprintf_loop strings put m fmt (i + n) args' ks' s')"

definition kprintf ::
  "bool \<Rightarrow> (u8 \<Rightarrow> 's \<Rightarrow> 's option) \<Rightarrow> memory \<Rightarrow> u32 \<Rightarrow> u32 list \<Rightarrow> kstack \<Rightarrow> 's \<Rightarrow> (kstack \<times> 's) option" where
  "kprintf strings put m fmt args ks s = kprintf_loop strings put m fmt 0 args ks s"

section \<open>What is printed for a number\<close>

text \<open>Digits, least significant first.\<close>

function digits_lsf :: "nat \<Rightarrow> nat \<Rightarrow> nat list" where
  "digits_lsf b n = (if n = 0 \<or> b < 2 then [] else n mod b # digits_lsf b (n div b))"
  by pat_completeness auto
termination
  by (relation "measure (\<lambda>(b, n). n)") auto

declare digits_lsf.simps [simp del]

definition hex_text :: "nat \<Rightarrow> nat \<Rightarrow> u8 list" where
  "hex_text width n = lit ''0x'' @ replicate (width - length (digits_lsf 16 n)) (of_char CHR ''0'')
     @ map (hex_digit \<circ> of_nat) (rev (digits_lsf 16 n))"

definition dec_text :: "nat \<Rightarrow> u8 list" where
  "dec_text n = (if n = 0 then lit ''0'' else map (dec_digit \<circ> of_nat) (rev (digits_lsf 10 n)))"

lemma digits_lsf_0 [simp]: "digits_lsf b 0 = []"
  by (simp add: digits_lsf.simps)

lemma digits_lsf_step: "n \<noteq> 0 \<Longrightarrow> 2 \<le> b \<Longrightarrow> digits_lsf b n = n mod b # digits_lsf b (n div b)"
  by (simp add: digits_lsf.simps [of b n])

lemma digits_lsf_length: "2 \<le> b \<Longrightarrow> n < b ^ k \<Longrightarrow> length (digits_lsf b n) \<le> k"
proof (induction k arbitrary: n)
  case (Suc k)
  show ?case
  proof (cases "n = 0")
    case False
    have "n div b < b ^ k" using Suc.prems by (simp add: less_mult_imp_div_less mult.commute)
    with Suc False show ?thesis by (simp add: digits_lsf_step)
  qed simp
qed simp

lemma digits_lsf_bound: "2 \<le> b \<Longrightarrow> d \<in> set (digits_lsf b n) \<Longrightarrow> d < b"
  by (induction b n rule: digits_lsf.induct) (subst (asm) (2) digits_lsf.simps, auto split: if_splits)

lemma digits_lsf_value: "2 \<le> b \<Longrightarrow> foldr (\<lambda>d v. v * b + d) (digits_lsf b n) 0 = n"
proof (induction b n rule: digits_lsf.induct)
  case (1 b n)
  then show ?case by (cases "n = 0") (auto simp: digits_lsf_step)
qed

section \<open>The stack of digits\<close>

definition stack_has :: "kstack \<Rightarrow> u32 \<Rightarrow> u32 list \<Rightarrow> bool" where
  "stack_has ks base xs \<longleftrightarrow> ks_idx ks = base + of_nat (length xs) \<and>
     (\<forall>j < length xs. ks_cells ks (base + of_nat j) = xs ! j)"

lemma of_nat_eq_u32: "a < 256 \<Longrightarrow> b < 256 \<Longrightarrow> (of_nat a :: u32) = of_nat b \<longleftrightarrow> a = b"
  by (auto simp: word_unat_eq_iff unat_of_nat)

lemma stack_has_push:
  "stack_has ks base xs \<Longrightarrow> length xs < 255 \<Longrightarrow> stack_has (ks_push x ks) base (xs @ [x])"
  by (auto simp: stack_has_def ks_push_def nth_append of_nat_eq_u32 less_Suc_eq)

lemma stack_has_pop:
  assumes "stack_has ks base (xs @ [x])"
  shows "fst (ks_pop ks) = x" and "stack_has (snd (ks_pop ks)) base xs"
    and "(snd (ks_pop ks))\<lparr>ks_idx := base\<rparr> = ks\<lparr>ks_idx := base\<rparr>"
  using assms by (auto simp: stack_has_def ks_pop_def nth_append)

lemma stack_has_nil: "stack_has ks (ks_idx ks) []"
  by (simp add: stack_has_def)

lemma push_hex_stack:
  "stack_has ks base xs \<Longrightarrow> length xs + length (digits_lsf 16 (unat v)) < 256 \<Longrightarrow>
    \<exists>ks'. push_hex v d ks = (d + of_nat (length (digits_lsf 16 (unat v))), ks') \<and>
      stack_has ks' base (xs @ map of_nat (digits_lsf 16 (unat v)))"
proof (induction v d ks arbitrary: xs rule: push_hex.induct)
  case (1 v d ks)
  show ?case
  proof (cases "v = 0")
    case True
    with 1 show ?thesis by (simp add: push_hex.simps)
  next
    case False
    have dv: "digits_lsf 16 (unat v) = unat v mod 16 # digits_lsf 16 (unat (v div 16))"
      using False by (simp add: digits_lsf_step unat_gt_0 unat_div_distrib)
    have md: "ucast (v mod 16) = (of_nat (unat v mod 16) :: u32)"
      by (simp add: word_unat_eq_iff unsigned_ucast_eq take_bit_eq_mod unat_of_nat unat_mod_distrib)
    have "stack_has (ks_push (ucast (v mod 16)) ks) base (xs @ [of_nat (unat v mod 16)])"
      using 1(2,3) by (simp only: md) (intro stack_has_push, auto simp: dv)
    from "1.IH" [OF False this] 1(3) obtain ks' where
      "push_hex (v div 16) (d + 1) (ks_push (ucast (v mod 16)) ks) =
        (d + 1 + of_nat (length (digits_lsf 16 (unat (v div 16)))), ks')"
      "stack_has ks' base ((xs @ [of_nat (unat v mod 16)]) @ map of_nat (digits_lsf 16 (unat (v div 16))))"
      by (auto simp: dv)
    with False show ?thesis by (simp add: push_hex.simps [of v d ks] dv algebra_simps)
  qed
qed

lemma push_dec_stack:
  "stack_has ks base xs \<Longrightarrow> length xs + length (digits_lsf 10 (unat v)) < 256 \<Longrightarrow>
    \<exists>ks'. push_dec v d ks = (d + of_nat (length (digits_lsf 10 (unat v))), ks') \<and>
      stack_has ks' base (xs @ map of_nat (digits_lsf 10 (unat v)))"
proof (induction v d ks arbitrary: xs rule: push_dec.induct)
  case (1 v d ks)
  show ?case
  proof (cases "v = 0")
    case True
    with 1 show ?thesis by (simp add: push_dec.simps)
  next
    case False
    have dv: "digits_lsf 10 (unat v) = unat v mod 10 # digits_lsf 10 (unat (v div 10))"
      using False by (simp add: digits_lsf_step unat_gt_0 unat_div_distrib)
    have md: "v mod 10 = of_nat (unat v mod 10)"
      by (simp add: word_unat_eq_iff unat_mod_distrib unat_of_nat)
    have "stack_has (ks_push (v mod 10) ks) base (xs @ [of_nat (unat v mod 10)])"
      using 1(2,3) by (simp only: md) (intro stack_has_push, auto simp: dv)
    from "1.IH" [OF False this] 1(3) obtain ks' where
      "push_dec (v div 10) (d + 1) (ks_push (v mod 10) ks) =
        (d + 1 + of_nat (length (digits_lsf 10 (unat (v div 10)))), ks')"
      "stack_has ks' base ((xs @ [of_nat (unat v mod 10)]) @ map of_nat (digits_lsf 10 (unat (v div 10))))"
      by (auto simp: dv)
    with False show ?thesis by (simp add: push_dec.simps [of v d ks] dv algebra_simps)
  qed
qed

lemma put_all_append: "put_all put (xs @ ys) s = Option.bind (put_all put xs s) (put_all put ys)"
  by (induction xs arbitrary: s) (auto split: option.split)

lemma u8_succ: "unat i + 1 < 256 \<Longrightarrow> unat (i + 1) = unat i + 1" for i :: u8
  by (subst unat_add_lem [THEN iffD1]) auto

lemma unat_ucast_u8 [simp]: "unat (ucast i :: u32) = unat i" for i :: u8
proof -
  have "unat i < 2 ^ LENGTH(8)" by (rule unsigned_less)
  then show ?thesis by (simp add: unsigned_ucast_eq take_bit_eq_mod)
qed

lemma pop_loop_stack:
  "stack_has ks base xs \<Longrightarrow> unat i + length xs = unat digits \<Longrightarrow> unat digits < 256 \<Longrightarrow>
    pop_loop put f i digits ks s = map_option (Pair (ks\<lparr>ks_idx := base\<rparr>)) (put_all put (map f (rev xs)) s)"
proof (induction xs arbitrary: i ks s rule: rev_induct)
  case Nil
  then have "\<not> ucast i < digits" "ks\<lparr>ks_idx := base\<rparr> = ks"
    by (auto simp: word_less_nat_alt stack_has_def)
  then show ?case by (subst pop_loop.simps) simp
next
  case (snoc x xs)
  note pop = stack_has_pop [OF snoc.prems(1)]
  obtain ks' where ks': "ks_pop ks = (x, ks')" using pop(1) by (cases "ks_pop ks") auto
  have lt: "ucast i < digits" using snoc.prems by (simp add: word_less_nat_alt)
  have "unat (i + 1) + length xs = unat digits" using snoc.prems by (simp add: u8_succ)
  from snoc.IH [OF _ this snoc.prems(3)] pop ks'
  have "pop_loop put f (i + 1) digits ks' s' =
      map_option (Pair (ks\<lparr>ks_idx := base\<rparr>)) (put_all put (map f (rev xs)) s')" for s'
    by simp
  with lt ks' show ?case by (subst pop_loop.simps) (simp split: option.split)
qed

lemma pad_loop_zeros:
  "unat i + n = unat len \<Longrightarrow> unat len < 256 \<Longrightarrow>
    pad_loop put i len s = put_all put (replicate n (of_char CHR ''0'')) s"
proof (induction n arbitrary: i s)
  case 0
  then show ?case by (subst pad_loop.simps) (simp add: word_less_nat_alt)
next
  case (Suc n)
  then have "unat (i + 1) + n = unat len" "ucast i < len" by (simp_all add: u8_succ word_less_nat_alt)
  with Suc show ?case by (subst pad_loop.simps) (simp split: option.split)
qed

lemma pad_loop_none: "unat len \<le> unat i \<Longrightarrow> pad_loop put i len s = Some s"
  by (subst pad_loop.simps) (simp add: word_less_nat_alt)

text \<open>\<open>print_hex\<close> and \<open>print_dec\<close> put the text and leave the stack pointer where it was.\<close>

lemma print_hex_text:
  assumes "bits div 4 < 256"
  shows "\<exists>ks'. ks_idx ks' = ks_idx ks \<and> (\<forall>s.
    print_hex put v bits ks s = map_option (Pair ks') (put_all put (hex_text (unat (bits div 4)) (unat v)) s))"
proof -
  let ?ds = "digits_lsf 16 (unat v)"
  have "unat v < 16 ^ 16" using unsigned_less [of v] by simp
  then have len: "length ?ds \<le> 16" by (intro digits_lsf_length) auto
  from push_hex_stack [OF stack_has_nil [of ks], of v 0] len obtain ks1 where
    p: "push_hex v 0 ks = (of_nat (length ?ds), ks1)" "stack_has ks1 (ks_idx ks) (map of_nat ?ds)"
    by auto
  have n: "unat (of_nat (length ?ds) :: u32) = length ?ds" using len by (simp add: unat_of_nat)
  have n8: "unat (ucast (of_nat (length ?ds) :: u32) :: u8) = length ?ds"
    using len by (simp add: unsigned_ucast_eq take_bit_eq_mod n)
  have b: "unat (bits div 4) < 256" using assms by (simp add: word_less_nat_alt)
  have pad: "pad_loop put (ucast (of_nat (length ?ds) :: u32)) (bits div 4) s' =
      put_all put (replicate (unat (bits div 4) - length ?ds) (of_char CHR ''0'')) s'" for s'
  proof (cases "length ?ds \<le> unat (bits div 4)")
    case True
    with b show ?thesis by (intro pad_loop_zeros) (simp_all only: n8)
  next
    case False
    then show ?thesis by (simp add: pad_loop_none n8)
  qed
  have pop: "pop_loop put hex_digit 0 (of_nat (length ?ds)) ks1 s' =
      map_option (Pair (ks1\<lparr>ks_idx := ks_idx ks\<rparr>)) (put_all put (map (hex_digit \<circ> of_nat) (rev ?ds)) s')" for s'
    using len by (subst pop_loop_stack [OF p(2)]) (simp_all add: n rev_map)
  show ?thesis
    by (rule exI [of _ "ks1\<lparr>ks_idx := ks_idx ks\<rparr>"])
      (auto simp: print_hex_def p(1) pad pop hex_text_def put_all_append split: option.split)
qed

lemma print_dec_text:
  "\<exists>ks'. ks_idx ks' = ks_idx ks \<and> (\<forall>s.
    print_dec put v ks s = map_option (Pair ks') (put_all put (dec_text (unat v)) s))"
proof (cases "v = 0")
  case True
  then show ?thesis by (auto simp: print_dec_def dec_text_def lit_def split: option.split intro!: exI [of _ ks])
next
  case False
  let ?ds = "digits_lsf 10 (unat v)"
  have "unat v < 10 ^ 10" using unat_bound32 [of v] by simp
  then have len: "length ?ds \<le> 10" by (intro digits_lsf_length) auto
  from push_dec_stack [OF stack_has_nil [of ks], of v 0] len obtain ks1 where
    p: "push_dec v 0 ks = (of_nat (length ?ds), ks1)" "stack_has ks1 (ks_idx ks) (map of_nat ?ds)"
    by auto
  have n: "unat (of_nat (length ?ds) :: u32) = length ?ds" using len by (simp add: unat_of_nat)
  have "pop_loop put dec_digit 0 (of_nat (length ?ds)) ks1 s =
      map_option (Pair (ks1\<lparr>ks_idx := ks_idx ks\<rparr>)) (put_all put (map (dec_digit \<circ> of_nat) (rev ?ds)) s)" for s
    using len by (subst pop_loop_stack [OF p(2)]) (simp_all add: n rev_map)
  moreover have "unat v \<noteq> 0" using False by (simp add: unat_eq_0)
  ultimately show ?thesis using False p(1)
    by (intro exI [of _ "ks1\<lparr>ks_idx := ks_idx ks\<rparr>"]) (simp add: print_dec_def dec_text_def)
qed

section \<open>The output of kprintf\<close>

text \<open>
  \<open>renders strings m cs args out\<close>: the format \<open>cs\<close> with the words \<open>args\<close> denotes the characters \<open>out\<close>.
  A percent sign that no directive follows is replaced by the warning, and the character after it
  is printed as any other.
\<close>

definition directive :: "bool \<Rightarrow> u8 \<Rightarrow> bool" where
  "directive strings d \<longleftrightarrow> d \<in> set (lit ''%cdxX'') \<or> strings \<and> d = of_char CHR ''s''"

definition warning :: "u8 list" where
  "warning = lit ''[WARNING] Invalid printing format!\<newline>''"

inductive renders :: "bool \<Rightarrow> memory \<Rightarrow> u8 list \<Rightarrow> u32 list \<Rightarrow> u8 list \<Rightarrow> bool" for strings m where
  r_nil: "renders strings m [] args []"
| r_char: "c \<noteq> of_char CHR ''%'' \<Longrightarrow> renders strings m cs args out \<Longrightarrow>
    renders strings m (c # cs) args (c # out)"
| r_percent: "renders strings m cs args out \<Longrightarrow>
    renders strings m (lit ''%%'' @ cs) args (of_char CHR ''%'' # out)"
| r_c: "renders strings m cs args out \<Longrightarrow> renders strings m (lit ''%c'' @ cs) (a # args) (ucast a # out)"
| r_s: "strings \<Longrightarrow> cstring_at m a ds \<Longrightarrow> renders strings m cs args out \<Longrightarrow>
    renders strings m (lit ''%s'' @ cs) (a # args) (ds @ out)"
| r_d: "renders strings m cs args out \<Longrightarrow>
    renders strings m (lit ''%d'' @ cs) (a # args) (dec_text (unat a) @ out)"
| r_x: "renders strings m cs args out \<Longrightarrow>
    renders strings m (lit ''%x'' @ cs) (a # args) (hex_text 8 (unat a) @ out)"
| r_X: "renders strings m cs args out \<Longrightarrow>
    renders strings m (lit ''%X'' @ cs) (lo # hi # args)
      (hex_text 16 (unat (push_bit 32 (ucast hi) OR ucast lo :: u64)) @ out)"
| r_bad: "(case cs of [] \<Rightarrow> True | d # _ \<Rightarrow> \<not> directive strings d) \<Longrightarrow> renders strings m cs args out \<Longrightarrow>
    renders strings m (lit ''%'' @ cs) args (warning @ out)"

lemma write_str_loop_cstring:
  "cstring_at m (buf + i) cs \<Longrightarrow>
    write_str_loop put m buf i s = map_option (Pair (i + of_nat (length cs))) (put_all put cs s)"
proof (induction cs arbitrary: i s)
  case Nil
  then show ?case by (subst write_str_loop.simps) simp
next
  case (Cons c cs)
  then have "cstring_at m (buf + (i + 1)) cs" "m (buf + i) = c" "c \<noteq> 0" by (auto simp: add.assoc)
  with Cons.IH [of "i + 1"] show ?case
    by (subst write_str_loop.simps) (simp add: algebra_simps split: option.split)
qed

lemma write_str_cstring:
  "cstring_at m buf cs \<Longrightarrow> write_str put m buf s = map_option (Pair (of_nat (length cs))) (put_all put cs s)"
  using write_str_loop_cstring [of m buf 0 cs] by (simp add: write_str_def)

text \<open>The next two characters of the format, with the terminator for what lies beyond its end.\<close>

lemma cstring_at_head: "cstring_at m a cs \<Longrightarrow> m a = (case cs of [] \<Rightarrow> 0 | c # _ \<Rightarrow> c)"
  by (cases cs) auto

lemma kprintf_loop_step:
  assumes "cstring_at m (fmt + i) (c # cs)"
    and "kprintf_step strings put m c (case cs of [] \<Rightarrow> 0 | d # _ \<Rightarrow> d) args ks s = map_option (\<lambda>s'. (n, args', ks', s')) r"
    and "\<And>s'. kprintf_loop strings put m fmt (i + n) args' ks' s' = map_option (Pair ks'') (put_all put out s')"
  shows "kprintf_loop strings put m fmt i args ks s = map_option (Pair ks'') (Option.bind r (put_all put out))"
proof -
  have "m (fmt + i) = c" "c \<noteq> 0" "m (fmt + (i + 1)) = (case cs of [] \<Rightarrow> 0 | d # _ \<Rightarrow> d)"
    using assms(1) cstring_at_head [of m "fmt + (i + 1)" cs] by (auto simp: add.assoc)
  with assms(2,3) show ?thesis by (subst kprintf_loop.simps) (cases r; simp)
qed

lemma lit_simps [simp]: "lit [] = []" "lit (c # cs) = of_char c # lit cs"
  by (simp_all add: lit_def)

lemma put_all_one: "put_all put [c] s = put c s"
  by (simp split: option.split)

lemma kprintf_loop_case:
  assumes fmt: "cstring_at m (fmt + i) (c # rest)"
    and step: "\<And>s. kprintf_step strings put m c (case rest of [] \<Rightarrow> 0 | d # _ \<Rightarrow> d) args ks s =
      map_option (\<lambda>s'. (n, args', ks1, s')) (put_all put pre s)"
    and tail: "\<exists>ks'. ks_idx ks' = ks_idx ks1 \<and>
      (\<forall>s. kprintf_loop strings put m fmt (i + n) args' ks1 s = map_option (Pair ks') (put_all put out s))"
    and idx: "ks_idx ks1 = ks_idx ks"
  shows "\<exists>ks'. ks_idx ks' = ks_idx ks \<and>
    (\<forall>s. kprintf_loop strings put m fmt i args ks s = map_option (Pair ks') (put_all put (pre @ out) s))"
proof -
  from tail obtain ks' where ks': "ks_idx ks' = ks_idx ks1"
    "\<And>s. kprintf_loop strings put m fmt (i + n) args' ks1 s = map_option (Pair ks') (put_all put out s)" by auto
  have "kprintf_loop strings put m fmt i args ks s = map_option (Pair ks') (put_all put (pre @ out) s)" for s
    unfolding put_all_append by (rule kprintf_loop_step [OF fmt step ks'(2)])
  with ks'(1) idx show ?thesis by auto
qed

lemma kprintf_loop_renders:
  "renders strings m cs args out \<Longrightarrow> cstring_at m (fmt + i) cs \<Longrightarrow>
    \<exists>ks'. ks_idx ks' = ks_idx ks \<and>
      (\<forall>s. kprintf_loop strings put m fmt i args ks s = map_option (Pair ks') (put_all put out s))"
proof (induction arbitrary: i ks rule: renders.induct)
  case (r_nil args)
  then show ?case by (intro exI [of _ ks]) (subst kprintf_loop.simps, simp)
next
  case (r_char c cs args out)
  have "cstring_at m (fmt + (i + 1)) cs" using r_char.prems by (simp add: add.assoc)
  from kprintf_loop_case [OF r_char.prems _ r_char.IH [OF this], where pre = "[c]"] r_char.hyps
  show ?case by (simp add: kprintf_step_def put_all_one del: put_all.simps)
next
  case (r_percent cs args out)
  have "cstring_at m (fmt + (i + 2)) cs" using r_percent.prems by (simp add: add.assoc)
  from kprintf_loop_case [OF r_percent.prems [unfolded lit_simps append.simps] _ r_percent.IH [OF this], where pre = "lit ''%''"]
  show ?case by (simp add: kprintf_step_def put_all_one del: put_all.simps)
next
  case (r_c cs args out a)
  have "cstring_at m (fmt + (i + 2)) cs" using r_c.prems by (simp add: add.assoc)
  from kprintf_loop_case [OF r_c.prems [unfolded lit_simps append.simps] _ r_c.IH [OF this], where pre = "[ucast a]"]
  show ?case by (simp add: kprintf_step_def put_all_one del: put_all.simps)
next
  case (r_s a ds cs args out)
  have "cstring_at m (fmt + (i + 2)) cs" using r_s.prems by (simp add: add.assoc)
  from kprintf_loop_case [OF r_s.prems [unfolded lit_simps append.simps] _ r_s.IH [OF this], where pre = ds] r_s.hyps
  show ?case by (simp add: kprintf_step_def write_str_cstring option.map_comp comp_def del: put_all.simps)
next
  case (r_d cs args out a)
  have c: "cstring_at m (fmt + (i + 2)) cs" using r_d.prems by (simp add: add.assoc)
  obtain ks1 where k: "ks_idx ks1 = ks_idx ks"
    "\<And>s. print_dec put a ks s = map_option (Pair ks1) (put_all put (dec_text (unat a)) s)"
    using print_dec_text [of ks put a] by auto
  from kprintf_loop_case [OF r_d.prems [unfolded lit_simps append.simps] _ r_d.IH [OF c], where pre = "dec_text (unat a)"] k
  show ?case by (simp add: kprintf_step_def option.map_comp comp_def del: put_all.simps)
next
  case (r_x cs args out a)
  have c: "cstring_at m (fmt + (i + 2)) cs" using r_x.prems by (simp add: add.assoc)
  have u: "unat (ucast a :: u64) = unat a"
    using unat_bound32 [of a] by (simp add: unsigned_ucast_eq take_bit_eq_mod)
  obtain ks1 where k: "ks_idx ks1 = ks_idx ks"
    "\<And>s. print_hex put (ucast a) 32 ks s = map_option (Pair ks1) (put_all put (hex_text 8 (unat a)) s)"
    using print_hex_text [of 32 ks put "ucast a"] by (auto simp: u)
  from kprintf_loop_case [OF r_x.prems [unfolded lit_simps append.simps] _ r_x.IH [OF c], where pre = "hex_text 8 (unat a)"] k
  show ?case by (simp add: kprintf_step_def option.map_comp comp_def del: put_all.simps)
next
  case (r_X cs args out lo hi)
  have c: "cstring_at m (fmt + (i + 2)) cs" using r_X.prems by (simp add: add.assoc)
  let ?v = "push_bit 32 (ucast hi) OR ucast lo :: u64"
  obtain ks1 where k: "ks_idx ks1 = ks_idx ks"
    "\<And>s. print_hex put ?v 64 ks s = map_option (Pair ks1) (put_all put (hex_text 16 (unat ?v)) s)"
    using print_hex_text [of 64 ks put ?v] by auto
  from kprintf_loop_case [OF r_X.prems [unfolded lit_simps append.simps] _ r_X.IH [OF c], where pre = "hex_text 16 (unat ?v)"] k
  show ?case by (simp add: kprintf_step_def option.map_comp comp_def del: put_all.simps)
next
  case (r_bad cs args out)
  have c: "cstring_at m (fmt + (i + 1)) cs" using r_bad.prems by (simp add: add.assoc)
  from kprintf_loop_case [OF r_bad.prems [unfolded lit_simps append.simps] _ r_bad.IH [OF c], where pre = warning] r_bad.hyps
  show ?case
    by (auto simp: kprintf_step_def warning_def directive_def split: list.splits simp del: put_all.simps)
qed

lemma kprintf_renders:
  "renders strings m cs args out \<Longrightarrow> cstring_at m fmt cs \<Longrightarrow>
    \<exists>ks'. ks_idx ks' = ks_idx ks \<and> kprintf strings put m fmt args ks s = map_option (Pair ks') (put_all put out s)"
  using kprintf_loop_renders [of strings m cs args out fmt 0 ks put] by (auto simp: kprintf_def)

section \<open>Reading a number back\<close>

definition hex_val :: "u8 \<Rightarrow> nat" where
  "hex_val c = (if c \<le> of_char CHR ''9'' then unat c - 48 else unat c - 55)"

definition parse_digits :: "nat \<Rightarrow> u8 list \<Rightarrow> nat" where
  "parse_digits b cs = foldl (\<lambda>v c. b * v + hex_val c) 0 cs"

lemma hex_val_digit: "d < 16 \<Longrightarrow> hex_val (hex_digit (of_nat d)) = d"
proof -
  assume "d < 16"
  moreover have "\<forall>d \<in> set [0..<16]. hex_val (hex_digit (of_nat d)) = d"
    by (simp add: upt_rec hex_digit_def hex_val_def unat_of_nat)
  ultimately show ?thesis by simp
qed

lemma dec_val_digit: "d < 10 \<Longrightarrow> hex_val (dec_digit (of_nat d)) = d \<and> dec_digit (of_nat d) \<in> set (lit ''0123456789'')
    \<and> (dec_digit (of_nat d) = of_char CHR ''0'' \<longleftrightarrow> d = 0)"
proof -
  assume "d < 10"
  then have "d \<in> {0,1,2,3,4,5,6,7,8,9}" by auto
  then show ?thesis by (auto simp: dec_digit_def hex_val_def)
qed

lemma parse_digits_rev:
  assumes "2 \<le> b" and "\<And>d. d < b \<Longrightarrow> hex_val (f d) = d"
  shows "parse_digits b (map f (rev (digits_lsf b n))) = n"
proof -
  have "foldr (\<lambda>c v. b * v + hex_val c) (map f ds) 0 = foldr (\<lambda>d v. v * b + d) ds 0"
    if "\<forall>d \<in> set ds. d < b" for ds
    using that assms(2) by (induction ds) auto
  with digits_lsf_bound [OF assms(1)] show ?thesis
    by (simp add: parse_digits_def foldl_conv_foldr rev_map digits_lsf_value [OF assms(1)])
qed

lemma hex_text_shape:
  assumes "n < 16 ^ w"
  shows "length (hex_text w n) = 2 + w" and "take 2 (hex_text w n) = lit ''0x''"
    and "parse_digits 16 (drop 2 (hex_text w n)) = n"
proof -
  show "length (hex_text w n) = 2 + w"
    using digits_lsf_length [OF _ assms] by (simp add: hex_text_def)
  show "take 2 (hex_text w n) = lit ''0x''" by (simp add: hex_text_def)
  have "foldl (\<lambda>v c. 16 * v + hex_val c) 0 (replicate k (of_char CHR ''0'')) = 0" for k
    by (induction k) (auto simp: hex_val_def)
  then show "parse_digits 16 (drop 2 (hex_text w n)) = n"
    using parse_digits_rev [of 16 "hex_digit \<circ> of_nat" n] hex_val_digit
    by (simp add: hex_text_def parse_digits_def)
qed

lemma digits_lsf_last: "2 \<le> b \<Longrightarrow> n \<noteq> 0 \<Longrightarrow> digits_lsf b n \<noteq> [] \<and> last (digits_lsf b n) \<noteq> 0"
proof (induction b n rule: digits_lsf.induct)
  case (1 b n)
  show ?case
  proof (cases "n div b = 0")
    case True
    with 1 show ?thesis by (auto simp: digits_lsf_step div_eq_0_iff)
  next
    case False
    with 1 show ?thesis by (simp add: digits_lsf_step)
  qed
qed

lemma dec_text_shape:
  shows "parse_digits 10 (dec_text n) = n" and "set (dec_text n) \<subseteq> set (lit ''0123456789'')"
    and "n \<noteq> 0 \<Longrightarrow> hd (dec_text n) \<noteq> of_char CHR ''0''"
proof -
  show "parse_digits 10 (dec_text n) = n"
    using parse_digits_rev [of 10 "dec_digit \<circ> of_nat" n] dec_val_digit
    by (auto simp: dec_text_def parse_digits_def hex_val_def)
  show "set (dec_text n) \<subseteq> set (lit ''0123456789'')"
  proof (cases "n = 0")
    case False
    have "dec_digit (of_nat d) \<in> set (lit ''0123456789'')" if "d \<in> set (digits_lsf 10 n)" for d
      using dec_val_digit [of d] digits_lsf_bound [OF _ that] by (simp del: lit_simps)
    with False show ?thesis by (auto simp: dec_text_def simp del: lit_simps)
  qed (simp add: dec_text_def)
  show "hd (dec_text n) \<noteq> of_char CHR ''0''" if "n \<noteq> 0"
    using digits_lsf_last [of 10 n] that dec_val_digit [of "last (digits_lsf 10 n)"]
      digits_lsf_bound [of 10 "last (digits_lsf 10 n)" n]
    by (simp add: dec_text_def hd_map hd_rev)
qed

end
