(* ===== verification/Serial.thy ===== *)
theory Serial
  imports Ports Kprintf
begin

text \<open>
  The serial line (src/src/outputs/serial.cpp): initialisation, the wait for the transmitter and
  the output of characters. The answers of the line status register are a parameter; \<open>fair\<close> says
  that the transmitter becomes ready again and again, and without it \<open>write_char\<close> may wait for
  ever. What any device with a \<open>write_char\<close> owes its client is the locale \<open>char_device\<close>.
\<close>

section \<open>The driver\<close>

definition COM1 :: u32 where
  "COM1 = 0x3F8"

record serial =
  se_init :: bool
  se_ports :: ports

definition init_serial :: "ports \<Rightarrow> ports" where
  "init_serial p = outb (COM1 + 4) 0x0F (outb (COM1 + 0) 0xAE (outb (COM1 + 4) 0x1E
     (outb (COM1 + 4) 0x0B (outb (COM1 + 2) 0xC7 (outb (COM1 + 3) 0x03 (outb (COM1 + 1) 0x00
     (outb (COM1 + 0) 0x03 (outb (COM1 + 3) 0x80 (outb (COM1 + 1) 0x00 p)))))))))"

definition is_transmit_empty :: "ports \<Rightarrow> u8 \<times> ports" where
  "is_transmit_empty p = (let (v, p') = inb (COM1 + 5) p in (v AND 0x20, p'))"

partial_function (option) wait_transmit :: "ports \<Rightarrow> ports option" where
  "wait_transmit p =
     (let (r, p') = is_transmit_empty p in if r = 0 then wait_transmit p' else Some p')"

definition serial_write_char :: "u8 \<Rightarrow> serial \<Rightarrow> serial option" where
  "serial_write_char ch s =
     (let p = (if \<not> se_init s then init_serial (se_ports s) else se_ports s) in
      map_option (\<lambda>p'. \<lparr>se_init = True, se_ports = outb COM1 ch p'\<rparr>) (wait_transmit p))"

definition serial_write_str :: "memory \<Rightarrow> u32 \<Rightarrow> serial \<Rightarrow> (u32 \<times> serial) option" where
  "serial_write_str = write_str serial_write_char"

definition serial_write :: "memory \<Rightarrow> u32 \<Rightarrow> u32 \<Rightarrow> serial \<Rightarrow> (u32 \<times> serial) option" where
  "serial_write = write_buf serial_write_char"

definition serial_kprintf ::
  "memory \<Rightarrow> u32 \<Rightarrow> u32 list \<Rightarrow> kstack \<Rightarrow> serial \<Rightarrow> (kstack \<times> serial) option" where
  "serial_kprintf = kprintf True serial_write_char"

text \<open>A message whose text is known: what \<open>kprintf\<close> and \<open>write_str\<close> put for it.\<close>

definition serial_log :: "u8 list \<Rightarrow> serial \<Rightarrow> serial option" where
  "serial_log = put_all serial_write_char"

section \<open>Devices that take characters\<close>

locale char_device =
  fixes put :: "u8 \<Rightarrow> 's \<Rightarrow> 's option"
    and ok :: "'s \<Rightarrow> bool"
    and emitted :: "'s \<Rightarrow> u8 list"
  assumes put_ok: "ok s \<Longrightarrow> \<exists>s'. put c s = Some s' \<and> ok s' \<and> emitted s' = emitted s @ [c]"
begin

lemma put_all_output: "ok s \<Longrightarrow> \<exists>s'. put_all put cs s = Some s' \<and> ok s' \<and> emitted s' = emitted s @ cs"
proof (induction cs arbitrary: s)
  case (Cons c cs)
  from put_ok [OF Cons.prems, of c] obtain s1 where s1: "put c s = Some s1" "ok s1" "emitted s1 = emitted s @ [c]"
    by blast
  from Cons.IH [OF s1(2)] s1 show ?case by auto
qed simp

lemma kprintf_output:
  assumes "renders strings m cs args out" and "cstring_at m fmt cs" and "ok s"
  shows "\<exists>ks' s'. kprintf strings put m fmt args ks s = Some (ks', s') \<and> ks_idx ks' = ks_idx ks \<and>
    ok s' \<and> emitted s' = emitted s @ out"
  using kprintf_renders [OF assms(1,2), of ks put s] put_all_output [OF assms(3), of out] by auto

lemma write_str_output:
  assumes "cstring_at m buf cs" and "ok s"
  shows "\<exists>s'. write_str put m buf s = Some (of_nat (length cs), s') \<and> ok s' \<and> emitted s' = emitted s @ cs"
  using write_str_cstring [OF assms(1), of put s] put_all_output [OF assms(2), of cs] by auto

end

section \<open>The serial line as such a device\<close>

definition fair :: "ports \<Rightarrow> bool" where
  "fair p \<longleftrightarrow> (\<forall>n. \<exists>k \<ge> n. po_answers p (COM1 + 5) k AND 0x20 \<noteq> 0)"

definition serial_ok :: "serial \<Rightarrow> bool" where
  "serial_ok s \<longleftrightarrow> se_init s \<and> fair (se_ports s)"

definition serial_text :: "serial \<Rightarrow> u8 list" where
  "serial_text s = sent COM1 (se_ports s)"

lemma wait_transmit_ready:
  "po_reads p (COM1 + 5) \<le> k \<Longrightarrow> po_answers p (COM1 + 5) k AND 0x20 \<noteq> 0 \<Longrightarrow>
    \<exists>p'. wait_transmit p = Some p' \<and> po_answers p' = po_answers p \<and> po_writes p' = po_writes p"
proof (induction "k - po_reads p (COM1 + 5)" arbitrary: p rule: less_induct)
  case less
  let ?r = "po_reads p (COM1 + 5)"
  show ?case
  proof (cases "po_answers p (COM1 + 5) ?r AND 0x20 = 0")
    case False
    then show ?thesis
      by (subst wait_transmit.simps) (simp add: is_transmit_empty_def inb_def)
  next
    case True
    with less.prems have "?r \<noteq> k" by auto
    define p1 where "p1 = snd (inb (COM1 + 5) p)"
    have p1: "po_reads p1 (COM1 + 5) = ?r + 1" "po_answers p1 = po_answers p" "po_writes p1 = po_writes p"
      by (simp_all add: p1_def inb_def)
    have "\<exists>p'. wait_transmit p1 = Some p' \<and> po_answers p' = po_answers p1 \<and> po_writes p' = po_writes p1"
      using less.prems \<open>?r \<noteq> k\<close> by (intro less.hyps) (auto simp: p1)
    moreover have "wait_transmit p = wait_transmit p1"
      using True by (subst wait_transmit.simps) (simp add: is_transmit_empty_def inb_def p1_def)
    ultimately show ?thesis by (simp add: p1)
  qed
qed

lemma wait_transmit_fair:
  assumes "fair p"
  obtains p' where "wait_transmit p = Some p'" "fair p'" "po_writes p' = po_writes p"
proof -
  from assms obtain k where "po_reads p (COM1 + 5) \<le> k" "po_answers p (COM1 + 5) k AND 0x20 \<noteq> 0"
    by (auto simp: fair_def)
  from wait_transmit_ready [OF this] assms that show thesis by (auto simp: fair_def)
qed

lemma fair_outb [simp]: "fair (outb q v p) = fair p"
  by (simp add: fair_def)

lemma serial_put_ok:
  assumes "serial_ok s"
  shows "\<exists>s'. serial_write_char c s = Some s' \<and> serial_ok s' \<and> serial_text s' = serial_text s @ [c]"
proof -
  from assms have "fair (se_ports s)" by (simp add: serial_ok_def)
  then obtain p' where "wait_transmit (se_ports s) = Some p'" "fair p'" "po_writes p' = po_writes (se_ports s)"
    by (rule wait_transmit_fair)
  with assms show ?thesis
    by (auto simp: serial_write_char_def serial_ok_def serial_text_def sent_def)
qed

interpretation sline: char_device serial_write_char serial_ok serial_text
  by unfold_locales (rule serial_put_ok)

text \<open>The first character also programs the line.\<close>

lemma serial_first_char:
  assumes "\<not> se_init s" and "fair (se_ports s)"
  shows "\<exists>s'. serial_write_char c s = Some s' \<and> serial_ok s' \<and>
    po_writes (se_ports s') = po_writes (init_serial (se_ports s)) @ [(COM1, c)]"
proof -
  have "fair (init_serial (se_ports s))" using assms(2) by (simp add: init_serial_def)
  then obtain p' where "wait_transmit (init_serial (se_ports s)) = Some p'" "fair p'"
    "po_writes p' = po_writes (init_serial (se_ports s))" by (rule wait_transmit_fair)
  with assms show ?thesis by (auto simp: serial_write_char_def serial_ok_def)
qed

text \<open>A message is always sent over a fair line, initialised or not.\<close>

lemma fair_inb [simp]: "fair (snd (inb q p)) = fair p"
  by (simp add: fair_def)

lemma serial_log_returns:
  assumes "fair (se_ports s)"
  shows "\<exists>s'. serial_log cs s = Some s' \<and> fair (se_ports s')"
proof (cases cs)
  case (Cons c cs')
  obtain s1 where "serial_write_char c s = Some s1" "serial_ok s1"
    using assms serial_first_char [of s c] serial_put_ok [of s c]
    by (cases "se_init s") (auto simp: serial_ok_def)
  with sline.put_all_output [of s1 cs'] Cons show ?thesis
    by (auto simp: serial_log_def serial_ok_def)
qed (use assms in \<open>simp add: serial_log_def\<close>)

end
