(* ===== verification/Loader.thy ===== *)
theory Loader
  imports Paging Serial
begin

text \<open>
  The program loader (src/src/loader/loader.cpp). The file lies in kernel memory; the segments are
  copied to the virtual addresses the file asks for, through the page tables CR3 selects, so a
  byte whose page is not mapped is a page fault, after which the kernel halts: \<open>None\<close>. The local
  array with the magic number lies on the stack, at the parameter \<open>sp\<close>.
\<close>

section \<open>Fields of the file\<close>

definition PT_LOAD :: u32 where "PT_LOAD = 1"

definition e_entry :: "memory \<Rightarrow> u32 \<Rightarrow> u32" where "e_entry m e = load32 m (e + 24)"
definition e_phoff :: "memory \<Rightarrow> u32 \<Rightarrow> u32" where "e_phoff m e = load32 m (e + 28)"
definition e_phentsize :: "memory \<Rightarrow> u32 \<Rightarrow> u16" where "e_phentsize m e = load16 m (e + 42)"
definition e_phnum :: "memory \<Rightarrow> u32 \<Rightarrow> u16" where "e_phnum m e = load16 m (e + 44)"

definition p_type :: "memory \<Rightarrow> u32 \<Rightarrow> u32" where "p_type m p = load32 m p"
definition p_offset :: "memory \<Rightarrow> u32 \<Rightarrow> u32" where "p_offset m p = load32 m (p + 4)"
definition p_vaddr :: "memory \<Rightarrow> u32 \<Rightarrow> u32" where "p_vaddr m p = load32 m (p + 8)"
definition p_paddr :: "memory \<Rightarrow> u32 \<Rightarrow> u32" where "p_paddr m p = load32 m (p + 12)"
definition p_filesz :: "memory \<Rightarrow> u32 \<Rightarrow> u32" where "p_filesz m p = load32 m (p + 16)"

section \<open>The loader\<close>

text \<open>The object: the address of the file and the entry point, null until a file has been loaded.\<close>

definition Elf32_new :: "u32 \<Rightarrow> u32 \<times> u32" where
  [simp]: "Elf32_new elf = (elf, 0)"

text \<open>\<open>enter_userland\<close> is the assembly routine that leaves for the program.\<close>

definition run_process :: "(u32 \<Rightarrow> 's \<Rightarrow> 's) \<Rightarrow> u32 \<times> u32 \<Rightarrow> 's \<Rightarrow> 's" where
  "run_process enter_userland = (\<lambda>(elf_header, entry_point). enter_userland entry_point)"

definition store_magic :: "u32 \<Rightarrow> memory \<Rightarrow> memory" where
  "store_magic sp m = m(sp := 0x7F, sp + 1 := of_char CHR ''E'', sp + 2 := of_char CHR ''L'',
     sp + 3 := of_char CHR ''F'')"

definition verify_header :: "u32 \<Rightarrow> u32 \<Rightarrow> memory \<Rightarrow> bool \<times> memory" where
  "verify_header sp elf m =
     (let m' = store_magic sp m in (if memcmp elf sp 4 m' \<noteq> 0 then False else True, m'))"

text \<open>A write to a virtual address, and \<open>memcpy\<close> to one.\<close>

definition vwrite :: "u32 \<Rightarrow> u32 \<Rightarrow> u8 \<Rightarrow> memory \<Rightarrow> memory option" where
  "vwrite cr3 va b m =
     (case walk m cr3 va of None \<Rightarrow> None | Some pa \<Rightarrow> Some (m(P2V pa := b)))"

definition copy_to_virt :: "u32 \<Rightarrow> u32 \<Rightarrow> u32 \<Rightarrow> u32 \<Rightarrow> memory \<Rightarrow> memory option" where
  "copy_to_virt cr3 dst src sz m =
     for_from 0 sz (\<lambda>i r. case r of None \<Rightarrow> None | Some t \<Rightarrow> vwrite cr3 (dst + i) (t (src + i)) t) (Some m)"

definition load_segment :: "pmm \<Rightarrow> u32 \<Rightarrow> u32 \<Rightarrow> u32 \<Rightarrow> u32 \<Rightarrow> memory \<Rightarrow> memory option" where
  "load_segment P pd cr3 elf ph m =
     (let (phys_addr, m1) = allocate_frame P m; virt_addr = p_vaddr m1 ph;
          m2 = map_page P pd phys_addr (p_vaddr m1 ph) 7 m1
      in copy_to_virt cr3 virt_addr (elf + p_offset m2 ph) (p_filesz m2 ph) m2)"

definition phdr_log :: "memory \<Rightarrow> u32 \<Rightarrow> u8 list" where
  "phdr_log m ph = lit ''=== Program Header ===\<newline>    Type: '' @ hex_text 8 (unat (p_type m ph)) @
     lit ''\<newline>    Vaddr: '' @ hex_text 8 (unat (p_vaddr m ph)) @
     lit ''\<newline>    Paddr: '' @ hex_text 8 (unat (p_paddr m ph)) @ lit ''\<newline>''"

definition load_phdr :: "pmm \<Rightarrow> u32 \<Rightarrow> u32 \<Rightarrow> u32 \<Rightarrow> u32 \<Rightarrow> memory \<times> serial \<Rightarrow> (memory \<times> serial) option" where
  "load_phdr P pd cr3 elf ph = (\<lambda>(m, s).
     case serial_log (phdr_log m ph) s of None \<Rightarrow> None
     | Some s' \<Rightarrow>
         if p_type m ph = PT_LOAD \<and> p_filesz m ph \<noteq> 0
         then map_option (\<lambda>m'. (m', s')) (load_segment P pd cr3 elf ph m)
         else Some (m, s'))"

text \<open>The entry point is that of the object: null until a file has been loaded.\<close>

definition Elf32_load ::
  "pmm \<Rightarrow> u32 \<Rightarrow> u32 \<Rightarrow> u32 \<Rightarrow> u32 \<Rightarrow> u32 \<times> memory \<times> serial \<Rightarrow> (u32 \<times> memory \<times> serial) option" where
  "Elf32_load P pd cr3 sp elf = (\<lambda>(entry_point, m, s).
     let (good, m1) = verify_header sp elf m in
     if \<not> good
     then map_option (\<lambda>s'. (entry_point, m1, s')) (serial_log (lit ''[ELF] Invalid ELF magic!\<newline>'') s)
     else let ph_offset = e_phoff m1 elf; ph_count = ucast (e_phnum m1 elf);
              ph_size = ucast (e_phentsize m1 elf)
       in map_option (\<lambda>(m2, s2). (e_entry m2 elf, m2, s2))
            (for_from 0 ph_count
               (\<lambda>i r. case r of None \<Rightarrow> None
                 | Some ms \<Rightarrow> load_phdr P pd cr3 elf (elf + ph_offset + i * ph_size) ms)
               (Some (m1, s))))"

section \<open>The header\<close>

lemma verify_header_iff:
  assumes "\<And>k. k < 4 \<Longrightarrow> \<not> in_block sp 4 (elf + k)"
  shows "fst (verify_header sp elf m) \<longleftrightarrow>
    m elf = 0x7F \<and> m (elf + 1) = 0x45 \<and> m (elf + 2) = 0x4C \<and> m (elf + 3) = 0x46"
proof -
  have same: "store_magic sp m (elf + k) = m (elf + k)" if "k < 4" for k
  proof -
    have "\<not> elf + k - sp < 4" using assms [OF that] by (simp add: in_block_def)
    then have "elf + k \<noteq> sp + j" if "j < 4" for j
      using that by (auto simp: diff_eq_iff_add)
    from this [of 0] this [of 1] this [of 2] this [of 3] show ?thesis by (simp add: store_magic_def)
  qed
  have four: "k < 4 \<longleftrightarrow> k = 0 \<or> k = 1 \<or> k = 2 \<or> k = 3" for k :: u32
    by unat_arith
  have magic: "store_magic sp m sp = 0x7F" "store_magic sp m (sp + 1) = 0x45"
    "store_magic sp m (sp + 2) = 0x4C" "store_magic sp m (sp + 3) = 0x46"
    by (simp_all add: store_magic_def)
  show ?thesis
    using same [of 0] same [of 1] same [of 2] same [of 3] magic
    by (auto simp: verify_header_def Let_def memcmp_eq_0_iff four)
qed

section \<open>Writes to a page that no table uses\<close>

lemma walk_outside:
  assumes wf: "pd_wf m pd" and out: "outside_pd m pd q" and same: "\<And>x. page_of x \<noteq> q \<Longrightarrow> m' x = m x"
  shows "walk m' (update_cr3 pd) va = walk m (update_cr3 pd) va"
proof -
  have pd: "P2V (page_of (update_cr3 pd)) = pd" and al: "page_aligned pd"
    using wf by (auto simp: pd_wf_def cr3_of_directory)
  have pde: "pde m' pd (pd_index va) = pde m pd (pd_index va)"
    unfolding pde_def using out al by (intro load32_entry_cong same) (auto simp: outside_pd_def)
  have "load32 m' (entry (table_of (pde m pd (pd_index va))) (pt_index va)) =
      load32 m (entry (table_of (pde m pd (pd_index va))) (pt_index va))"
    if "present (pde m pd (pd_index va))"
    using out that by (intro load32_entry_cong same) (auto simp: outside_pd_def)
  then show ?thesis by (simp add: walk_pte_at pd pte_at_def pde Let_def)
qed

lemma page_offset: "unat (va AND 0xFFF) + unat k < 4096 \<Longrightarrow> page_of (va + k) = page_of va \<and>
    (va + k) AND 0xFFF = (va AND 0xFFF) + k" for va k :: u32
proof -
  assume lt: "unat (va AND 0xFFF) + unat k < 4096"
  have v: "va + k = page_of va + ((va AND 0xFFF) + k)" using page_of_plus [of va] by (simp add: algebra_simps)
  have "unat ((va AND 0xFFF) + k) = unat (va AND 0xFFF) + unat k"
    using lt by (subst unat_add_lem [THEN iffD1]) auto
  with lt have k: "(va AND 0xFFF) + k < 4096" by (simp add: word_less_nat_alt)
  then have pg: "page_of (va + k) = page_of va" unfolding v by (intro page_of_offset) auto
  have "page_of (va + k) + ((va + k) AND 0xFFF) = va + k" by (rule page_of_plus)
  with v pg show ?thesis by (metis add_left_cancel)
qed

lemma page_or: "page_aligned p \<Longrightarrow> k < 4096 \<Longrightarrow> p OR k = p + k" for p k :: u32
proof -
  assume p: "page_aligned p" and k: "k < 4096"
  have "take_bit 12 k = k"
    using k by (simp add: word_unat_eq_iff unsigned_take_bit_eq take_bit_nat_eq_self word_less_nat_alt)
  then have "bit k n \<longleftrightarrow> n < 12 \<and> bit k n" for n by (metis bit_take_bit_iff)
  moreover have "page_of p = p" using p by (simp add: page_aligned_def)
  then have "bit p n \<longleftrightarrow> bit (p AND NOT (mask 12)) n" for n by (simp add: page_of_def mask_12)
  ultimately have "p AND k = 0"
    by (intro bit_word_eqI) (auto simp: bit_simps)
  then show ?thesis by (simp add: disjunctive_add_eq_or)
qed

lemma P2V_offset:
  assumes "page_aligned p" "k < 4096"
  shows "P2V (p OR k) = P2V p + k"
proof -
  have "P2V (p OR k) = P2V p OR k" by (simp add: P2V_def ac_simps)
  with assms show ?thesis by (simp add: page_or page_aligned_P2V)
qed

text \<open>Copying into one page, through its mapping.\<close>

lemma copy_to_virt_page:
  assumes wf: "pd_wf m pd" and out: "outside_pd m pd (P2V fr)" and fr: "page_aligned fr"
    and tr: "\<And>k. k < sz \<Longrightarrow> walk m (update_cr3 pd) (va + k) = Some (fr OR (off + k))"
    and sz: "unat off + unat sz \<le> 4096" and src: "\<And>k. k < sz \<Longrightarrow> page_of (src + k) \<noteq> P2V fr"
  shows "\<exists>m'. copy_to_virt (update_cr3 pd) va src sz m = Some m' \<and> (\<forall>x. page_of x \<noteq> P2V fr \<longrightarrow> m' x = m x) \<and>
    (\<forall>k < sz. m' (P2V (fr OR (off + k))) = m (src + k))"
proof -
  let ?q = "P2V fr"
  have small: "off + k < 4096" if "k < sz" for k
  proof -
    have "unat (off + k) = unat off + unat k"
      using that sz by (subst unat_add_lem [THEN iffD1]) (auto simp: word_less_nat_alt)
    with that sz show ?thesis by (simp add: word_less_nat_alt)
  qed
  have at: "P2V (fr OR (off + k)) = ?q + (off + k)" if "k < sz" for k
    using P2V_offset [OF fr small [OF that]] .
  have in_q: "page_of (?q + (off + k)) = ?q" if "k < sz" for k
    using small [OF that] fr by (intro page_of_offset page_aligned_P2V)
  let ?I = "\<lambda>i r. \<exists>t. r = Some t \<and> (\<forall>x. page_of x \<noteq> ?q \<longrightarrow> t x = m x) \<and> (\<forall>k < i. t (?q + (off + k)) = m (src + k))"
  have "?I sz (copy_to_virt (update_cr3 pd) va src sz m)"
    unfolding copy_to_virt_def
  proof (rule for_from_invariant0 [where P = ?I])
    show "?I 0 (Some m)" by simp
    fix j r assume j: "j < sz" and "?I j r"
    then obtain t where t: "r = Some t" "\<And>x. page_of x \<noteq> ?q \<Longrightarrow> t x = m x"
      "\<And>k. k < j \<Longrightarrow> t (?q + (off + k)) = m (src + k)" by blast
    have "walk t (update_cr3 pd) (va + j) = Some (fr OR (off + j))"
      using walk_outside [OF wf out t(2)] tr [OF j] by simp
    then have w: "vwrite (update_cr3 pd) (va + j) (t (src + j)) t = Some (t(?q + (off + j) := m (src + j)))"
      using t(2) [OF src [OF j]] by (simp add: vwrite_def at [OF j])
    show "?I (j + 1) (case r of None \<Rightarrow> None | Some t \<Rightarrow> vwrite (update_cr3 pd) (va + j) (t (src + j)) t)"
      using t j in_q [OF j] by (auto simp: w less_suc_split)
  qed
  then show ?thesis using at by auto
qed

text \<open>
  A segment that does not fit the one page it is given: the first byte on the next page has no
  translation, and the copy does not return.
\<close>

lemma copy_to_virt_split:
  assumes "n < sz"
  shows "copy_to_virt cr3 va src sz m =
    (case copy_to_virt cr3 va src n m of None \<Rightarrow> None
     | Some t \<Rightarrow> if walk t cr3 (va + n) = None then None
         else for_from (n + 1) sz (\<lambda>i r. case r of None \<Rightarrow> None | Some t \<Rightarrow> vwrite cr3 (va + i) (t (src + i)) t)
           (vwrite cr3 (va + n) (t (src + n)) t))"
proof -
  let ?f = "\<lambda>i r. case r of None \<Rightarrow> None | Some t \<Rightarrow> vwrite cr3 (va + i) (t (src + i)) t"
  have none: "for_from i k ?f None = None" for i k
    by (rule for_from_keeps [where Q = "\<lambda>r. r = None"]) auto
  have "copy_to_virt cr3 va src sz m = for_from n sz ?f (copy_to_virt cr3 va src n m)"
    using assms unfolding copy_to_virt_def by (intro for_from_split) auto
  also have "\<dots> = for_from (n + 1) sz ?f (?f n (copy_to_virt cr3 va src n m))"
    using assms by (rule for_from_step)
  finally have "copy_to_virt cr3 va src sz m = for_from (n + 1) sz ?f (?f n (copy_to_virt cr3 va src n m))" .
  moreover have "vwrite cr3 (va + n) (t (src + n)) t = None" if "walk t cr3 (va + n) = None" for t
    using that by (simp add: vwrite_def)
  ultimately show ?thesis by (auto simp: none split: option.splits)
qed

lemma copy_to_virt_fault:
  assumes wf: "pd_wf m pd" and out: "outside_pd m pd (P2V fr)" and fr: "page_aligned fr"
    and tr: "\<And>k. k < n \<Longrightarrow> walk m (update_cr3 pd) (va + k) = Some (fr OR (off + k))"
    and n: "unat off + unat n \<le> 4096" "n < sz" and src: "\<And>k. k < n \<Longrightarrow> page_of (src + k) \<noteq> P2V fr"
    and unmapped: "walk m (update_cr3 pd) (va + n) = None"
  shows "copy_to_virt (update_cr3 pd) va src sz m = None"
proof -
  from copy_to_virt_page [OF wf out fr tr n(1) src] obtain t where
    t: "copy_to_virt (update_cr3 pd) va src n m = Some t" "\<And>x. page_of x \<noteq> P2V fr \<Longrightarrow> t x = m x" by blast
  with unmapped have "walk t (update_cr3 pd) (va + n) = None" by (simp add: walk_outside [OF wf out t(2)])
  with t(1) show ?thesis by (simp add: copy_to_virt_split [OF n(2)])
qed

section \<open>The page of a segment\<close>

lemma alloc_as_inv:
  assumes inv: "as_inv P m pd" and nz: "fst (allocate_frame P m) \<noteq> 0"
  defines "q \<equiv> P2V (fst (allocate_frame P m))" and "m1 \<equiv> snd (allocate_frame P m)"
  shows "as_inv P m1 pd" and "owned P m1 q" and "outside_pd m1 pd q"
    and "owned P m p \<Longrightarrow> owned P m1 p \<and> p \<noteq> q"
    and "bitmap_apart P (page_of x) \<Longrightarrow> m1 x = m x"
    and "outside_pd m1 pd p \<longleftrightarrow> outside_pd m pd p"
proof -
  from inv have fa: "fa_inv (P, m)" and ap: "tables_apart P m pd" and al: "page_aligned pd"
    by (auto simp: as_inv_def pd_wf_def)
  from fa nz obtain f where f: "allocate_frame P m = (f * FRAME_SIZE, snd (set_bit (pmm_bm P) f m))"
    "1 \<le> f" "f < pmm_nbFrames P" and fresh: "\<forall>q. owned P m q \<longrightarrow> q \<noteq> P2V (f * FRAME_SIZE)"
    by (rule allocated_frame)
  have used: "frame_used P j m1 \<longleftrightarrow> j = f \<or> frame_used P j m" for j
    using f fa by (simp add: m1_def frame_used_set fa_inv_def)
  show bytes: "bitmap_apart P (page_of x) \<Longrightarrow> m1 x = m x" for x
    unfolding m1_def by (rule allocate_frame_page)
  have pde: "pde m1 pd j = pde m pd j" if "j < 1024" for j
    unfolding pde_def using ap al that by (intro load32_entry_cong bytes) (auto simp: tables_apart_def)
  show own: "owned P m p \<Longrightarrow> owned P m1 p \<and> p \<noteq> q" for p
    using fresh f by (auto simp: q_def used elim: owned_mono)
  show "owned P m1 q" using f used by (auto simp: owned_def q_def)
  show out: "outside_pd m1 pd p \<longleftrightarrow> outside_pd m pd p" for p by (auto simp: outside_pd_def pde)
  have "outside_pd m pd q" using inv own by (auto simp: outside_pd_def as_inv_def)
  then show "outside_pd m1 pd q" by (simp add: out)
  show "as_inv P m1 pd"
    using inv own by (auto simp: as_inv_def fa_inv_def free_apart_def used pd_wf_def tables_apart_def pde)
qed

lemma map_page_keeps:
  assumes inv: "as_inv P m pd"
    and room: "present (pde m pd (pd_index va)) \<or> fst (allocate_frame P m) \<noteq> 0"
    and own: "owned P m p" and out: "outside_pd m pd p"
  shows "outside_pd (map_page P pd pa va flags m) pd p"
    and "page_of x = p \<Longrightarrow> bitmap_apart P p \<Longrightarrow> map_page P pd pa va flags m x = m x"
proof -
  let ?i = "pd_index va" and ?m1 = "with_table P pd va m"
  from inv have wf: "pd_wf m pd" and al: "page_aligned pd" "P2V pd = pd" and ap: "tables_apart P m pd"
    by (auto simp: as_inv_def pd_wf_def)
  note ready = as_inv_map_ready [OF inv room]
  note wt = with_table_ready [OF ready]
  have out1: "outside_pd ?m1 pd p" and bytes1: "page_of x = p \<Longrightarrow> bitmap_apart P p \<Longrightarrow> ?m1 x = m x"
  proof -
    show "outside_pd ?m1 pd p"
    proof (cases "present (pde m pd ?i)")
      case False
      let ?new = "P2V (fst (allocate_frame P m))"
      have nz: "fst (allocate_frame P m) \<noteq> 0" using room False by simp
      note ai = alloc_as_inv [OF inv nz]
      have new: "?new \<noteq> pd" "?new \<noteq> p" using ai(3,4) own by (auto simp: outside_pd_def)
      have "pde ?m1 pd j = (if j = ?i then PageEntry_new (V2P ?new) 7 else pde m pd j)" if "j < 1024" for j
        using False al that ap new by (simp add: with_table_def new_table_pde tables_apart_def)
      then show ?thesis using out new
        by (auto simp: outside_pd_def table_of_PageEntry_new page_aligned_P2V)
    qed (use out in \<open>simp add: with_table_def\<close>)
    show "page_of x = p \<Longrightarrow> bitmap_apart P p \<Longrightarrow> ?m1 x = m x"
    proof (cases "present (pde m pd ?i)")
      case False
      assume "page_of x = p" "bitmap_apart P p"
      moreover have "fst (allocate_frame P m) \<noteq> 0" using room False by simp
      ultimately show ?thesis using False al out alloc_as_inv(4) [OF inv _ own]
        by (simp add: with_table_def new_table_bytes outside_pd_def)
    qed (simp add: with_table_def)
  qed
  let ?t = "table_of (pde ?m1 pd ?i)"
  have t: "?t \<noteq> p" using out1 wt(2) by (auto simp: outside_pd_def)
  have "pde (map_page P pd pa va flags m) pd j = pde ?m1 pd j" if "j < 1024" for j
    using pd_wf_table [OF wt(1) _ wt(2)] that al by (simp add: map_page_split pde_store_other)
  with out1 show "outside_pd (map_page P pd pa va flags m) pd p" by (simp add: outside_pd_def)
  show "page_of x = p \<Longrightarrow> bitmap_apart P p \<Longrightarrow> map_page P pd pa va flags m x = m x"
    using t bytes1 al by (simp add: map_page_split store32_entry_outside)
qed

lemma alloc_walk:
  assumes inv: "as_inv P m pd"
  shows "walk (snd (allocate_frame P m)) (update_cr3 pd) va = walk m (update_cr3 pd) va"
proof -
  let ?m1 = "snd (allocate_frame P m)"
  from inv have ap: "tables_apart P m pd" and al: "page_aligned pd" and pd: "P2V (page_of (update_cr3 pd)) = pd"
    by (auto simp: as_inv_def pd_wf_def cr3_of_directory)
  have pde: "pde ?m1 pd (pd_index va) = pde m pd (pd_index va)"
    unfolding pde_def using ap al by (intro load32_entry_cong allocate_frame_page) (auto simp: tables_apart_def)
  have "load32 ?m1 (entry (table_of (pde m pd (pd_index va))) (pt_index va)) =
      load32 m (entry (table_of (pde m pd (pd_index va))) (pt_index va))"
    if "present (pde m pd (pd_index va))"
    using ap that by (intro load32_entry_cong allocate_frame_page) (auto simp: tables_apart_def)
  then show ?thesis by (simp add: walk_pte_at pd pte_at_def pde Let_def)
qed

text \<open>A byte of the kernel's own data: in a frame in use that holds no part of the page tables.\<close>

definition kernel_data :: "pmm \<Rightarrow> memory \<Rightarrow> u32 \<Rightarrow> u32 \<Rightarrow> bool" where
  "kernel_data P m pd x \<longleftrightarrow> owned P m (page_of x) \<and> outside_pd m pd (page_of x) \<and> bitmap_apart P (page_of x)"

text \<open>The state in which the bytes of a segment are copied.\<close>

lemma segment_mapped:
  assumes inv: "as_inv P m pd" and nz: "fst (allocate_frame P m) \<noteq> 0"
    and room: "present (pde m pd (pd_index va)) \<or> fst (allocate_frame P (snd (allocate_frame P m))) \<noteq> 0"
  defines "fr \<equiv> fst (allocate_frame P m)" and "m1 \<equiv> snd (allocate_frame P m)"
  defines "m2 \<equiv> map_page P pd fr va 7 m1"
  shows "pd_wf m2 pd" and "outside_pd m2 pd (P2V fr)" and "page_aligned fr"
    and "unat (va AND 0xFFF) + unat k < 4096 \<Longrightarrow>
      walk m2 (update_cr3 pd) (va + k) = Some (fr OR ((va AND 0xFFF) + k))"
    and "page_of vb \<noteq> page_of va \<Longrightarrow> walk m2 (update_cr3 pd) vb = walk m (update_cr3 pd) vb"
    and "kernel_data P m pd x \<Longrightarrow> m1 x = m x \<and> m2 x = m x \<and> page_of x \<noteq> P2V fr"
proof -
  note ai = alloc_as_inv [OF inv nz, folded fr_def m1_def]
  from inv have wf: "pd_wf m pd" and al: "page_aligned pd" and ap: "tables_apart P m pd"
    by (auto simp: as_inv_def pd_wf_def)
  have "pde m1 pd (pd_index va) = pde m pd (pd_index va)"
    unfolding pde_def using ap al by (intro load32_entry_cong ai(5)) (auto simp: tables_apart_def)
  with room have room1: "present (pde m1 pd (pd_index va)) \<or> fst (allocate_frame P m1) \<noteq> 0"
    by (simp add: m1_def)
  note ready = as_inv_map_ready [OF ai(1) room1] and keep = map_page_keeps [OF ai(1) room1]
  show "pd_wf m2 pd" unfolding m2_def by (rule map_page_pd_wf [OF ready])
  show "outside_pd m2 pd (P2V fr)" unfolding m2_def by (rule keep(1) [OF ai(2,3)])
  show fr: "page_aligned fr" by (simp add: fr_def)
  show "unat (va AND 0xFFF) + unat k < 4096 \<Longrightarrow>
      walk m2 (update_cr3 pd) (va + k) = Some (fr OR ((va AND 0xFFF) + k))"
    using page_offset [of va k] fr by (simp add: m2_def map_page_walk [OF ready] page_aligned_def)
  show "page_of vb \<noteq> page_of va \<Longrightarrow> walk m2 (update_cr3 pd) vb = walk m (update_cr3 pd) vb"
    by (simp add: m2_def map_page_walk [OF ready] alloc_walk [OF inv, folded m1_def])
  show "kernel_data P m pd x \<Longrightarrow> m1 x = m x \<and> m2 x = m x \<and> page_of x \<noteq> P2V fr"
    unfolding m2_def using ai(4-6) keep(2) [of "page_of x" x] by (simp add: kernel_data_def)
qed

lemma load32_kernel_data:
  assumes "\<And>j. j < 32 \<Longrightarrow> t (ph + j) = m (ph + j)" and "k \<le> 28"
  shows "load32 t (ph + k) = load32 m (ph + k)"
proof (rule load32_cong)
  fix x assume x: "x - (ph + k) < 4"
  define d where "d = x - (ph + k)"
  have "x = ph + (k + d)" "d < 4" using x by (auto simp: d_def)
  moreover have "k + d < 32" using assms(2) \<open>d < 4\<close> by unat_arith
  ultimately show "t x = m x" using assms(1) [of "k + d"] by simp
qed

lemma load_segment_eq:
  assumes inv: "as_inv P m pd" and nz: "fst (allocate_frame P m) \<noteq> 0"
    and room: "present (pde m pd (pd_index (p_vaddr m ph))) \<or>
      fst (allocate_frame P (snd (allocate_frame P m))) \<noteq> 0"
    and hdr: "\<And>j. j < 32 \<Longrightarrow> kernel_data P m pd (ph + j)"
  shows "load_segment P pd cr3 elf ph m =
    copy_to_virt cr3 (p_vaddr m ph) (elf + p_offset m ph) (p_filesz m ph)
      (map_page P pd (fst (allocate_frame P m)) (p_vaddr m ph) 7 (snd (allocate_frame P m)))"
proof -
  let ?m1 = "snd (allocate_frame P m)"
    and ?m2 = "map_page P pd (fst (allocate_frame P m)) (p_vaddr m ph) 7 (snd (allocate_frame P m))"
  note same = segment_mapped(6) [OF inv nz room]
  have "?m1 (ph + j) = m (ph + j)" "?m2 (ph + j) = m (ph + j)" if "j < 32" for j
    using same [OF hdr [OF that]] by auto
  note ld1 = load32_kernel_data [of ?m1, OF this(1)] and ld2 = load32_kernel_data [of ?m2, OF this(2)]
  have "p_vaddr ?m1 ph = p_vaddr m ph" "p_offset ?m2 ph = p_offset m ph" "p_filesz ?m2 ph = p_filesz m ph"
    using ld1 [of 8] ld2 [of 4] ld2 [of 16] by (simp_all add: p_vaddr_def p_offset_def p_filesz_def)
  then show ?thesis by (simp add: load_segment_def split_beta Let_def)
qed

lemma load_segment_correct:
  assumes inv: "as_inv P m pd" and nz: "fst (allocate_frame P m) \<noteq> 0"
    and room: "present (pde m pd (pd_index (p_vaddr m ph))) \<or>
      fst (allocate_frame P (snd (allocate_frame P m))) \<noteq> 0"
    and hdr: "\<And>j. j < 32 \<Longrightarrow> kernel_data P m pd (ph + j)"
    and src: "\<And>k. k < p_filesz m ph \<Longrightarrow> kernel_data P m pd (elf + p_offset m ph + k)"
    and fits: "unat (p_vaddr m ph AND 0xFFF) + unat (p_filesz m ph) \<le> 4096"
  shows "\<exists>m'. load_segment P pd (update_cr3 pd) elf ph m = Some m' \<and>
    (\<forall>k < p_filesz m ph. \<exists>pa. walk m' (update_cr3 pd) (p_vaddr m ph + k) = Some pa \<and>
       m' (P2V pa) = m (elf + p_offset m ph + k))"
proof -
  let ?va = "p_vaddr m ph" and ?sz = "p_filesz m ph" and ?src = "elf + p_offset m ph"
    and ?fr = "fst (allocate_frame P m)"
  let ?m2 = "map_page P pd ?fr ?va 7 (snd (allocate_frame P m))"
  note sm = segment_mapped [OF inv nz room]
  have tr: "walk ?m2 (update_cr3 pd) (?va + k) = Some (?fr OR ((?va AND 0xFFF) + k))" if "k < ?sz" for k
    using that fits by (intro sm(4)) (simp add: word_less_nat_alt)
  have bytes: "?m2 (?src + k) = m (?src + k)" "page_of (?src + k) \<noteq> P2V ?fr" if "k < ?sz" for k
    using sm(6) [OF src [OF that]] by auto
  from copy_to_virt_page [OF sm(1,2,3) tr fits bytes(2)] obtain m' where
    m': "copy_to_virt (update_cr3 pd) ?va ?src ?sz ?m2 = Some m'"
    "\<And>x. page_of x \<noteq> P2V ?fr \<Longrightarrow> m' x = ?m2 x"
    "\<And>k. k < ?sz \<Longrightarrow> m' (P2V (?fr OR ((?va AND 0xFFF) + k))) = ?m2 (?src + k)" by blast
  have "walk m' (update_cr3 pd) (?va + k) = Some (?fr OR ((?va AND 0xFFF) + k))" if "k < ?sz" for k
    using walk_outside [OF sm(1,2) m'(2)] tr [OF that] by simp
  with m'(1,3) bytes(1) show ?thesis by (auto simp: load_segment_eq [OF inv nz room hdr])
qed

text \<open>A segment that reaches the next page, when nothing is mapped there: the load page-faults.\<close>

lemma load_segment_fault:
  assumes inv: "as_inv P m pd" and nz: "fst (allocate_frame P m) \<noteq> 0"
    and room: "present (pde m pd (pd_index (p_vaddr m ph))) \<or>
      fst (allocate_frame P (snd (allocate_frame P m))) \<noteq> 0"
    and hdr: "\<And>j. j < 32 \<Longrightarrow> kernel_data P m pd (ph + j)"
    and src: "\<And>k. k < p_filesz m ph \<Longrightarrow> kernel_data P m pd (elf + p_offset m ph + k)"
    and big: "4096 < unat (p_vaddr m ph AND 0xFFF) + unat (p_filesz m ph)"
    and next_page: "walk m (update_cr3 pd) (page_of (p_vaddr m ph) + 4096) = None"
  shows "load_segment P pd (update_cr3 pd) elf ph m = None"
proof -
  let ?va = "p_vaddr m ph" and ?off = "p_vaddr m ph AND 0xFFF" and ?fr = "fst (allocate_frame P m)"
  define n where "n = 4096 - ?off"
  note sm = segment_mapped [OF inv nz room]
  have "unat ?off < 4096" by (simp add: unat_low_12)
  then have n: "unat n = 4096 - unat ?off" unfolding n_def by (simp add: unat_sub word_le_nat_alt)
  have vn: "?va + n = page_of ?va + 4096" using page_of_plus [of ?va] by (simp add: n_def algebra_simps)
  have "page_of (?va + n) \<noteq> page_of ?va"
    unfolding vn using in_page_iff [of "page_of ?va" "page_of ?va + 4096"] by (simp add: in_block_def)
  then have unmapped: "walk (map_page P pd ?fr ?va 7 (snd (allocate_frame P m))) (update_cr3 pd) (?va + n) = None"
    using sm(5) next_page vn by simp
  have lt: "n < p_filesz m ph" using big n \<open>unat ?off < 4096\<close> by (simp add: word_less_nat_alt)
  have "copy_to_virt (update_cr3 pd) ?va (elf + p_offset m ph) (p_filesz m ph)
      (map_page P pd ?fr ?va 7 (snd (allocate_frame P m))) = None"
  proof (rule copy_to_virt_fault [OF sm(1-3) _ _ lt _ unmapped])
    show "unat ?off + unat n \<le> 4096" using n \<open>unat ?off < 4096\<close> by simp
    fix k assume k: "k < n"
    then show "walk (map_page P pd ?fr ?va 7 (snd (allocate_frame P m))) (update_cr3 pd) (?va + k) =
        Some (?fr OR (?off + k))"
      using n by (intro sm(4)) (simp add: word_less_nat_alt)
    show "page_of (elf + p_offset m ph + k) \<noteq> P2V ?fr" using sm(6) src k lt by (auto dest: less_trans)
  qed
  then show ?thesis by (simp add: load_segment_eq [OF inv nz room hdr])
qed

end
