(* ===== verification/Space.thy ===== *)
theory Space
  imports Loader
begin

text \<open>
  The address space of a new process: what \<open>Process::create_process\<close> (src/src/userland/process.cpp)
  does before it loads the program. The kernel's directory is copied, two frames are taken, and the
  user stack is mapped at 0xBFFF0000 and one page further.
\<close>

section \<open>The directory of a process\<close>

text \<open>Result: directory, the frame of the user stack, the frame of the kernel stack, memory.\<close>

definition process_space :: "pmm \<Rightarrow> u32 \<Rightarrow> memory \<Rightarrow> u32 \<times> u32 \<times> u32 \<times> memory" where
  "process_space P kernel_pd m =
     (let (pd, m1) = Page_copy P kernel_pd m;
          (stack_ptr, m2) = allocate_frame P m1;
          (kernel_ptr, m3) = allocate_frame P m2;
          m4 = map_page P pd stack_ptr 0xBFFF0000 7 m3;
          m5 = map_page P pd (stack_ptr + 0x1000) 0xBFFF1000 7 m4
      in (pd, stack_ptr, kernel_ptr, m5))"

section \<open>Both directories after the copy\<close>

lemma write_outside_as_inv:
  assumes inv: "as_inv P m pd" and out: "outside_pd m pd q" and ap: "bitmap_apart P q"
    and same: "\<And>x. page_of x \<noteq> q \<Longrightarrow> m' x = m x"
  shows "as_inv P m' pd" and "owned P m' p = owned P m p" and "j < 1024 \<Longrightarrow> pde m' pd j = pde m pd j"
    and "free_apart P m'"
proof -
  have used: "frame_used P i m' = frame_used P i m" for i by (rule frame_used_write_page [OF ap same])
  then show own: "owned P m' p = owned P m p" for p by (simp add: owned_def)
  have al: "page_aligned pd" using inv by (simp add: as_inv_def pd_wf_def)
  show pde: "j < 1024 \<Longrightarrow> pde m' pd j = pde m pd j" for j
    unfolding pde_def using out al by (intro load32_entry_cong same) (auto simp: outside_pd_def)
  show "free_apart P m'" using inv by (simp add: as_inv_def free_apart_def used)
  then show "as_inv P m' pd"
    using inv by (simp add: as_inv_def fa_inv_def pd_wf_def tables_apart_def pde own)
qed

lemma Page_copy_as_inv:
  assumes inv: "as_inv P m pd" and nz: "fst (allocate_frame P m) \<noteq> 0"
  defines "new \<equiv> fst (Page_copy P pd m)" and "m' \<equiv> snd (Page_copy P pd m)"
  shows "as_inv P m' pd" and "as_inv P m' new" and "new \<noteq> pd"
    and "j < 1024 \<Longrightarrow> pde m' new j = pde m pd j" and "j < 1024 \<Longrightarrow> pde m' pd j = pde m pd j"
    and "owned P m q \<Longrightarrow> owned P m' q \<and> q \<noteq> new"
proof -
  define q where "q = P2V (fst (allocate_frame P m))"
  define m1 where "m1 = snd (allocate_frame P m)"
  note ai = alloc_as_inv [OF inv nz, folded q_def m1_def]
  have al: "page_aligned pd" and ap: "bitmap_apart P pd" using inv by (simp_all add: as_inv_def pd_wf_def tables_apart_def)
  have ne: "q \<noteq> pd" using ai(3) by (simp add: outside_pd_def)
  note bytes = Page_copy_bytes [OF al ne [unfolded q_def] ap, folded q_def m1_def]
  have new: "new = q" using bytes(1) by (simp add: new_def)
  have same: "page_of x \<noteq> q \<Longrightarrow> m' x = m1 x" for x using bytes(3) by (simp add: m'_def)
  obtain f where f: "fst (allocate_frame P m) = f * FRAME_SIZE" "1 \<le> f" "f < pmm_nbFrames P" "\<not> frame_used P f m"
    using inv nz by (auto simp: as_inv_def elim: allocated_frame)
  then have apq: "bitmap_apart P q" using inv by (auto simp: as_inv_def free_apart_def q_def)
  note wo = write_outside_as_inv [OF ai(1,3) apq same]
  show "as_inv P m' pd" by (rule wo(1))
  show "new \<noteq> pd" using ne new by simp
  have z: "(0 :: u32) < 1024" by simp
  have pde: "pde m' new j = pde m pd j" "pde m' pd j = pde m pd j" if "j < 1024" for j
    using Page_copy_effect(4,5) [OF inv nz that z] by (simp_all add: new_def m'_def)
  then show "j < 1024 \<Longrightarrow> pde m' new j = pde m pd j" "j < 1024 \<Longrightarrow> pde m' pd j = pde m pd j" by blast+
  show own: "owned P m q \<Longrightarrow> owned P m' q \<and> q \<noteq> new" for q using ai(4) wo(2) new by simp
  have "owned P m' new" using ai(2) wo(2) new by simp
  moreover have "page_aligned new" "P2V new = new" using Page_copy_effect(2,3) [OF inv nz z z] by (simp_all add: new_def)
  ultimately show "as_inv P m' new"
    using inv own wo(4) apq [folded new] by (auto simp: as_inv_def fa_inv_def pd_wf_def tables_apart_def pde)
qed

section \<open>Pages an edit does not touch\<close>

lemma map_page_bytes_present:
  assumes inv: "as_inv P m pd" and pr: "present (pde m pd (pd_index va))"
    and ne: "page_of x \<noteq> table_of (pde m pd (pd_index va))"
  shows "map_page P pd pa va flags m x = m x"
proof -
  have "P2V pd = pd" using inv by (simp add: as_inv_def pd_wf_def)
  with pr ne show ?thesis by (simp add: map_page_split with_table_def store32_entry_outside)
qed

lemma map_page_new_table:
  fixes pa flags :: u32
  assumes inv: "as_inv P m pd" and abs: "\<not> present (pde m pd (pd_index va))"
    and nz: "fst (allocate_frame P m) \<noteq> 0"
  defines "q \<equiv> P2V (fst (allocate_frame P m))" and "m' \<equiv> map_page P pd pa va flags m"
  shows "present (pde m' pd (pd_index va))" and "table_of (pde m' pd (pd_index va)) = q"
    and "owned P m p \<Longrightarrow> p \<noteq> q"
    and "owned P m (page_of x) \<Longrightarrow> page_of x \<noteq> pd \<Longrightarrow> bitmap_apart P (page_of x) \<Longrightarrow> m' x = m x"
proof -
  let ?i = "pd_index va" and ?m1 = "new_table P pd (pd_index va) m"
  note ai = alloc_as_inv [OF inv nz, folded q_def]
  have pd: "page_aligned pd" "P2V pd = pd" and ap: "bitmap_apart P pd"
    using inv by (simp_all add: as_inv_def pd_wf_def tables_apart_def)
  have q: "page_aligned q" "P2V q = q" "q \<noteq> pd" using ai(3) by (simp_all add: q_def page_aligned_P2V outside_pd_def)
  have e1: "pde ?m1 pd ?i = PageEntry_new (V2P q) 7"
    using pd ap q by (subst new_table_pde) (simp_all add: q_def)
  have t: "table_of (pde ?m1 pd ?i) = q" using q e1 by (simp add: table_of_PageEntry_new)
  have m': "m' = store32 (entry q (pt_index va)) (PageEntry_new pa (ucast flags)) ?m1"
    using abs pd by (simp add: m'_def map_page_split with_table_def t)
  have e2: "pde m' pd ?i = pde ?m1 pd ?i" using q pd by (simp add: m' pde_store_other)
  have "bit (7 :: u16) 0" by simp
  then show "present (pde m' pd ?i)" "table_of (pde m' pd ?i) = q"
    using q by (simp_all add: e2 e1 present_PageEntry_new table_of_PageEntry_new)
  show own: "owned P m p \<Longrightarrow> p \<noteq> q" for p using ai(4) by blast
  show "m' x = m x" if "owned P m (page_of x)" "page_of x \<noteq> pd" "bitmap_apart P (page_of x)"
    using that own [OF that(1)] q pd by (simp add: m' store32_entry_outside new_table_bytes q_def)
qed

lemma walk_cong:
  assumes wf: "pd_wf m pd"
    and dir: "\<And>x. page_of x = pd \<Longrightarrow> m' x = m x"
    and tab: "\<And>x i. i < 1024 \<Longrightarrow> present (pde m pd i) \<Longrightarrow> page_of x = table_of (pde m pd i) \<Longrightarrow> m' x = m x"
  shows "walk m' (update_cr3 pd) va = walk m (update_cr3 pd) va"
proof -
  have pd: "P2V (page_of (update_cr3 pd)) = pd" and al: "page_aligned pd"
    using wf by (auto simp: pd_wf_def cr3_of_directory)
  have pde: "pde m' pd (pd_index va) = pde m pd (pd_index va)"
    unfolding pde_def using al by (intro load32_entry_cong dir) auto
  have "load32 m' (entry (table_of (pde m pd (pd_index va))) (pt_index va)) =
      load32 m (entry (table_of (pde m pd (pd_index va))) (pt_index va))"
    if "present (pde m pd (pd_index va))"
    by (intro load32_entry_cong tab [OF _ that]) auto
  then show ?thesis by (simp add: walk_pte_at pd pte_at_def pde Let_def)
qed

section \<open>Frames left\<close>

definition free_frames :: "pmm \<Rightarrow> memory \<Rightarrow> u32 set" where
  "free_frames P m = {k. 1 \<le> k \<and> k < pmm_nbFrames P \<and> \<not> frame_used P k m}"

lemma free_frames_cong:
  "(\<And>i. frame_used P i m' = frame_used P i m) \<Longrightarrow> free_frames P m' = free_frames P m"
  by (simp add: free_frames_def)

lemma alloc_free_frames:
  assumes fa: "fa_inv (P, m)" and n: "Suc n \<le> card (free_frames P m)"
  shows "fst (allocate_frame P m) \<noteq> 0" and "n \<le> card (free_frames P (snd (allocate_frame P m)))"
proof -
  have "free_frames P m \<noteq> {}" using n by auto
  then show nz: "fst (allocate_frame P m) \<noteq> 0"
    using fa by (auto simp: free_frames_def fa_inv_def allocate_frame_zero_iff)
  obtain f where f: "allocate_frame P m = (f * FRAME_SIZE, snd (set_bit (pmm_bm P) f m))" "f < pmm_nbFrames P"
    using allocated_frame [OF fa nz] by blast
  have "free_frames P (snd (allocate_frame P m)) = free_frames P m - {f}"
    using f fa by (auto simp: free_frames_def frame_used_set fa_inv_def)
  moreover have "card (free_frames P m - {f}) \<ge> card (free_frames P m) - 1"
    using diff_card_le_card_Diff [of "{f}" "free_frames P m"] by simp
  ultimately show "n \<le> card (free_frames P (snd (allocate_frame P m)))" using n by simp
qed

lemma Page_copy_outside:
  assumes inv: "as_inv P m pd" and nz: "fst (allocate_frame P m) \<noteq> 0"
    and x: "page_of x \<noteq> fst (Page_copy P pd m)" "bitmap_apart P (page_of x)"
  shows "snd (Page_copy P pd m) x = m x"
proof -
  have "page_aligned pd" "bitmap_apart P pd" "P2V (fst (allocate_frame P m)) \<noteq> pd"
    using inv alloc_as_inv(3) [OF inv nz] by (auto simp: as_inv_def pd_wf_def tables_apart_def outside_pd_def)
  then show ?thesis
    using Page_copy_bytes(1,3) [of pd P m] x by (simp add: allocate_frame_page)
qed

lemma Page_copy_used:
  assumes inv: "as_inv P m pd" and nz: "fst (allocate_frame P m) \<noteq> 0"
  shows "frame_used P i (snd (Page_copy P pd m)) = frame_used P i (snd (allocate_frame P m))"
proof -
  have pd: "page_aligned pd" "bitmap_apart P pd" "P2V (fst (allocate_frame P m)) \<noteq> pd"
    using inv alloc_as_inv(3) [OF inv nz] by (auto simp: as_inv_def pd_wf_def tables_apart_def outside_pd_def)
  obtain f where "fst (allocate_frame P m) = f * FRAME_SIZE" "1 \<le> f" "f < pmm_nbFrames P" "\<not> frame_used P f m"
    using inv nz by (auto simp: as_inv_def elim: allocated_frame)
  then have "bitmap_apart P (P2V (fst (allocate_frame P m)))" using inv by (auto simp: as_inv_def free_apart_def)
  then show ?thesis by (rule frame_used_write_page) (rule Page_copy_bytes(3) [OF pd(1,3,2)])
qed


lemma Page_copy_free_frames:
  assumes "as_inv P m pd" "fst (allocate_frame P m) \<noteq> 0"
  shows "free_frames P (snd (Page_copy P pd m)) = free_frames P (snd (allocate_frame P m))"
  by (rule free_frames_cong) (rule Page_copy_used [OF assms])

section \<open>What the process sees\<close>

lemma stack_indices:
  "pd_index 0xBFFF1000 = pd_index 0xBFFF0000" "page_of 0xBFFF0000 = 0xBFFF0000" "page_of 0xBFFF1000 = 0xBFFF1000"
  by (simp_all add: pd_index_def page_of_def)

lemma page_of_next_frame: "page_aligned a \<Longrightarrow> page_of (a + 0x1000) = a + 0x1000"
proof -
  assume "page_aligned a"
  then have "4096 dvd unat (a + 0x1000)" by (simp add: page_aligned_iff unat_word_ariths dvd_mod)
  then show ?thesis by (simp add: page_aligned_iff [symmetric] page_aligned_def)
qed

lemma process_space_walk:
  assumes inv: "as_inv P m kpd" and abs: "\<not> present (pde m kpd (pd_index 0xBFFF0000))"
    and free: "4 \<le> card (free_frames P m)" and ps: "process_space P kpd m = (pd, stack_ptr, kernel_ptr, m')"
  shows "as_inv P m' pd"
    and "walk m' (update_cr3 pd) va = (if page_of va = 0xBFFF0000 then Some (stack_ptr OR (va AND 0xFFF))
      else if page_of va = 0xBFFF1000 then Some (stack_ptr + 0x1000 OR (va AND 0xFFF))
      else walk m (update_cr3 kpd) va)"
    and "walk m' (update_cr3 kpd) va = walk m (update_cr3 kpd) va"
proof -
  define m1 where "m1 = snd (Page_copy P kpd m)"
  define m2 where "m2 = snd (allocate_frame P m1)"
  define m3 where "m3 = snd (allocate_frame P m2)"
  define m4 where "m4 = map_page P pd stack_ptr 0xBFFF0000 7 m3"
  have r: "pd = fst (Page_copy P kpd m)" "stack_ptr = fst (allocate_frame P m1)" "kernel_ptr = fst (allocate_frame P m2)"
    "m' = map_page P pd (stack_ptr + 0x1000) 0xBFFF1000 7 m4"
    using ps by (auto simp: process_space_def split_beta Let_def m1_def m2_def m3_def m4_def)
  have fa: "fa_inv (P, t)" for t using inv by (simp add: as_inv_def fa_inv_def)
  have n0: "fst (allocate_frame P m) \<noteq> 0" "3 \<le> card (free_frames P (snd (allocate_frame P m)))"
    using alloc_free_frames [OF fa, of 3 m] free by simp_all
  have c1: "3 \<le> card (free_frames P m1)" using n0 Page_copy_free_frames [OF inv n0(1)] by (simp add: m1_def)
  have n1: "fst (allocate_frame P m1) \<noteq> 0" "2 \<le> card (free_frames P m2)"
    using alloc_free_frames [OF fa, of 2 m1] c1 by (simp_all add: m2_def)
  have n2: "fst (allocate_frame P m2) \<noteq> 0" "1 \<le> card (free_frames P m3)"
    using alloc_free_frames [OF fa, of 1 m2] n1 by (simp_all add: m3_def)
  have n3: "fst (allocate_frame P m3) \<noteq> 0" using alloc_free_frames(1) [OF fa, of 0 m3] n2 by simp
  note pc = Page_copy_as_inv [OF inv n0(1), folded m1_def r(1)]
  have pde3: "pde t pd j = pde m kpd j" if "j < 1024" "t \<in> {m1, m2, m3}" for t j
  proof -
    have al: "page_aligned pd" "bitmap_apart P pd" using pc(2) by (simp_all add: as_inv_def pd_wf_def tables_apart_def)
    then have "pde m2 pd j = pde m1 pd j" "pde m3 pd j = pde m2 pd j"
      unfolding pde_def m2_def m3_def using that by (auto intro!: load32_entry_cong allocate_frame_page)
    then show ?thesis using that pc(4) by auto
  qed
  have inv2: "as_inv P m2 pd" "as_inv P m2 kpd"
    using alloc_as_inv(1) [OF pc(2) n1(1)] alloc_as_inv(1) [OF pc(1) n1(1)] by (simp_all add: m2_def)
  have inv3: "as_inv P m3 pd" "as_inv P m3 kpd"
    using alloc_as_inv(1) [OF inv2(1) n2(1)] alloc_as_inv(1) [OF inv2(2) n2(1)] by (simp_all add: m3_def)
  have walk3: "walk m3 (update_cr3 pd) va = walk m (update_cr3 kpd) va"
    "walk m3 (update_cr3 kpd) va = walk m (update_cr3 kpd) va" for va
  proof -
    have "Page_copy P kpd m = (pd, m1)" using r by (simp add: m1_def prod_eq_iff)
    from Page_copy_walk [OF inv n0(1) this]
    show "walk m3 (update_cr3 pd) va = walk m (update_cr3 kpd) va"
      "walk m3 (update_cr3 kpd) va = walk m (update_cr3 kpd) va"
      using alloc_walk [OF inv2(1)] alloc_walk [OF inv2(2)] alloc_walk [OF pc(2)] alloc_walk [OF pc(1)]
      by (simp_all add: m2_def m3_def)
  qed
  have abs3: "\<not> present (pde m3 pd (pd_index 0xBFFF0000))" using abs pde3 [of "pd_index 0xBFFF0000" m3] by simp
  note nt = map_page_new_table(1,2,4) [OF inv3(1) abs3 n3, where pa = stack_ptr and flags = 7, folded m4_def]
  note fresh = map_page_new_table(3) [OF inv3(1) abs3 n3]
  have inv4: "as_inv P m4 pd" unfolding m4_def by (rule map_page_as_inv [OF inv3(1)]) (use n3 in simp)
  have pr4: "present (pde m4 pd (pd_index 0xBFFF1000))" using nt(1) by (simp add: stack_indices)
  show "as_inv P m' pd" unfolding r(4) by (rule map_page_as_inv [OF inv4]) (use pr4 in simp)
  have al: "page_of stack_ptr = stack_ptr" "page_of (stack_ptr + 0x1000) = stack_ptr + 0x1000"
    using r(2) page_of_next_frame by (simp_all add: page_aligned_def [symmetric])
  have ready3: "map_ready P m3 pd 0xBFFF0000" using n3 by (intro as_inv_map_ready [OF inv3(1)]) simp
  have "bit (7 :: u32) 0" by simp
  with map_page_walk [OF as_inv_map_ready [OF inv4 disjI1 [OF pr4]], of "stack_ptr + 0x1000" 7]
    map_page_walk [OF ready3, of stack_ptr 7]
  show "walk m' (update_cr3 pd) va = (if page_of va = 0xBFFF0000 then Some (stack_ptr OR (va AND 0xFFF))
      else if page_of va = 0xBFFF1000 then Some (stack_ptr + 0x1000 OR (va AND 0xFFF))
      else walk m (update_cr3 kpd) va)"
    unfolding r(4) m4_def by (simp add: stack_indices al walk3)
  have keep: "m' x = m3 x" if "owned P m3 (page_of x)" "page_of x \<noteq> pd" "bitmap_apart P (page_of x)" for x
  proof -
    have "page_of x \<noteq> table_of (pde m4 pd (pd_index 0xBFFF1000))"
      using nt(2) fresh that(1) by (simp add: stack_indices)
    then have "m' x = m4 x" unfolding r(4) using map_page_bytes_present [OF inv4 pr4] by simp
    also have "\<dots> = m3 x" using nt(3) that by simp
    finally show ?thesis .
  qed
  have "walk m' (update_cr3 kpd) va = walk m3 (update_cr3 kpd) va"
  proof (rule walk_cong)
    show "pd_wf m3 kpd" using inv3(2) by (simp add: as_inv_def)
    show "m' x = m3 x" if "page_of x = kpd" for x
      using inv3(2) pc(3) that by (intro keep) (auto simp: as_inv_def tables_apart_def)
    show "m' x = m3 x" if "i < 1024" "present (pde m3 kpd i)" "page_of x = table_of (pde m3 kpd i)" for x i
    proof (rule keep)
      have "outside_pd m1 kpd pd"
        using pc(3,6) inv pc(5) by (auto simp: outside_pd_def as_inv_def)
      then have "outside_pd m3 kpd pd"
        using alloc_as_inv(6) [OF pc(1) n1(1)] alloc_as_inv(6) [OF inv2(2) n2(1)] by (simp add: m2_def m3_def)
      then show "page_of x \<noteq> pd" using that by (auto simp: outside_pd_def)
      show "owned P m3 (page_of x)" "bitmap_apart P (page_of x)" using inv3(2) that
        by (auto simp: as_inv_def tables_apart_def)
    qed
  qed
  then show "walk m' (update_cr3 kpd) va = walk m (update_cr3 kpd) va" by (simp add: walk3)
qed

text \<open>
  The second stack page is not a frame of its own: no frame was taken for it. Frames are handed out
  in order, so when the next one is free it is the kernel stack, and the process may write to it.
\<close>

lemma process_space_exposes:
  assumes "as_inv P m kpd" "\<not> present (pde m kpd (pd_index 0xBFFF0000))" "4 \<le> card (free_frames P m)"
    and "process_space P kpd m = (pd, stack_ptr, stack_ptr + 0x1000, m')" and k: "k < 0x1000"
  shows "walk m' (update_cr3 pd) (0xBFFF1000 + k) = Some (stack_ptr + 0x1000 OR k)"
proof -
  have "page_of (0xBFFF1000 + k) = 0xBFFF1000" using k by (intro page_of_offset) (simp_all add: page_aligned_def page_of_def)
  moreover from this have "(0xBFFF1000 + k) AND 0xFFF = k" using page_of_plus [of "0xBFFF1000 + k"] by (metis add_left_cancel)
  ultimately show ?thesis using process_space_walk(2) [OF assms(1-4), of "0xBFFF1000 + k"] by simp
qed

lemma Page_copy_map_private:
  assumes inv: "as_inv P m pd" and abs: "\<not> present (pde m pd (pd_index va))"
    and free: "2 \<le> card (free_frames P m)" and c: "Page_copy P pd m = (new, m')"
  shows "walk (map_page P new pa va flags m') (update_cr3 pd) vb = walk m (update_cr3 pd) vb"
proof -
  have fa: "fa_inv (P, t)" for t using inv by (simp add: as_inv_def fa_inv_def)
  have nz: "fst (allocate_frame P m) \<noteq> 0" and "1 \<le> card (free_frames P (snd (allocate_frame P m)))"
    using alloc_free_frames [OF fa, of 1 m] free by simp_all
  then have "1 \<le> card (free_frames P m')" using Page_copy_free_frames [OF inv nz] c by simp
  then have nz': "fst (allocate_frame P m') \<noteq> 0" using alloc_free_frames(1) [OF fa, of 0 m'] by simp
  note pc = Page_copy_as_inv [OF inv nz, unfolded c fst_conv snd_conv]
  have "outside_pd m' pd new" using pc(3,5,6) inv by (auto simp: outside_pd_def as_inv_def)
  moreover have "\<not> present (pde m' new (pd_index va))" using abs pc(4) by simp
  ultimately have "walk (map_page P new pa va flags m') (update_cr3 pd) vb = walk m' (update_cr3 pd) vb"
    using nz' pc(3) by (intro map_page_isolated [OF pc(2,1)]) auto
  with Page_copy_walk(2) [OF inv nz c] show ?thesis by simp
qed

text \<open>Where the source has a table, the copy shares it: the mapping shows in both.\<close>

lemma Page_copy_map_shared:
  assumes inv: "as_inv P m pd" and pr: "present (pde m pd (pd_index va))"
    and nz: "fst (allocate_frame P m) \<noteq> 0" and c: "Page_copy P pd m = (new, m')"
  shows "walk (map_page P new pa va flags m') (update_cr3 pd) vb =
    (if page_of vb = page_of va then if bit flags 0 then Some (page_of pa OR (vb AND 0xFFF)) else None
     else walk m (update_cr3 pd) vb)"
proof -
  note pc = Page_copy_as_inv [OF inv nz, unfolded c fst_conv snd_conv]
  have "P2V new = new" "P2V pd = pd" using pc(1,2) by (simp_all add: as_inv_def pd_wf_def)
  moreover have "pde m' new (pd_index va) = pde m' pd (pd_index va)" "present (pde m' pd (pd_index va))"
    using pc(4,5) pr by simp_all
  ultimately have "map_page P new pa va flags m' = map_page P pd pa va flags m'"
    by (simp add: map_page_split with_table_def)
  moreover have "map_ready P m' pd va" using pc(5) pr by (intro as_inv_map_ready [OF pc(1)]) simp
  ultimately show ?thesis using map_page_walk [of P m' pd va] Page_copy_walk(2) [OF inv nz c] by simp
qed

end
