(* ===== verification/Process.thy ===== *)
theory Process
  imports Kfree Space
begin

text \<open>
  Processes and the round-robin scheduler (src/src/userland/process.cpp). A \<open>Process\<close> lies in the
  heap: the page directory at 0, the saved registers (\<open>interrupt_state\<close>, 56 bytes) at 4, the next
  process at 64 and the kernel stack at 68. The three statics and CR3 complete the state.
\<close>

section \<open>State\<close>

definition SIZEOF_STATE :: u32 where "SIZEOF_STATE = 56"
definition SIZEOF_PROCESS :: u32 where "SIZEOF_PROCESS = 72"

definition PR_REGS :: u32 where "PR_REGS = 4"
definition PR_NEXT :: u32 where "PR_NEXT = 64"
definition PR_KSTACK :: u32 where "PR_KSTACK = 68"

text \<open>Offsets in \<open>interrupt_state\<close>.\<close>

definition ST_EDI :: u32 where "ST_EDI = 0"
definition ST_ESI :: u32 where "ST_ESI = 4"
definition ST_EBP :: u32 where "ST_EBP = 8"
definition ST_EDX :: u32 where "ST_EDX = 12"
definition ST_ECX :: u32 where "ST_ECX = 16"
definition ST_EBX :: u32 where "ST_EBX = 20"
definition ST_EAX :: u32 where "ST_EAX = 24"
definition ST_INT :: u32 where "ST_INT = 28"
definition ST_EIP :: u32 where "ST_EIP = 36"
definition ST_CS :: u32 where "ST_CS = 40"
definition ST_EFLAGS :: u32 where "ST_EFLAGS = 44"
definition ST_USER_ESP :: u32 where "ST_USER_ESP = 48"
definition ST_USER_SS :: u32 where "ST_USER_SS = 52"

record sched =
  sc_processes :: u32
  sc_current :: u32
  sc_init :: bool
  sc_cr3 :: u32

section \<open>Operations\<close>

definition enable_scheduling :: "sched \<Rightarrow> sched" where
  "enable_scheduling c = c\<lparr>sc_init := True\<rparr>"

definition switch_process :: "u32 \<Rightarrow> sched \<times> memory \<Rightarrow> sched \<times> memory" where
  "switch_process state = (\<lambda>(c, m).
     if \<not> sc_init c \<or> sc_current c = 0 then (c, m)
     else let m1 = memcpy (sc_current c + PR_REGS) state SIZEOF_STATE m;
              nxt = load32 m1 (sc_current c + PR_NEXT);
              cur = (if nxt \<noteq> 0 then nxt else sc_processes c);
              cr3 = update_cr3 (load32 m1 cur)
       in (c\<lparr>sc_current := cur, sc_cr3 := cr3\<rparr>, memcpy state (cur + PR_REGS) SIZEOF_STATE m1))"

text \<open>The registers of a new process.\<close>

definition init_regs :: "u32 \<Rightarrow> u32 \<Rightarrow> memory \<Rightarrow> memory" where
  "init_regs p entry_point m =
     store32 (p + PR_REGS + ST_EFLAGS) 0x202
      (store32 (p + PR_REGS + ST_EBP) 0xBFFF0000
       (store32 (p + PR_REGS + ST_USER_SS) 0x23
        (store32 (p + PR_REGS + ST_USER_ESP) 0xBFFF1000
         (store32 (p + PR_REGS + ST_CS) 0x1B
          (store32 (p + PR_REGS + ST_EIP) entry_point m)))))"

partial_function (option) last_process :: "u32 \<Rightarrow> memory \<Rightarrow> u32 option" where
  "last_process p m =
     (let nxt = load32 m (p + PR_NEXT) in if nxt \<noteq> 0 then last_process nxt m else Some p)"

text \<open>
  \<open>elf\<close> and \<open>entry_point\<close> are the fields of the \<open>Elf32\<close> object, whose entry point the load sets; the
  result carries it, the scheduler, the heap and the serial line.
\<close>

definition create_process ::
  "pmm \<Rightarrow> u32 \<Rightarrow> u32 \<Rightarrow> u32 \<Rightarrow> u32 \<times> sched \<times> heap \<times> serial \<Rightarrow> (u32 \<times> sched \<times> heap \<times> serial) option" where
  "create_process P sp elf kernel_pd = (\<lambda>(entry_point, c, h, s).
     let (pd, stack_ptr, kernel_ptr, m5) = process_space P kernel_pd (hp_mem h)
     in case Elf32_load P pd (update_cr3 pd) sp elf (entry_point, m5, s) of None \<Rightarrow> None
     | Some (entry_point', m6, s') \<Rightarrow>
         (case kcalloc P 1 SIZEOF_PROCESS (h\<lparr>hp_mem := m6\<rparr>) of None \<Rightarrow> None
          | Some (p, h1) \<Rightarrow>
              let m7 = init_regs p entry_point' (hp_mem h1);
                  m8 = store32 p pd m7;
                  m9 = store32 (p + PR_KSTACK) (P2V (kernel_ptr + 0x1000)) m8;
                  c1 = c\<lparr>sc_cr3 := update_cr3 kernel_pd\<rparr>
              in if sc_processes c1 = 0
                 then Some (entry_point', c1\<lparr>sc_processes := p, sc_current := p\<rparr>, h1\<lparr>hp_mem := m9\<rparr>, s')
                 else map_option (\<lambda>l. (entry_point', c1,
                          h1\<lparr>hp_mem := store32 (l + PR_NEXT) p m9\<rparr>, s'))
                        (last_process (sc_processes c1) m9)))"

section \<open>The list of processes\<close>

text \<open>The saved registers of process \<open>p\<close>, and the registers on the stack at \<open>state\<close>, as bytes.\<close>

definition saved :: "memory \<Rightarrow> u32 \<Rightarrow> u32 \<Rightarrow> u8" where
  "saved m p k = m (p + PR_REGS + k)"

definition frame :: "memory \<Rightarrow> u32 \<Rightarrow> u32 \<Rightarrow> u8" where
  "frame m state k = m (state + k)"

fun plist :: "memory \<Rightarrow> u32 \<Rightarrow> u32 list \<Rightarrow> bool" where
  "plist m a [] \<longleftrightarrow> a = 0"
| "plist m a (p # ps) \<longleftrightarrow> a = p \<and> p \<noteq> 0 \<and> plist m (load32 m (p + PR_NEXT)) ps"

text \<open>Processes and the register frame do not overlap.\<close>

definition apart72 :: "u32 \<Rightarrow> u32 \<Rightarrow> bool" where
  "apart72 p q \<longleftrightarrow> (\<forall>x. \<not> (in_block p SIZEOF_PROCESS x \<and> in_block q SIZEOF_PROCESS x))"

definition procs_ok :: "memory \<Rightarrow> sched \<Rightarrow> u32 list \<Rightarrow> u32 \<Rightarrow> bool" where
  "procs_ok m c ps state \<longleftrightarrow> plist m (sc_processes c) ps \<and> distinct ps \<and> sc_init c \<and> sc_current c \<in> set ps \<and>
     (\<forall>p \<in> set ps. \<forall>q \<in> set ps. p \<noteq> q \<longrightarrow> apart72 p q) \<and>
     (\<forall>p \<in> set ps. \<forall>x. \<not> (in_block p SIZEOF_PROCESS x \<and> in_block state SIZEOF_STATE x))"

text \<open>The process after \<open>p\<close> in the circle.\<close>

definition next_in :: "u32 list \<Rightarrow> u32 \<Rightarrow> u32" where
  "next_in ps p = (case dropWhile (\<lambda>q. q \<noteq> p) ps of _ # q # _ \<Rightarrow> q | _ \<Rightarrow> hd ps)"

lemma plist_hd: "plist m a ps \<Longrightarrow> a = (if ps = [] then 0 else hd ps)"
  by (cases ps) auto

lemma plist_nonzero: "plist m a ps \<Longrightarrow> 0 \<notin> set ps"
  by (induction ps arbitrary: a) auto

lemma plist_append: "plist m a (pre @ p # post) \<Longrightarrow> plist m (load32 m (p + PR_NEXT)) post"
  by (induction pre arbitrary: a) auto

lemma next_in_split: "distinct (pre @ p # post) \<Longrightarrow> next_in (pre @ p # post) p = hd (post @ pre @ [p])"
proof -
  assume d: "distinct (pre @ p # post)"
  then have "dropWhile (\<lambda>q. q \<noteq> p) (pre @ p # post) = p # post"
    by (subst dropWhile_append2) auto
  then show ?thesis by (cases post; cases pre) (auto simp: next_in_def)
qed

lemma plist_next:
  assumes "plist m a ps" "distinct ps" "p \<in> set ps"
  shows "(if load32 m (p + PR_NEXT) \<noteq> 0 then load32 m (p + PR_NEXT) else hd ps) = next_in ps p"
proof -
  from assms(3) obtain pre post where ps: "ps = pre @ p # post" by (meson split_list)
  have "plist m (load32 m (p + PR_NEXT)) post" using assms(1) ps plist_append by simp
  with plist_hd [OF this] plist_nonzero [OF this] next_in_split [of pre p post] assms(2) ps
  show ?thesis by (cases post; cases pre) auto
qed

lemma next_in_mem: "distinct ps \<Longrightarrow> p \<in> set ps \<Longrightarrow> next_in ps p \<in> set ps"
  by (auto dest!: split_list simp: next_in_split) (auto simp: hd_append split: if_splits)

section \<open>A switch\<close>

lemma regs_in_process: "in_block (p + PR_REGS) SIZEOF_STATE x \<Longrightarrow> in_block p SIZEOF_PROCESS x"
proof -
  assume "in_block (p + PR_REGS) SIZEOF_STATE x"
  then have d: "x - (p + 4) < 56" by (simp add: in_block_def PR_REGS_def SIZEOF_STATE_def)
  have "x - p = (x - (p + 4)) + 4" by simp
  also have "\<dots> < 72" using d by unat_arith
  finally show ?thesis by (simp add: in_block_def SIZEOF_PROCESS_def)
qed

lemma state_apart:
  assumes "\<forall>x. \<not> (in_block p SIZEOF_PROCESS x \<and> in_block state SIZEOF_STATE x)"
  shows "SIZEOF_STATE \<le> (p + PR_REGS) - state" and "SIZEOF_STATE \<le> state - (p + PR_REGS)"
  using assms regs_in_process [of p] by (auto intro!: apart_blocks simp: SIZEOF_STATE_def)

lemma block_member: "k < n \<Longrightarrow> in_block a n (a + k)"
  by (simp add: in_block_def)

lemma field_not_reg: "k < 4 \<or> 60 \<le> k \<and> k < 72 \<Longrightarrow> \<not> in_block (p + PR_REGS) SIZEOF_STATE (p + k)"
proof -
  assume k: "k < 4 \<or> 60 \<le> k \<and> k < 72"
  have "p + k - (p + 4) = k - 4" by simp
  moreover have "\<not> k - 4 < 56" if "k < 4" using that by unat_arith simp
  moreover have "\<not> k - 4 < 56" if "60 \<le> k" "k < 72" using that by unat_arith
  ultimately show ?thesis using k by (auto simp: in_block_def PR_REGS_def SIZEOF_STATE_def)
qed

text \<open>What memory holds after the two copies.\<close>

lemma switch_process_effect:
  assumes ok: "procs_ok m c ps state" and sw: "switch_process state (c, m) = (c', m')"
  defines "p \<equiv> sc_current c" and "q \<equiv> next_in ps (sc_current c)"
  shows "sc_current c' = q" and "sc_cr3 c' = update_cr3 (load32 m q)"
    and "sc_processes c' = sc_processes c" and "sc_init c' = sc_init c"
    and "k < SIZEOF_STATE \<Longrightarrow> saved m' p k = frame m state k"
    and "k < SIZEOF_STATE \<Longrightarrow> frame m' state k = (if q = p then frame m state k else saved m q k)"
    and "\<not> in_block (p + PR_REGS) SIZEOF_STATE x \<Longrightarrow> \<not> in_block state SIZEOF_STATE x \<Longrightarrow> m' x = m x"
proof -
  define m1 where "m1 = memcpy (p + PR_REGS) state SIZEOF_STATE m"
  have pl: "plist m (sc_processes c) ps" "distinct ps" and p: "p \<in> set ps" and init: "sc_init c"
    and sa: "\<And>r. r \<in> set ps \<Longrightarrow> \<forall>x. \<not> (in_block r SIZEOF_PROCESS x \<and> in_block state SIZEOF_STATE x)"
    and ap: "\<And>r. r \<in> set ps \<Longrightarrow> r \<noteq> p \<Longrightarrow> apart72 r p"
    using ok by (auto simp: procs_ok_def p_def)
  have q: "q \<in> set ps" using p by (simp add: q_def p_def next_in_mem [OF pl(2)])
  have pz: "p \<noteq> 0"
  proof -
    have "plist m b xs \<Longrightarrow> 0 \<notin> set xs" for b xs by (induction xs arbitrary: b) auto
    with pl(1) p show ?thesis by auto
  qed
  have m1: "m1 x = (if in_block (p + PR_REGS) SIZEOF_STATE x then m (state + (x - (p + PR_REGS))) else m x)" for x
    unfolding m1_def using state_apart(1) [OF sa [OF p]] by (intro memcpy_apply) simp
  have field: "load32 m1 (p + k) = load32 m (p + k)" if "k = 0 \<or> k = 64" for k
  proof (rule load32_cong)
    fix x assume x: "x - (p + k) < 4"
    define d where "d = x - (p + k)"
    have "x = p + (k + d)" "d < 4" using x by (auto simp: d_def)
    moreover have "k + d < 4 \<or> 60 \<le> k + d \<and> k + d < 72" using that \<open>d < 4\<close> by (auto simp: word_less_nat_alt word_le_nat_alt unat_word_ariths)
    ultimately show "m1 x = m x" using field_not_reg [of "k + d" p] by (simp add: m1)
  qed
  have "load32 m1 q = load32 m q"
  proof (cases "q = p")
    case True
    with field [of 0] show ?thesis by simp
  next
    case False
    show ?thesis
    proof (rule load32_cong)
      fix x assume "x - q < 4"
      then have "in_block q SIZEOF_PROCESS x" by (auto simp: in_block_def SIZEOF_PROCESS_def elim: less_trans)
      then have "\<not> in_block (p + PR_REGS) SIZEOF_STATE x"
        using ap [OF q False] regs_in_process [of p x] by (auto simp: apart72_def)
      then show "m1 x = m x" by (simp add: m1)
    qed
  qed
  moreover have "(if load32 m1 (p + PR_NEXT) \<noteq> 0 then load32 m1 (p + PR_NEXT) else sc_processes c) = q"
    using plist_next [OF pl p] plist_hd [OF pl(1)] p field [of 64] by (auto simp: q_def p_def PR_NEXT_def)
  ultimately have sw': "c' = c\<lparr>sc_current := q, sc_cr3 := update_cr3 (load32 m q)\<rparr>"
    "m' = memcpy state (q + PR_REGS) SIZEOF_STATE m1"
    using sw init pz unfolding switch_process_def prod.case p_def [symmetric] m1_def [symmetric]
    by (simp_all add: Let_def)
  then show "sc_current c' = q" "sc_cr3 c' = update_cr3 (load32 m q)"
    "sc_processes c' = sc_processes c" "sc_init c' = sc_init c" by simp_all
  have m': "m' x = (if in_block state SIZEOF_STATE x then m1 (q + PR_REGS + (x - state)) else m1 x)" for x
    unfolding sw'(2) using state_apart(2) [OF sa [OF q]] by (intro memcpy_apply) simp
  show "\<not> in_block (p + PR_REGS) SIZEOF_STATE x \<Longrightarrow> \<not> in_block state SIZEOF_STATE x \<Longrightarrow> m' x = m x"
    by (simp add: m' m1)
  show "saved m' p k = frame m state k" if k: "k < SIZEOF_STATE"
  proof -
    have b: "in_block (p + PR_REGS) SIZEOF_STATE (p + PR_REGS + k)" using k by (rule block_member)
    then have "\<not> in_block state SIZEOF_STATE (p + PR_REGS + k)" using sa [OF p] regs_in_process by blast
    with b show ?thesis by (simp add: saved_def frame_def m' m1)
  qed
  show "frame m' state k = (if q = p then frame m state k else saved m q k)" if k: "k < SIZEOF_STATE"
  proof -
    have b: "in_block (q + PR_REGS) SIZEOF_STATE (q + PR_REGS + k)" using k by (rule block_member)
    have "\<not> in_block (p + PR_REGS) SIZEOF_STATE (q + PR_REGS + k)" if "q \<noteq> p"
      using ap [OF q that] b regs_in_process by (auto simp: apart72_def)
    with b k show ?thesis by (simp add: saved_def frame_def m' m1 block_member)
  qed
qed

section \<open>The scheduler keeps its list\<close>

lemma plist_cong:
  "plist m a ps \<Longrightarrow> (\<And>p. p \<in> set ps \<Longrightarrow> load32 m' (p + PR_NEXT) = load32 m (p + PR_NEXT)) \<Longrightarrow> plist m' a ps"
  by (induction ps arbitrary: a) auto

lemma next_in_process: "x - (p + PR_NEXT) < 4 \<Longrightarrow> in_block p SIZEOF_PROCESS x \<and> \<not> in_block (p + PR_REGS) SIZEOF_STATE x"
proof -
  assume x: "x - (p + PR_NEXT) < 4"
  define d where "d = x - (p + 64)"
  have d: "d < 4" using x by (simp add: d_def PR_NEXT_def)
  have e: "64 + d < 72" "60 \<le> 64 + d" using d
    by (simp_all add: word_less_nat_alt word_le_nat_alt unat_word_ariths)
  have xd: "x = p + (64 + d)" by (simp add: d_def)
  show ?thesis using field_not_reg [of "64 + d" p] e unfolding xd by (simp add: in_block_def SIZEOF_PROCESS_def)
qed

lemma procs_ok_cong:
  assumes "procs_ok m c ps state"
    and "sc_processes c' = sc_processes c" "sc_init c' = sc_init c" "sc_current c' \<in> set ps"
    and "\<And>p x. p \<in> set ps \<Longrightarrow> x - (p + PR_NEXT) < 4 \<Longrightarrow> m' x = m x"
  shows "procs_ok m' c' ps state"
proof -
  have "plist m' (sc_processes c) ps"
  proof (rule plist_cong)
    show "plist m (sc_processes c) ps" using assms(1) by (simp add: procs_ok_def)
    show "load32 m' (p + PR_NEXT) = load32 m (p + PR_NEXT)" if "p \<in> set ps" for p
      using assms(5) [OF that] by (intro load32_cong) simp
  qed
  with assms(1-4) show ?thesis by (simp add: procs_ok_def)
qed

lemma switch_process_ok:
  assumes ok: "procs_ok m c ps state" and sw: "switch_process state (c, m) = (c', m')"
  shows "procs_ok m' c' ps state"
proof (rule procs_ok_cong [OF ok])
  note eff = switch_process_effect [OF ok sw]
  show "sc_processes c' = sc_processes c" "sc_init c' = sc_init c" using eff(3,4) .
  have p: "sc_current c \<in> set ps" and d: "distinct ps" using ok by (simp_all add: procs_ok_def)
  show "sc_current c' \<in> set ps" using eff(1) next_in_mem [OF d p] by simp
  show "m' x = m x" if r: "r \<in> set ps" and x: "x - (r + PR_NEXT) < 4" for r x
  proof (rule eff(7))
    have b: "in_block r SIZEOF_PROCESS x" "\<not> in_block (r + PR_REGS) SIZEOF_STATE x"
      using next_in_process [OF x] by auto
    show "\<not> in_block state SIZEOF_STATE x" using ok r b(1) by (auto simp: procs_ok_def)
    show "\<not> in_block (sc_current c + PR_REGS) SIZEOF_STATE x"
    proof (cases "r = sc_current c")
      case False
      then have "apart72 r (sc_current c)" using ok r p by (auto simp: procs_ok_def)
      with b(1) show ?thesis using regs_in_process by (auto simp: apart72_def)
    qed (use b in simp)
  qed
qed

section \<open>Round robin\<close>

lemma next_in_nth:
  assumes d: "distinct ps" and i: "i < length ps"
  shows "next_in ps (ps ! i) = ps ! (Suc i mod length ps)"
proof -
  have ps: "ps = take i ps @ ps ! i # drop (Suc i) ps" using i by (rule id_take_nth_drop)
  have n: "next_in ps (ps ! i) = hd (drop (Suc i) ps @ take i ps @ [ps ! i])"
    using next_in_split [of "take i ps" "ps ! i" "drop (Suc i) ps"] d ps by simp
  show ?thesis
  proof (cases "Suc i = length ps")
    case True
    then have "take i ps @ [ps ! i] = ps" using ps by simp
    with n True i show ?thesis by (cases ps) auto
  next
    case False
    with i have "Suc i < length ps" by simp
    with n show ?thesis by (simp add: hd_append hd_drop_conv_nth)
  qed
qed

lemma next_in_iterate:
  assumes "distinct ps" "i < length ps"
  shows "(next_in ps ^^ k) (ps ! i) = ps ! ((i + k) mod length ps)"
proof (induction k)
  case (Suc k)
  have "(i + k) mod length ps < length ps" using assms(2) by (intro mod_less_divisor) linarith
  then show ?case using Suc next_in_nth [OF assms(1), of "(i + k) mod length ps"] by (simp add: mod_Suc_eq)
qed (use assms in simp)

text \<open>
  What happens between two ticks is up to the processes: memory changes, but not the kernel's
  process objects; then the timer interrupt leaves a frame at \<open>state\<close> and the switch runs.
\<close>

definition procs_kept :: "u32 list \<Rightarrow> memory \<Rightarrow> memory \<Rightarrow> bool" where
  "procs_kept ps m m' \<longleftrightarrow> (\<forall>p \<in> set ps. \<forall>x. in_block p SIZEOF_PROCESS x \<longrightarrow> m' x = m x)"

inductive ticks :: "u32 list \<Rightarrow> u32 \<Rightarrow> nat \<Rightarrow> sched \<times> memory \<Rightarrow> sched \<times> memory \<Rightarrow> bool" for ps state where
  ticks_none: "ticks ps state 0 s s"
| ticks_work: "ticks ps state n s (c, m) \<Longrightarrow> procs_kept ps m m' \<Longrightarrow> ticks ps state n s (c, m')"
| ticks_tick: "ticks ps state n s s' \<Longrightarrow> ticks ps state (Suc n) s (switch_process state s')"

lemma ticks_exist: "\<exists>s'. ticks ps state n s s'"
  by (induction n) (blast intro: ticks_none ticks_tick)+

lemma ticks_run:
  "ticks ps state n s s' \<Longrightarrow> procs_ok (snd s) (fst s) ps state \<Longrightarrow>
    procs_ok (snd s') (fst s') ps state \<and> sc_current (fst s') = (next_in ps ^^ n) (sc_current (fst s))"
proof (induction rule: ticks.induct)
  case (ticks_work n s c m m')
  have "procs_ok m' c ps state"
  proof (rule procs_ok_cong)
    show "procs_ok m c ps state" using ticks_work by simp
    then show "sc_current c \<in> set ps" by (simp add: procs_ok_def)
    show "m' x = m x" if "p \<in> set ps" "x - (p + PR_NEXT) < 4" for p x
      using ticks_work(2) that next_in_process by (auto simp: procs_kept_def)
  qed simp_all
  with ticks_work show ?case by simp
next
  case (ticks_tick n s s')
  obtain c m where s': "s' = (c, m)" by (cases s')
  obtain c1 m1 where sw: "switch_process state (c, m) = (c1, m1)" by (cases "switch_process state (c, m)")
  have ok: "procs_ok m c ps state" using ticks_tick s' by simp
  show ?case using switch_process_ok [OF ok sw] switch_process_effect(1) [OF ok sw] ticks_tick s' sw by simp
qed simp

lemma ticks_round:
  assumes t: "ticks ps state (length ps) s s'" and ok: "procs_ok (snd s) (fst s) ps state"
  shows "sc_current (fst s') = sc_current (fst s)"
proof -
  have d: "distinct ps" and p: "sc_current (fst s) \<in> set ps" using ok by (simp_all add: procs_ok_def)
  then obtain i where i: "i < length ps" "sc_current (fst s) = ps ! i" by (auto simp: in_set_conv_nth)
  show ?thesis using ticks_run [OF t ok] next_in_iterate [OF d i(1), of "length ps"] i by simp
qed

lemma ticks_fair:
  assumes ok: "procs_ok m c ps state" and q: "q \<in> set ps"
  obtains n where "n < length ps" "\<And>s'. ticks ps state n (c, m) s' \<Longrightarrow> sc_current (fst s') = q"
proof -
  have d: "distinct ps" and p: "sc_current c \<in> set ps" using ok by (simp_all add: procs_ok_def)
  from p obtain i where i: "i < length ps" "sc_current c = ps ! i" by (auto simp: in_set_conv_nth)
  from q obtain j where j: "j < length ps" "q = ps ! j" by (auto simp: in_set_conv_nth)
  define n where "n = (j + length ps - i) mod length ps"
  have "(i + n) mod length ps = (i + (j + length ps - i)) mod length ps" by (simp add: n_def mod_add_right_eq)
  also have "\<dots> = j" using i j by simp
  finally have e: "(next_in ps ^^ n) (sc_current c) = q" using next_in_iterate [OF d i(1), of n] i j by simp
  show thesis
  proof (rule that)
    show "n < length ps" unfolding n_def using i by (intro mod_less_divisor) linarith
    show "sc_current (fst s') = q" if "ticks ps state n (c, m) s'" for s'
      using ticks_run [OF that] ok e by simp
  qed
qed

section \<open>A preempted process resumes where it was\<close>

text \<open>Work and ticks while process \<open>p\<close> does not run.\<close>

inductive away :: "u32 \<Rightarrow> u32 list \<Rightarrow> u32 \<Rightarrow> sched \<times> memory \<Rightarrow> sched \<times> memory \<Rightarrow> bool" for p ps state where
  away_none: "away p ps state s s"
| away_work: "away p ps state s (c, m) \<Longrightarrow> procs_kept ps m m' \<Longrightarrow> away p ps state s (c, m')"
| away_tick: "away p ps state s s' \<Longrightarrow> sc_current (fst s') \<noteq> p \<Longrightarrow> away p ps state s (switch_process state s')"

lemma saved_kept: "procs_kept ps m m' \<Longrightarrow> p \<in> set ps \<Longrightarrow> k < SIZEOF_STATE \<Longrightarrow> saved m' p k = saved m p k"
  by (simp add: saved_def procs_kept_def regs_in_process block_member)

lemma switch_keeps_saved:
  assumes ok: "procs_ok m c ps state" and sw: "switch_process state (c, m) = (c', m')"
    and p: "p \<in> set ps" "p \<noteq> sc_current c" and k: "k < SIZEOF_STATE"
  shows "saved m' p k = saved m p k"
proof -
  have b: "in_block (p + PR_REGS) SIZEOF_STATE (p + PR_REGS + k)" using k by (rule block_member)
  have "sc_current c \<in> set ps" using ok by (simp add: procs_ok_def)
  then have "apart72 p (sc_current c)" using ok p by (auto simp: procs_ok_def)
  then have n1: "\<not> in_block (sc_current c + PR_REGS) SIZEOF_STATE (p + PR_REGS + k)"
    using b regs_in_process by (auto simp: apart72_def)
  have n2: "\<not> in_block state SIZEOF_STATE (p + PR_REGS + k)"
    using ok p(1) b regs_in_process by (auto simp: procs_ok_def)
  show ?thesis using switch_process_effect(7) [OF ok sw n1 n2] by (simp add: saved_def)
qed

lemma away_saved:
  "away p ps state s s' \<Longrightarrow> procs_ok (snd s) (fst s) ps state \<Longrightarrow> p \<in> set ps \<Longrightarrow> k < SIZEOF_STATE \<Longrightarrow>
    procs_ok (snd s') (fst s') ps state \<and> saved (snd s') p k = saved (snd s) p k"
proof (induction rule: away.induct)
  case (away_work s c m m')
  have "procs_ok m' c ps state"
  proof (rule procs_ok_cong)
    show "procs_ok m c ps state" using away_work by simp
    then show "sc_current c \<in> set ps" by (simp add: procs_ok_def)
    show "m' x = m x" if "p \<in> set ps" "x - (p + PR_NEXT) < 4" for p x
      using away_work(2) that next_in_process by (auto simp: procs_kept_def)
  qed simp_all
  with away_work show ?case by (simp add: saved_kept)
next
  case (away_tick s s')
  obtain c m where s': "s' = (c, m)" by (cases s')
  obtain c1 m1 where sw: "switch_process state (c, m) = (c1, m1)" by (cases "switch_process state (c, m)")
  have ok: "procs_ok m c ps state" using away_tick s' by simp
  show ?case using switch_process_ok [OF ok sw] switch_keeps_saved [OF ok sw] away_tick s' sw by simp
qed simp

text \<open>
  \<open>p\<close> is preempted with the registers \<open>frame m state\<close>; others run; a later tick picks \<open>p\<close> again: the
  registers on the stack are the ones it was preempted with.
\<close>

lemma switch_restores:
  assumes ok: "procs_ok m c ps state" and sw: "switch_process state (c, m) = s1"
    and aw: "away (sc_current c) ps state s1 (c2, m2)" and other: "sc_current c2 \<noteq> sc_current c"
    and again: "switch_process state (c2, m2) = (c3, m3)" "sc_current c3 = sc_current c"
    and k: "k < SIZEOF_STATE"
  shows "frame m3 state k = frame m state k"
proof -
  obtain c1 m1 where s1: "s1 = (c1, m1)" by (cases s1)
  have p: "sc_current c \<in> set ps" using ok by (simp add: procs_ok_def)
  have ok1: "procs_ok m1 c1 ps state" using switch_process_ok [OF ok] sw s1 by simp
  have ok2: "procs_ok m2 c2 ps state" and sv: "saved m2 (sc_current c) k = saved m1 (sc_current c) k"
    using away_saved [OF aw, of k] ok1 s1 p k by auto
  have "saved m1 (sc_current c) k = frame m state k"
    using switch_process_effect(5) [OF ok] sw s1 k by simp
  moreover have "frame m3 state k = saved m2 (sc_current c) k"
    using switch_process_effect(1,6) [OF ok2 again(1)] again(2) other k by simp
  ultimately show ?thesis using sv by simp
qed

section \<open>Appending a process\<close>

lemma last_process_append:
  assumes "plist m a ps" "ps \<noteq> []" and "p \<noteq> 0" "load32 m (p + PR_NEXT) = 0"
    and "distinct ps" "p \<notin> set ps"
    and "\<And>q r. q \<in> set (p # ps) \<Longrightarrow> r \<in> set (p # ps) \<Longrightarrow> q \<noteq> r \<Longrightarrow> apart72 q r"
  shows "last_process a m = Some (List.last ps) \<and> plist (store32 (List.last ps + PR_NEXT) p m) a (ps @ [p])"
  using assms
proof (induction ps arbitrary: a)
  case (Cons q ps)
  have a: "a = q" "q \<noteq> 0" "plist m (load32 m (q + PR_NEXT)) ps" using Cons.prems(1) by auto
  have far: "load32 (store32 (r + PR_NEXT) p m) (u + PR_NEXT) = load32 m (u + PR_NEXT)"
    if "u \<noteq> r" "r \<in> set (p # q # ps)" "u \<in> set (p # q # ps)" for u r
  proof (rule load32_cong)
    fix x assume "x - (u + PR_NEXT) < 4"
    then have "in_block u SIZEOF_PROCESS x" using next_in_process by simp
    moreover have "apart72 r u" using Cons.prems(7) that by metis
    ultimately have "\<not> x - (r + PR_NEXT) < 4" using next_in_process by (auto simp: apart72_def)
    then show "store32 (r + PR_NEXT) p m x = m x" by (simp add: store32_other)
  qed
  show ?case
  proof (cases ps)
    case Nil
    with a have "load32 m (q + PR_NEXT) = 0" by simp
    with a Nil Cons.prems far [of p q] show ?thesis
      by (subst last_process.simps) (auto simp: Let_def)
  next
    case (Cons r rs)
    then have nz: "load32 m (q + PR_NEXT) \<noteq> 0" using a plist_hd [of m "load32 m (q + PR_NEXT)" ps]
      plist_nonzero [of m "load32 m (q + PR_NEXT)" ps] by auto
    have ih: "last_process (load32 m (q + PR_NEXT)) m = Some (List.last ps) \<and>
        plist (store32 (List.last ps + PR_NEXT) p m) (load32 m (q + PR_NEXT)) (ps @ [p])"
      by (rule Cons.IH) (use Cons.prems a Cons in auto)
    have "List.last ps \<in> set ps" using Cons by auto
    moreover have "q \<noteq> List.last ps" using Cons.prems(5) calculation by auto
    ultimately have "load32 (store32 (List.last ps + PR_NEXT) p m) (q + PR_NEXT) = load32 m (q + PR_NEXT)"
      by (intro far) auto
    moreover have "List.last (q # ps) = List.last ps" "ps \<noteq> []" using Cons by simp_all
    moreover have "last_process q m = last_process (load32 m (q + PR_NEXT)) m"
      using nz by (subst last_process.simps) (simp add: Let_def)
    ultimately show ?thesis using ih a(1,2) by simp
  qed
qed simp

section \<open>The first switch\<close>

text \<open>
  \<open>create_process\<close> makes the first process current before it has run. The first tick after
  \<open>enable_scheduling\<close> therefore saves the interrupted kernel's registers over its initial ones.
\<close>

lemma first_switch_loses:
  assumes ok: "procs_ok m c ps state" and sw: "switch_process state (c, m) = (c', m')"
  shows "load32 m' (sc_current c + PR_REGS + ST_EIP) = load32 m (state + ST_EIP)"
proof -
  have "m' (sc_current c + PR_REGS + (ST_EIP + d)) = m (state + (ST_EIP + d))" if "d < 4" for d
  proof -
    have "ST_EIP + d < SIZEOF_STATE" using that
      by (simp add: ST_EIP_def SIZEOF_STATE_def word_less_nat_alt unat_word_ariths)
    from switch_process_effect(5) [OF ok sw this] show ?thesis by (simp add: saved_def frame_def)
  qed
  from this [of 0] this [of 1] this [of 2] this [of 3] show ?thesis
    by (simp add: load32_def add.assoc)
qed

lemma switch_returns_to:
  assumes ok: "procs_ok m c ps state" and sw: "switch_process state (c, m) = (c', m')"
    and ne: "next_in ps (sc_current c) \<noteq> sc_current c"
  shows "load32 m' (state + ST_EIP) = load32 m (next_in ps (sc_current c) + PR_REGS + ST_EIP)"
proof -
  have "m' (state + (ST_EIP + d)) = m (next_in ps (sc_current c) + PR_REGS + (ST_EIP + d))" if "d < 4" for d
  proof -
    have "ST_EIP + d < SIZEOF_STATE" using that
      by (simp add: ST_EIP_def SIZEOF_STATE_def word_less_nat_alt unat_word_ariths)
    from switch_process_effect(6) [OF ok sw this] ne show ?thesis by (simp add: saved_def frame_def)
  qed
  from this [of 0] this [of 1] this [of 2] this [of 3] show ?thesis
    by (simp add: load32_def add.assoc)
qed

section \<open>A new process\<close>

text \<open>The registers a process starts with: its entry point, ring 3, interrupts on, the top of its stack.\<close>

definition starts_at :: "memory \<Rightarrow> u32 \<Rightarrow> u32 \<Rightarrow> bool" where
  "starts_at m p entry_point \<longleftrightarrow>
     load32 m (p + PR_REGS + ST_EIP) = entry_point \<and> load32 m (p + PR_REGS + ST_CS) = 0x1B \<and>
     load32 m (p + PR_REGS + ST_USER_SS) = 0x23 \<and> load32 m (p + PR_REGS + ST_USER_ESP) = 0xBFFF1000 \<and>
     load32 m (p + PR_REGS + ST_EBP) = 0xBFFF0000 \<and> load32 m (p + PR_REGS + ST_EFLAGS) = 0x202"

lemma init_regs_starts:
  "starts_at (store32 (p + PR_KSTACK) k (store32 p pd (init_regs p e m))) p e"
  "load32 (store32 (p + PR_KSTACK) k (store32 p pd (init_regs p e m))) p = pd"
  by (simp_all add: starts_at_def init_regs_def PR_REGS_def PR_KSTACK_def ST_EIP_def ST_CS_def ST_USER_SS_def
      ST_USER_ESP_def ST_EBP_def ST_EFLAGS_def load_store32_other add.assoc)

text \<open>The first process becomes the list and the current one.\<close>

lemma create_process_first:
  assumes "sc_processes c = 0" and "create_process P sp elf kernel_pd (e, c, h, s) = Some (e', c', h', s')"
  shows "\<exists>p. c' = c\<lparr>sc_processes := p, sc_current := p, sc_cr3 := update_cr3 kernel_pd\<rparr> \<and>
    starts_at (hp_mem h') p e' \<and>
    load32 (hp_mem h') p = fst (process_space P kernel_pd (hp_mem h)) \<and>
    load32 (hp_mem h') (p + PR_KSTACK) = P2V (fst (snd (snd (process_space P kernel_pd (hp_mem h)))) + 0x1000)"
proof -
  obtain pd stack_ptr kernel_ptr m5 where ps: "process_space P kernel_pd (hp_mem h) = (pd, stack_ptr, kernel_ptr, m5)"
    by (rule prod_cases4)
  from assms obtain p m7 where r: "c' = c\<lparr>sc_cr3 := update_cr3 kernel_pd, sc_processes := p, sc_current := p\<rparr>"
    "hp_mem h' = store32 (p + PR_KSTACK) (P2V (kernel_ptr + 0x1000)) (store32 p pd (init_regs p e' m7))"
    by (auto simp: create_process_def ps Let_def split: option.splits prod.splits)
  show ?thesis unfolding r(2) by (intro exI [of _ p]) (simp add: r(1) ps init_regs_starts)
qed

end
