(* ===== verification/Keyboard.thy ===== *)
theory Keyboard
  imports Serial
begin

text \<open>
  The PS/2 keyboard (src/src/devices/keyboard.cpp): the scan code table, the modifier column, the
  queue of 256 characters, the interrupt handler and \<open>getchar\<close>. The handler and \<open>getchar\<close> are the
  steps of a state machine, which refines a queue of characters that a full buffer empties.
\<close>

section \<open>Tables\<close>

definition KEYBOARD_DATA_PORT :: u32 where
  "KEYBOARD_DATA_PORT = 0x60"

definition KEYBOARD_QUEUE_SIZE :: u32 where
  "KEYBOARD_QUEUE_SIZE = 256"

text \<open>The initialised rows; the array has 128, and the rest are zero.\<close>

definition scancode_columns :: "u8 list list" where
  "scancode_columns = [
    [0xFF, 0xFF, 0xFF, 0xFF], [0x1B, 0x1B, 0x1B, 0x1B], [0x31, 0x21, 0x31, 0x31],
    [0x32, 0x40, 0x32, 0x32], [0x33, 0x23, 0x33, 0x33], [0x34, 0x24, 0x34, 0x34],
    [0x35, 0x25, 0x35, 0x35], [0x36, 0x5E, 0x36, 0x36], [0x37, 0x26, 0x37, 0x37],
    [0x38, 0x2A, 0x38, 0x38], [0x39, 0x28, 0x39, 0x39], [0x30, 0x29, 0x30, 0x30],
    [0x2D, 0x5F, 0x2D, 0x2D], [0x3D, 0x2B, 0x3D, 0x3D], [0x08, 0x08, 0x7F, 0x08],
    [0x09, 0x09, 0x09, 0x09], [0x71, 0x51, 0x71, 0x71], [0x77, 0x57, 0x77, 0x77],
    [0x65, 0x45, 0x65, 0x65], [0x72, 0x52, 0x72, 0x72], [0x74, 0x54, 0x74, 0x74],
    [0x79, 0x59, 0x79, 0x79], [0x75, 0x55, 0x75, 0x75], [0x69, 0x49, 0x69, 0x69],
    [0x6F, 0x4F, 0x6F, 0x6F], [0x70, 0x50, 0x70, 0x70], [0x5B, 0x7B, 0x5B, 0x5B],
    [0x5D, 0x7D, 0x5D, 0x5D], [0x0A, 0x0A, 0x0A, 0x0A], [0xFF, 0xFF, 0xFF, 0xFF],
    [0x61, 0x41, 0x61, 0x61], [0x73, 0x53, 0x73, 0x73], [0x64, 0x44, 0x64, 0x64],
    [0x66, 0x46, 0x66, 0x66], [0x67, 0x47, 0x67, 0x67], [0x68, 0x48, 0x68, 0x68],
    [0x6A, 0x4A, 0x6A, 0x6A], [0x6B, 0x4B, 0x6B, 0x6B], [0x6C, 0x4C, 0x6C, 0x6C],
    [0x3B, 0x3A, 0x3B, 0x3B], [0x27, 0x22, 0x27, 0x27], [0x60, 0x7E, 0x60, 0x60],
    [0xFF, 0xFF, 0xFF, 0xFF], [0x5C, 0x7C, 0x5C, 0x5C], [0x7A, 0x5A, 0x7A, 0x7A],
    [0x78, 0x58, 0x78, 0x78], [0x63, 0x43, 0x63, 0x63], [0x76, 0x56, 0x76, 0x76],
    [0x62, 0x42, 0x62, 0x62], [0x6E, 0x4E, 0x6E, 0x6E], [0x6D, 0x4D, 0x6D, 0x6D],
    [0x2C, 0x3C, 0x2C, 0x2C], [0x2E, 0x3E, 0x2E, 0x2E], [0x2F, 0x3F, 0x2F, 0x2F],
    [0xFF, 0xFF, 0xFF, 0xFF], [0x2A, 0x2A, 0x2A, 0x2A], [0xFF, 0xFF, 0xFF, 0xFF],
    [0x20, 0x20, 0x20, 0x20], [0xFF, 0xFF, 0xFF, 0xFF], [0xFF, 0xFF, 0xFF, 0xFF],
    [0xFF, 0xFF, 0xFF, 0xFF], [0xFF, 0xFF, 0xFF, 0xFF], [0xFF, 0xFF, 0xFF, 0xFF],
    [0xFF, 0xFF, 0xFF, 0xFF], [0xFF, 0xFF, 0xFF, 0xFF], [0xFF, 0xFF, 0xFF, 0xFF],
    [0xFF, 0xFF, 0xFF, 0xFF], [0xFF, 0xFF, 0xFF, 0xFF], [0xFF, 0xFF, 0xFF, 0xFF],
    [0xFF, 0xFF, 0xFF, 0xFF], [0x37, 0x37, 0x37, 0x37], [0x38, 0x38, 0x38, 0x38],
    [0x39, 0x39, 0x39, 0x39], [0x2D, 0x2D, 0x2D, 0x2D], [0x34, 0x34, 0x34, 0x34],
    [0x35, 0x35, 0x35, 0x35], [0x36, 0x36, 0x36, 0x36], [0x2B, 0x2B, 0x2B, 0x2B],
    [0x31, 0x31, 0x31, 0x31], [0x32, 0x32, 0x32, 0x32], [0x33, 0x33, 0x33, 0x33],
    [0x30, 0x30, 0x30, 0x30], [0x2E, 0x2E, 0x2E, 0x2E], [0xFF, 0xFF, 0xFF, 0xFF],
    [0xFF, 0xFF, 0xFF, 0xFF], [0xFF, 0xFF, 0xFF, 0xFF], [0xFF, 0xFF, 0xFF, 0xFF],
    [0xFF, 0xFF, 0xFF, 0xFF], [0xFF, 0xFF, 0xFF, 0xFF], [0xFF, 0xFF, 0xFF, 0xFF],
    [0xFF, 0xFF, 0xFF, 0xFF], [0xFF, 0xFF, 0xFF, 0xFF], [0xFF, 0xFF, 0xFF, 0xFF],
    [0xFF, 0xFF, 0xFF, 0xFF], [0xFF, 0xFF, 0xFF, 0xFF], [0xFF, 0xFF, 0xFF, 0xFF],
    [0xFF, 0xFF, 0xFF, 0xFF], [0xFF, 0xFF, 0xFF, 0xFF], [0xFF, 0xFF, 0xFF, 0xFF],
    [0xFF, 0xFF, 0xFF, 0xFF], [0xFF, 0xFF, 0xFF, 0xFF], [0xFF, 0xFF, 0xFF, 0xFF],
    [0xFF, 0xFF, 0xFF, 0xFF], [0xFF, 0xFF, 0xFF, 0xFF], [0xFF, 0xFF, 0xFF, 0xFF]]"

definition scancode_column :: "u8 \<Rightarrow> u32 \<Rightarrow> u8" where
  "scancode_column scancode column =
     (if unat scancode < length scancode_columns
      then scancode_columns ! unat scancode ! unat column else 0)"

definition LSHIFT :: u8 where [simp]: "LSHIFT = 0x2A"
definition RSHIFT :: u8 where [simp]: "RSHIFT = 0x36"
definition CTRL :: u8 where [simp]: "CTRL = 0x1D"
definition ALT :: u8 where [simp]: "ALT = 0x38"

definition special_keys :: "u8 \<Rightarrow> u8" where
  "special_keys scancode =
     (if scancode = LSHIFT \<or> scancode = RSHIFT then 1
      else if scancode = CTRL then 2 else if scancode = ALT then 3 else 0)"

section \<open>The driver\<close>

record keyboard =
  kb_init :: bool
  kb_idx :: u32
  kb_read :: u32
  kb_column :: u32
  kb_queue :: "u32 \<Rightarrow> u8"

definition Keyboard_new :: "keyboard \<Rightarrow> keyboard" where
  "Keyboard_new k =
     (if kb_init k then k
      else \<lparr>kb_init = True, kb_idx = 0, kb_read = 0, kb_column = 0,
        kb_queue = (\<lambda>i. if i < KEYBOARD_QUEUE_SIZE then 0 else kb_queue k i)\<rparr>)"

definition process_special :: "u8 \<Rightarrow> keyboard \<Rightarrow> bool \<times> keyboard" where
  "process_special scancode k =
     (let clear = 0x80 < scancode;
          scancode' = (if clear then scancode - 0x80 else scancode);
          special = special_keys scancode'
      in if special \<noteq> 0 \<and> clear then (True, k\<lparr>kb_column := 0\<rparr>)
         else if special \<noteq> 0 then (True, k\<lparr>kb_column := ucast special\<rparr>)
         else (False, k))"

definition keyboard_flush :: "keyboard \<times> serial \<Rightarrow> (keyboard \<times> serial) option" where
  "keyboard_flush = (\<lambda>(k, s).
     map_option (\<lambda>s'. (k\<lparr>kb_idx := 0, kb_read := 0\<rparr>, s'))
       (serial_log (lit ''[KEYBOARD] Queue has been flushed!\<newline>'') s))"

definition queue_put :: "u8 \<Rightarrow> keyboard \<Rightarrow> keyboard" where
  "queue_put scancode k =
     k\<lparr>kb_queue := (kb_queue k)(kb_idx k := scancode_column scancode (kb_column k)),
       kb_idx := kb_idx k + 1\<rparr>"

definition keyboard_interrupt_handler :: "keyboard \<times> serial \<Rightarrow> (keyboard \<times> serial) option" where
  "keyboard_interrupt_handler = (\<lambda>(k, s).
     if \<not> kb_init k then Some (k, s)
     else let (scancode, p) = inb KEYBOARD_DATA_PORT (se_ports s);
              s1 = s\<lparr>se_ports := p\<rparr>; (special, k1) = process_special scancode k
       in if special then Some (k1, s1)
          else if scancode < 0x80
          then map_option (\<lambda>(k2, s2). (queue_put scancode k2, s2))
                 (if KEYBOARD_QUEUE_SIZE \<le> kb_idx k1 then keyboard_flush (k1, s1) else Some (k1, s1))
          else Some (k1, s1))"

text \<open>\<open>None\<close> is the caller waiting for a character.\<close>

definition getchar :: "keyboard \<Rightarrow> (u8 \<times> keyboard) option" where
  "getchar k =
     (if kb_read k = kb_idx k then None
      else Some (kb_queue k (kb_read k), k\<lparr>kb_read := kb_read k + 1\<rparr>))"

section \<open>Invariant\<close>

definition kb_inv :: "keyboard \<Rightarrow> bool" where
  "kb_inv k \<longleftrightarrow> kb_read k \<le> kb_idx k \<and> kb_idx k \<le> KEYBOARD_QUEUE_SIZE \<and> kb_column k < 4"

text \<open>The characters that wait to be read.\<close>

definition pending :: "keyboard \<Rightarrow> u8 list" where
  "pending k = map (\<lambda>j. kb_queue k (of_nat j)) [unat (kb_read k) ..< unat (kb_idx k)]"

lemma special_keys_bound: "ucast (special_keys c) < (4 :: u32)"
  by (simp add: special_keys_def)

lemma scancode_columns_rows: "\<forall>r \<in> set scancode_columns. length r = 4"
  by (simp add: scancode_columns_def)

lemma process_special_inv: "kb_inv k \<Longrightarrow> kb_inv (snd (process_special c k))"
  by (auto simp: process_special_def kb_inv_def Let_def special_keys_bound)

lemma process_special_pending [simp]:
  "pending (snd (process_special c k)) = pending k"
  "kb_idx (snd (process_special c k)) = kb_idx k" "kb_init (snd (process_special c k)) = kb_init k"
  "kb_read (snd (process_special c k)) = kb_read k"
  "kb_queue (snd (process_special c k)) = kb_queue k"
  by (auto simp: process_special_def Let_def pending_def)

lemma queue_put_room:
  assumes "kb_inv k" and "kb_idx k < KEYBOARD_QUEUE_SIZE"
  shows "kb_inv (queue_put c k)"
    and "pending (queue_put c k) = pending k @ [scancode_column c (kb_column k)]"
proof -
  have suc: "unat (kb_idx k + 1) = unat (kb_idx k) + 1" using assms(2) by (rule unat_suc_less)
  have le: "unat (kb_read k) \<le> unat (kb_idx k)" and b: "unat (kb_idx k) < 256"
    using assms by (auto simp: kb_inv_def KEYBOARD_QUEUE_SIZE_def word_le_nat_alt word_less_nat_alt)
  show "kb_inv (queue_put c k)"
    using assms suc le b by (simp add: kb_inv_def queue_put_def KEYBOARD_QUEUE_SIZE_def word_le_nat_alt)
  have "of_nat j \<noteq> kb_idx k" if "j < unat (kb_idx k)" for j
    using that b by (auto simp: word_unat_eq_iff unat_of_nat)
  then show "pending (queue_put c k) = pending k @ [scancode_column c (kb_column k)]"
    using le by (simp add: pending_def queue_put_def suc)
qed

section \<open>The state machine\<close>

text \<open>An interrupt with the scan code the device delivers, and a successful \<open>getchar\<close>.\<close>

datatype kb_event = Scan u8 | Read u8

inductive kb_step :: "keyboard \<times> serial \<Rightarrow> kb_event \<Rightarrow> keyboard \<times> serial \<Rightarrow> bool" where
  kb_scan: "keyboard_interrupt_handler (k, s) = Some ks' \<Longrightarrow>
    c = fst (inb KEYBOARD_DATA_PORT (se_ports s)) \<Longrightarrow> kb_step (k, s) (Scan c) ks'"
| kb_read: "getchar k = Some (c, k') \<Longrightarrow> kb_step (k, s) (Read c) (k', s)"

inductive_cases kb_scanE: "kb_step ks (Scan c) ks'"
inductive_cases kb_readE: "kb_step ks (Read c) ks'"

inductive kb_run :: "keyboard \<times> serial \<Rightarrow> kb_event list \<Rightarrow> keyboard \<times> serial \<Rightarrow> bool" where
  run_nil: "kb_run ks [] ks"
| run_step: "kb_step ks e ks1 \<Longrightarrow> kb_run ks1 es ks2 \<Longrightarrow> kb_run ks (e # es) ks2"

inductive_simps kb_run_nil [simp]: "kb_run ks [] ks'"
inductive_simps kb_run_cons: "kb_run ks (e # es) ks'"

text \<open>What a scan code means: the column after it, and the character it types, if any.\<close>

definition scan_column :: "u8 \<Rightarrow> u32 \<Rightarrow> u32" where
  "scan_column c col =
     (let special = special_keys (if 0x80 < c then c - 0x80 else c) in
      if special = 0 then col else if 0x80 < c then 0 else ucast special)"

definition types :: "u8 \<Rightarrow> bool" where
  "types c \<longleftrightarrow> c < 0x80 \<and> special_keys c = 0"

fun typed :: "u32 \<Rightarrow> kb_event list \<Rightarrow> u8 list" where
  "typed col [] = []"
| "typed col (Read c # es) = typed col es"
| "typed col (Scan c # es) =
     (if types c then [scancode_column c col] else []) @ typed (scan_column c col) es"

fun reads :: "kb_event list \<Rightarrow> u8 list" where
  "reads [] = []"
| "reads (Read c # es) = c # reads es"
| "reads (Scan c # es) = reads es"

lemma process_special_eq:
  "process_special c k =
    (special_keys (if 0x80 < c then c - 0x80 else c) \<noteq> 0, k\<lparr>kb_column := scan_column c (kb_column k)\<rparr>)"
  by (auto simp: process_special_def scan_column_def Let_def)

lemma scan_column_bound: "col < 4 \<Longrightarrow> scan_column c col < 4"
  by (auto simp: scan_column_def Let_def special_keys_bound)

lemma scan_cases:
  "special_keys (if 0x80 < c then c - 0x80 else c) = 0 \<and> c < 0x80 \<longleftrightarrow> types c" for c :: u8
proof -
  have "\<not> (0x80 < c \<and> c < 0x80)" by (auto dest: less_trans)
  then show ?thesis by (auto simp: types_def)
qed

lemma types_keeps_column: "types c \<Longrightarrow> scan_column c col = col"
  using scan_cases [of c] by (simp add: scan_column_def Let_def)

lemma handler_eq:
  assumes "kb_init k"
  defines "c \<equiv> \<lambda>s. fst (inb KEYBOARD_DATA_PORT (se_ports s))"
    and "s1 \<equiv> \<lambda>s. s\<lparr>se_ports := snd (inb KEYBOARD_DATA_PORT (se_ports s))\<rparr>"
    and "k1 \<equiv> \<lambda>c. k\<lparr>kb_column := scan_column c (kb_column k)\<rparr>"
  shows "keyboard_interrupt_handler (k, s) =
    (if types (c s)
     then map_option (\<lambda>(k2, s2). (queue_put (c s) k2, s2))
       (if KEYBOARD_QUEUE_SIZE \<le> kb_idx k then keyboard_flush (k1 (c s), s1 s) else Some (k1 (c s), s1 s))
     else Some (k1 (c s), s1 s))"
proof -
  have "keyboard_interrupt_handler (k, s) =
    (if special_keys (if 0x80 < c s then c s - 0x80 else c s) \<noteq> 0 then Some (k1 (c s), s1 s)
     else if c s < 0x80
     then map_option (\<lambda>(k2, s2). (queue_put (c s) k2, s2))
       (if KEYBOARD_QUEUE_SIZE \<le> kb_idx k then keyboard_flush (k1 (c s), s1 s) else Some (k1 (c s), s1 s))
     else Some (k1 (c s), s1 s))"
    using assms(1)
    by (simp add: keyboard_interrupt_handler_def process_special_eq split_beta Let_def c_def s1_def k1_def)
  with scan_cases [of "c s"] show ?thesis by auto
qed

text \<open>One interrupt, with room in the buffer and without.\<close>

lemma handler_room:
  assumes inv: "kb_inv k" "kb_init k" and h: "keyboard_interrupt_handler (k, s) = Some (k', s')"
    and c: "c = fst (inb KEYBOARD_DATA_PORT (se_ports s))"
    and room: "types c \<Longrightarrow> kb_idx k < KEYBOARD_QUEUE_SIZE"
  shows "kb_inv k'" and "kb_init k'" and "kb_column k' = scan_column c (kb_column k)"
    and "pending k' = pending k @ (if types c then [scancode_column c (kb_column k)] else [])"
    and "kb_idx k' = (if types c then kb_idx k + 1 else kb_idx k)"
proof -
  define k1 where "k1 = k\<lparr>kb_column := scan_column c (kb_column k)\<rparr>"
  have k1: "kb_inv k1" "kb_init k1" "pending k1 = pending k" "kb_idx k1 = kb_idx k"
    using inv by (auto simp: k1_def kb_inv_def pending_def scan_column_bound)
  have k': "k' = (if types c then queue_put c k1 else k1)"
    using h room by (auto simp: handler_eq [OF inv(2)] c [symmetric] k1_def linorder_not_le [symmetric]
      split: if_splits)
  show "kb_inv k'" "kb_init k'" "kb_column k' = scan_column c (kb_column k)"
    "pending k' = pending k @ (if types c then [scancode_column c (kb_column k)] else [])"
    "kb_idx k' = (if types c then kb_idx k + 1 else kb_idx k)"
    using k1 room queue_put_room [of k1 c] types_keeps_column [of c]
    by (auto simp: k' k1_def queue_put_def)
qed

lemma handler_full:
  assumes "kb_inv k" "kb_init k" and h: "keyboard_interrupt_handler (k, s) = Some (k', s')"
    and c: "c = fst (inb KEYBOARD_DATA_PORT (se_ports s))"
    and full: "types c" "kb_idx k = KEYBOARD_QUEUE_SIZE"
  shows "kb_inv k'" and "kb_init k'" and "kb_column k' = kb_column k"
    and "pending k' = [scancode_column c (kb_column k)]"
proof -
  have "k' = queue_put c (k\<lparr>kb_idx := 0, kb_read := 0\<rparr>)"
    using h full types_keeps_column [of c]
    by (auto simp: handler_eq [OF assms(2)] c [symmetric] keyboard_flush_def)
  moreover have "kb_inv (k\<lparr>kb_idx := 0, kb_read := 0\<rparr>)" using assms(1) by (simp add: kb_inv_def KEYBOARD_QUEUE_SIZE_def)
  ultimately show "kb_inv k'" "kb_init k'" "kb_column k' = kb_column k"
    "pending k' = [scancode_column c (kb_column k)]"
    using queue_put_room [of "k\<lparr>kb_idx := 0, kb_read := 0\<rparr>" c] assms(2)
    by (auto simp: KEYBOARD_QUEUE_SIZE_def pending_def queue_put_def)
qed

lemma getchar_pending:
  assumes "kb_inv k" and "getchar k = Some (c, k')"
  shows "kb_inv k'" and "pending k = c # pending k'" and "kb_idx k' = kb_idx k"
    and "kb_column k' = kb_column k" and "kb_init k' = kb_init k"
proof -
  have k': "c = kb_queue k (kb_read k)" "k' = k\<lparr>kb_read := kb_read k + 1\<rparr>" "kb_read k \<noteq> kb_idx k"
    using assms(2) by (auto simp: getchar_def split: if_splits)
  with assms(1) have lt: "kb_read k < kb_idx k" by (auto simp: kb_inv_def)
  then have "unat (kb_read k + 1) = unat (kb_read k) + 1" by (rule unat_suc_less)
  with lt assms(1) show "kb_inv k'" "pending k = c # pending k'" "kb_idx k' = kb_idx k"
    "kb_column k' = kb_column k" "kb_init k' = kb_init k"
    by (auto simp: k' kb_inv_def pending_def upt_rec word_less_nat_alt inc_le)
qed

lemma kb_step_inv:
  assumes "kb_step (k, s) e (k', s')" and inv: "kb_inv k" "kb_init k"
  shows "kb_inv k' \<and> kb_init k'"
  using assms(1)
proof (cases rule: kb_step.cases)
  case (kb_scan c)
  show ?thesis
  proof (cases "types c \<and> kb_idx k = KEYBOARD_QUEUE_SIZE")
    case True
    with handler_full [OF inv kb_scan(2,3)] show ?thesis by simp
  next
    case False
    with inv have "types c \<Longrightarrow> kb_idx k < KEYBOARD_QUEUE_SIZE" by (auto simp: kb_inv_def)
    with handler_room [OF inv kb_scan(2,3)] show ?thesis by simp
  qed
next
  case (kb_read c)
  with getchar_pending [OF inv(1) kb_read(3)] inv show ?thesis by simp
qed

lemma kb_run_inv: "kb_run ks es ks' \<Longrightarrow> kb_inv (fst ks) \<Longrightarrow> kb_init (fst ks) \<Longrightarrow> kb_inv (fst ks') \<and> kb_init (fst ks')"
proof (induction rule: kb_run.induct)
  case (run_step ks e ks1 es ks2)
  then have "kb_inv (fst ks1) \<and> kb_init (fst ks1)"
    using kb_step_inv [of "fst ks" "snd ks" e "fst ks1" "snd ks1"] by simp
  with run_step show ?case by blast
qed simp

text \<open>Every character comes out once and in order, as long as the buffer is not filled.\<close>

lemma kb_run_fifo:
  "kb_run ks es ks' \<Longrightarrow> kb_inv (fst ks) \<Longrightarrow> kb_init (fst ks) \<Longrightarrow>
    unat (kb_idx (fst ks)) + length (typed (kb_column (fst ks)) es) \<le> 256 \<Longrightarrow>
    pending (fst ks) @ typed (kb_column (fst ks)) es = reads es @ pending (fst ks')"
proof (induction rule: kb_run.induct)
  case (run_step ks e ks1 es ks2)
  obtain k s k1 s1 where ks: "ks = (k, s)" "ks1 = (k1, s1)" by (cases ks; cases ks1)
  note step = run_step.hyps(1) [unfolded ks] and inv = run_step.prems [unfolded ks fst_conv]
  have inv1: "kb_inv k1" "kb_init k1" using kb_step_inv [OF step inv(1,2)] by auto
  from step show ?case
  proof (cases rule: kb_step.cases)
    case (kb_scan c)
    have "types c \<Longrightarrow> kb_idx k < KEYBOARD_QUEUE_SIZE"
      using inv(3) kb_scan(1) by (simp add: KEYBOARD_QUEUE_SIZE_def word_less_nat_alt)
    note h = handler_room [OF inv(1,2) kb_scan(2,3) this]
    have idx: "types c \<Longrightarrow> unat (kb_idx k1) = unat (kb_idx k) + 1"
      using h(5) \<open>types c \<Longrightarrow> kb_idx k < KEYBOARD_QUEUE_SIZE\<close> by (simp add: unat_suc_less)
    have "unat (kb_idx k1) + length (typed (kb_column k1) es) \<le> 256"
      using inv(3) idx h(3,5) kb_scan(1) by (cases "types c") auto
    with run_step.IH inv1 h(3,4) kb_scan(1) show ?thesis by (auto simp: ks)
  next
    case (kb_read c)
    note g = getchar_pending [OF inv(1) kb_read(3)]
    have "unat (kb_idx k1) + length (typed (kb_column k1) es) \<le> 256" using inv(3) g kb_read by simp
    with run_step.IH inv1 g kb_read show ?thesis by (auto simp: ks)
  qed
qed simp

lemma Keyboard_new_inv:
  "\<not> kb_init k \<Longrightarrow> kb_inv (Keyboard_new k) \<and> kb_init (Keyboard_new k) \<and> pending (Keyboard_new k) = []
    \<and> kb_idx (Keyboard_new k) = 0 \<and> kb_column (Keyboard_new k) = 0"
  by (simp add: Keyboard_new_def kb_inv_def pending_def KEYBOARD_QUEUE_SIZE_def)

text \<open>The interrupt handler returns when the serial line it logs to is fair.\<close>

lemma handler_returns:
  assumes "kb_init k" and "fair (se_ports s)"
  shows "\<exists>k' s'. keyboard_interrupt_handler (k, s) = Some (k', s') \<and> fair (se_ports s')"
proof -
  have "fair (se_ports (s\<lparr>se_ports := snd (inb KEYBOARD_DATA_PORT (se_ports s))\<rparr>))" using assms by simp
  from serial_log_returns [OF this, of "lit ''[KEYBOARD] Queue has been flushed!\<newline>''"]
  show ?thesis using assms(2)
    by (auto simp: handler_eq [OF assms(1)] keyboard_flush_def simp del: lit_simps)
qed

text \<open>
  The keypad. Scan code set 1 numbers its keys from 0x47 for \<open>7\<close> to 0x53 for the point; the rows of
  the table come one place too early.
\<close>

lemma keypad_shifted:
  "scancode_column 0x46 0 = of_char CHR ''7''" "scancode_column 0x47 0 = of_char CHR ''8''"
  "scancode_column 0x52 0 = of_char CHR ''.''" "scancode_column 0x53 0 = 0xFF"
  by (simp_all add: scancode_column_def scancode_columns_def)

end
