(* ===== verification/Timer.thy ===== *)
theory Timer
  imports Ports
begin

text \<open>
  The interval timer (src/src/devices/timer.cpp). The constructor programs channel 0 with the two
  bytes of the divisor; \<open>reload\<close> is the count the 8253 then counts down from (0 stands for 65536).
\<close>

definition PIT_COMMAND :: u32 where "PIT_COMMAND = 0x43"
definition PIT_REPEAT_MODE :: u32 where "PIT_REPEAT_MODE = 0x36"
definition PIT_DATA_CH0 :: u32 where "PIT_DATA_CH0 = 0x40"

record pit =
  pt_init :: bool
  pt_ticks :: u32

definition pit_interrupt_handler :: "pit \<Rightarrow> pit" where
  "pit_interrupt_handler t = t\<lparr>pt_ticks := pt_ticks t + 1\<rparr>"

text \<open>\<open>None\<close> is the division fault of \<open>freq_hz = 0\<close>.\<close>

definition PIT_new :: "u32 \<Rightarrow> pit \<times> ports \<Rightarrow> (pit \<times> ports) option" where
  "PIT_new freq_hz = (\<lambda>(t, p).
     if pt_init t then Some (t, p)
     else if freq_hz = 0 then None
     else let divisor = 1193180 div freq_hz in
       Some (\<lparr>pt_init = True, pt_ticks = 0\<rparr>,
         outb PIT_DATA_CH0 (ucast (drop_bit 8 divisor AND 0xFF))
          (outb PIT_DATA_CH0 (ucast (divisor AND 0xFF))
           (outb PIT_COMMAND (ucast PIT_REPEAT_MODE) p))))"

definition reload :: "u8 list \<Rightarrow> nat" where
  "reload bs = (case bs of [lo, hi] \<Rightarrow> (let n = unat lo + 256 * unat hi in if n = 0 then 65536 else n) | _ \<Rightarrow> 0)"

lemma low_byte: "unat (ucast (x AND 0xFF) :: u8) = unat x mod 256" for x :: u32
proof -
  have m: "(0xFF :: u32) = mask 8" by (simp add: mask_eq_exp_minus_1)
  have "ucast (x AND 0xFF) = (ucast x :: u8)"
    unfolding m by (rule bit_word_eqI) (auto simp: bit_simps)
  then show ?thesis by (simp add: unsigned_ucast_eq take_bit_eq_mod)
qed

lemma PIT_new_reload:
  assumes "\<not> pt_init t" and "f \<noteq> 0" and "sent PIT_DATA_CH0 p = []"
  shows "\<exists>p'. PIT_new f (t, p) = Some (\<lparr>pt_init = True, pt_ticks = 0\<rparr>, p') \<and>
    reload (sent PIT_DATA_CH0 p') =
      (let d = 1193180 div unat f mod 65536 in if d = 0 then 65536 else d)"
proof -
  let ?d = "1193180 div f"
  define N where "N = 1193180 div unat f"
  have d: "unat ?d = N" by (simp add: unat_div_distrib N_def)
  have hi: "unat (drop_bit 8 ?d) = N div 256"
    unfolding unat_drop_bit_eq d by (simp add: drop_bit_eq_div)
  have sum: "N mod 256 + 256 * (N div 256 mod 256) = N mod 65536"
    using mod_mult2_eq [of N 256 256] by simp
  have zero: "N mod 65536 = 0 \<longleftrightarrow> N mod 256 = 0 \<and> N div 256 mod 256 = 0"
    unfolding sum [symmetric] by simp
  have ne: "PIT_COMMAND \<noteq> PIT_DATA_CH0" by (simp add: PIT_COMMAND_def PIT_DATA_CH0_def)
  show ?thesis
    using assms ne zero by (simp add: PIT_new_def reload_def low_byte d hi sum Let_def N_def [symmetric])
qed

end
