(* ===== verification/Pic.thy ===== *)
theory Pic
  imports Ports
begin

text \<open>
  The interrupt controllers (src/src/interrupts/pic.cpp): the initialisation sequence of the two
  8259s and the end-of-interrupt command. The reference is the documented behaviour of the pair:
  which command words they take in which order, the vector they deliver for a line, and the
  lines they hold in service until they are told.
\<close>

section \<open>The driver\<close>

definition PIC_MASTER_COMMAND :: u32 where "PIC_MASTER_COMMAND = 0x20"
definition PIC_SLAVE_COMMAND :: u32 where "PIC_SLAVE_COMMAND = 0xA0"
definition PIC_MASTER_DATA :: u32 where "PIC_MASTER_DATA = 0x21"
definition PIC_SLAVE_DATA :: u32 where "PIC_SLAVE_DATA = 0xA1"

text \<open>The initialisation words, as the bytes \<open>outb\<close> sends.\<close>

definition ICW1 :: u8 where [simp]: "ICW1 = 0x11"
definition PIC_MASTER_OFFSET :: u8 where [simp]: "PIC_MASTER_OFFSET = 0x20"
definition PIC_SLAVE_OFFSET :: u8 where [simp]: "PIC_SLAVE_OFFSET = 0x28"
definition PIC_MASTER_ICW3 :: u8 where [simp]: "PIC_MASTER_ICW3 = 0x04"
definition PIC_SLAVE_ICW3 :: u8 where [simp]: "PIC_SLAVE_ICW3 = 0x02"
definition ICW4 :: u8 where [simp]: "ICW4 = 0x1"

definition PIC_new :: "bool \<times> ports \<Rightarrow> bool \<times> ports" where
  "PIC_new = (\<lambda>(init, p).
     if init then (init, p)
     else (True,
       outb PIC_SLAVE_DATA 0x00 (outb PIC_MASTER_DATA 0x00
       (outb PIC_SLAVE_DATA ICW4 (outb PIC_MASTER_DATA ICW4
       (outb PIC_SLAVE_DATA PIC_SLAVE_ICW3 (outb PIC_MASTER_DATA PIC_MASTER_ICW3
       (outb PIC_SLAVE_DATA PIC_SLAVE_OFFSET (outb PIC_MASTER_DATA PIC_MASTER_OFFSET
       (outb PIC_SLAVE_COMMAND ICW1 (outb PIC_MASTER_COMMAND ICW1 p)))))))))))"

definition pic_send_eoi :: "u32 \<Rightarrow> ports \<Rightarrow> ports" where
  "pic_send_eoi irq p =
     outb PIC_MASTER_COMMAND 0x20 (if 8 \<le> irq then outb PIC_SLAVE_COMMAND 0x20 p else p)"

section \<open>The devices\<close>

text \<open>Which word the chip expects on its data port: 2 to 4 during initialisation, else the mask.\<close>

record chip =
  ch_expect :: nat
  ch_offset :: u8
  ch_cascade :: u8
  ch_mask :: u8
  ch_service :: "nat list"

definition chip_command :: "u8 \<Rightarrow> chip \<Rightarrow> chip" where
  "chip_command v c =
     (if bit v 4 then c\<lparr>ch_expect := 2, ch_mask := 0, ch_service := []\<rparr>
      else if v = 0x20 then c\<lparr>ch_service := tl (ch_service c)\<rparr> else c)"

definition chip_data :: "u8 \<Rightarrow> chip \<Rightarrow> chip" where
  "chip_data v c =
     (if ch_expect c = 2 then c\<lparr>ch_offset := v, ch_expect := 3\<rparr>
      else if ch_expect c = 3 then c\<lparr>ch_cascade := v, ch_expect := 4\<rparr>
      else if ch_expect c = 4 then c\<lparr>ch_expect := 0\<rparr>
      else c\<lparr>ch_mask := v\<rparr>)"

text \<open>The pair: the master first.\<close>

fun pics_write :: "u32 \<times> u8 \<Rightarrow> chip \<times> chip \<Rightarrow> chip \<times> chip" where
  "pics_write (port, v) (ma, sl) =
     (if port = 0x20 then (chip_command v ma, sl)
      else if port = 0x21 then (chip_data v ma, sl)
      else if port = 0xA0 then (ma, chip_command v sl)
      else if port = 0xA1 then (ma, chip_data v sl) else (ma, sl))"

definition pics_run :: "(u32 \<times> u8) list \<Rightarrow> chip \<times> chip \<Rightarrow> chip \<times> chip" where
  "pics_run ws c = fold pics_write ws c"

text \<open>The vector for line \<open>n\<close> of the sixteen; the slave hangs on line 2 of the master.\<close>

definition pics_vector :: "nat \<Rightarrow> chip \<times> chip \<Rightarrow> u8 option" where
  "pics_vector n = (\<lambda>(ma, sl).
     if n < 8 then (if ch_expect ma \<noteq> 0 \<or> bit (ch_mask ma) n then None else Some (ch_offset ma + of_nat n))
     else if ch_expect ma \<noteq> 0 \<or> ch_expect sl \<noteq> 0 \<or> bit (ch_mask ma) 2 \<or> \<not> bit (ch_cascade ma) 2 \<or>
       ch_cascade sl \<noteq> 2 \<or> bit (ch_mask sl) (n - 8) then None
     else Some (ch_offset sl + of_nat (n - 8)))"

definition pics_raise :: "nat \<Rightarrow> chip \<times> chip \<Rightarrow> chip \<times> chip" where
  "pics_raise n = (\<lambda>(ma, sl).
     if n < 8 then (ma\<lparr>ch_service := n # ch_service ma\<rparr>, sl)
     else (ma\<lparr>ch_service := 2 # ch_service ma\<rparr>, sl\<lparr>ch_service := (n - 8) # ch_service sl\<rparr>))"

section \<open>The driver on the devices\<close>

lemma PIC_new_writes:
  "po_writes (snd (PIC_new (False, p))) = po_writes p @
     [(0x20, 0x11), (0xA0, 0x11), (0x21, 0x20), (0xA1, 0x28), (0x21, 4), (0xA1, 2),
      (0x21, 1), (0xA1, 1), (0x21, 0), (0xA1, 0)]"
  by (simp add: PIC_new_def PIC_MASTER_COMMAND_def PIC_SLAVE_COMMAND_def PIC_MASTER_DATA_def
      PIC_SLAVE_DATA_def)

lemma pics_run_init:
  "pics_run [(0x20, 0x11), (0xA0, 0x11), (0x21, 0x20), (0xA1, 0x28), (0x21, 4), (0xA1, 2),
      (0x21, 1), (0xA1, 1), (0x21, 0), (0xA1, 0)] (ma, sl) =
    (ma\<lparr>ch_expect := 0, ch_offset := 0x20, ch_cascade := 4, ch_mask := 0, ch_service := []\<rparr>,
     sl\<lparr>ch_expect := 0, ch_offset := 0x28, ch_cascade := 2, ch_mask := 0, ch_service := []\<rparr>)"
  by (simp add: pics_run_def chip_command_def chip_data_def)

lemma PIC_new_vectors:
  assumes "po_writes (snd (PIC_new (False, p))) = po_writes p @ ws" and "n < 16"
  shows "pics_vector n (pics_run ws c) = Some (0x20 + of_nat n)"
proof (cases c)
  case (Pair ma sl)
  have ws: "ws = [(0x20, 0x11), (0xA0, 0x11), (0x21, 0x20), (0xA1, 0x28), (0x21, 4), (0xA1, 2),
      (0x21, 1), (0xA1, 1), (0x21, 0), (0xA1, 0)]"
    using assms(1) unfolding PIC_new_writes by simp
  have "(0x28 :: u8) + of_nat (n - 8) = 0x20 + of_nat n" if "8 \<le> n"
    using that by (simp add: of_nat_diff)
  moreover have "bit (4 :: u8) 2" by simp
  ultimately show ?thesis unfolding Pair ws pics_run_init
    by (simp add: pics_vector_def)
qed

lemma eoi_writes:
  "po_writes (pic_send_eoi irq p) =
    po_writes p @ (if 8 \<le> irq then [(0xA0, 0x20)] else []) @ [(0x20, 0x20)]"
  by (simp add: pic_send_eoi_def PIC_MASTER_COMMAND_def PIC_SLAVE_COMMAND_def)

lemma eoi_acknowledges:
  assumes "n < 16" and "po_writes (pic_send_eoi (of_nat n) p) = po_writes p @ ws"
  shows "pics_run ws (pics_raise n c) = c"
proof (cases c)
  case (Pair ma sl)
  have "(8 :: u32) \<le> of_nat n \<longleftrightarrow> 8 \<le> n" using assms(1) by (simp add: word_le_nat_alt unat_of_nat)
  with assms(2) have ws: "ws = (if 8 \<le> n then [(0xA0, 0x20)] else []) @ [(0x20, 0x20)]"
    unfolding eoi_writes by simp
  have "\<not> bit (0x20 :: u8) 4" by simp
  then show ?thesis by (auto simp: ws Pair pics_run_def pics_raise_def chip_command_def)
qed

end
