(* ===== verification/Handlers.thy ===== *)
theory Handlers
  imports Process Keyboard Timer Pic
begin

text \<open>
  Interrupt dispatch: \<open>isr_handler\<close> and \<open>irq_handler\<close> (src/src/interrupts/handlers.cpp) and the system
  calls (src/src/userland/syscalls.cpp). The assembly stubs push an \<open>interrupt_state\<close> and pass its
  address \<open>state\<close>; the handlers read and write it in memory. An outcome that does not return to the
  stub is a value of \<open>stop\<close>: a wait for the serial line that never ends, the halt after a fault, or a
  call through a pointer the kernel did not put there.
\<close>

section \<open>State\<close>

record machine =
  mc_mem :: memory
  mc_sched :: sched
  mc_serial :: serial
  mc_keyboard :: keyboard
  mc_pit :: pit
  mc_kstack :: kstack

datatype stop = Waiting | Halted machine | Wild_call u32 machine

definition bind_sum :: "'e + 'a \<Rightarrow> ('a \<Rightarrow> 'e + 'b) \<Rightarrow> 'e + 'b" where
  "bind_sum r f = (case r of Inl e \<Rightarrow> Inl e | Inr x \<Rightarrow> f x)"

lemma bind_sum_simps [simp]: "bind_sum (Inl e) f = Inl e" "bind_sum (Inr x) f = f x"
  by (simp_all add: bind_sum_def)

text \<open>A format of the source, as \<open>kprintf\<close> finds it in read-only memory.\<close>

definition lit_mem :: "string \<Rightarrow> memory" where
  "lit_mem cs a = (if unat a < length cs then of_char (cs ! unat a) else 0)"

definition printk :: "string \<Rightarrow> u32 list \<Rightarrow> machine \<Rightarrow> stop + machine" where
  "printk fmt args M =
     (case serial_kprintf (lit_mem fmt) 0 args (mc_kstack M) (mc_serial M) of
        None \<Rightarrow> Inl Waiting
      | Some (ks, s) \<Rightarrow> Inr (M\<lparr>mc_kstack := ks, mc_serial := s\<rparr>))"

section \<open>System calls\<close>

definition syscall_test :: "u32 \<Rightarrow> machine \<Rightarrow> stop + u32 \<times> machine" where
  "syscall_test val M =
     bind_sum (printk ''[DUMMY SYSCALL] Arg: %d.\<newline>'' [val] M) (\<lambda>M'. Inr (0, M'))"

definition syscalls_buffer :: "(u32 \<Rightarrow> machine \<Rightarrow> stop + u32 \<times> machine) list" where
  "syscalls_buffer = [syscall_test]"

text \<open>
  The entry is read at four times \<open>eax\<close> from the start of the table, an address of 32 bits: the product
  wraps. The first argument is what was pushed last, \<open>ebx\<close>; the other four the callee does not read.
\<close>

definition syscall_handler :: "u32 \<Rightarrow> machine \<Rightarrow> stop + machine" where
  "syscall_handler state M =
     (let eax = load32 (mc_mem M) (state + ST_EAX); entry = unat (4 * eax) div 4 in
      if entry < length syscalls_buffer
      then bind_sum ((syscalls_buffer ! entry) (load32 (mc_mem M) (state + ST_EBX)) M)
             (\<lambda>(ret_value, M'). Inr (M'\<lparr>mc_mem := store32 (state + ST_EAX) ret_value (mc_mem M')\<rparr>))
      else Inl (Wild_call eax M))"

section \<open>Handlers\<close>

definition isr_handler :: "u32 \<Rightarrow> machine \<Rightarrow> stop + machine" where
  "isr_handler state M =
     (let int_num = load32 (mc_mem M) (state + ST_INT) in
      if int_num = 0x80 then
        bind_sum (printk ''[SYSCALLS] Triggerring a syscall, %%eax = %d\<newline>'' [load32 (mc_mem M) (state + ST_EAX)] M)
          (syscall_handler state)
      else if int_num = 13 then
        bind_sum (printk ''[ERROR] General Protection fault\<newline>'' [] M) (\<lambda>M1.
        bind_sum (printk ''[ERROR] %%eip = %x\<newline>'' [load32 (mc_mem M1) (state + ST_EIP)] M1) (\<lambda>M2.
        bind_sum (printk ''[ERROR] %%ebp = %x\<newline>'' [load32 (mc_mem M2) (state + ST_EBP)] M2) (\<lambda>M3.
        Inl (Halted M3))))
      else if int_num = 14 then
        bind_sum (printk ''[ERROR] Page fault\<newline>'' [] M) (\<lambda>M1.
        bind_sum (printk ''[ERROR] %%eip = %x\<newline>'' [load32 (mc_mem M1) (state + ST_EIP)] M1) (\<lambda>M2.
        bind_sum (printk ''[ERROR] %%ebp = %x\<newline>'' [load32 (mc_mem M2) (state + ST_EBP)] M2) (\<lambda>M3.
        Inl (Halted M3))))
      else Inr M)"

definition irq_handler :: "u32 \<Rightarrow> machine \<Rightarrow> stop + machine" where
  "irq_handler state M =
     (let int_num = load32 (mc_mem M) (state + ST_INT) in
      bind_sum
        (if int_num = 0 then
           let M1 = M\<lparr>mc_pit := pit_interrupt_handler (mc_pit M)\<rparr>;
               (c, m) = switch_process state (mc_sched M1, mc_mem M1)
           in Inr (M1\<lparr>mc_sched := c, mc_mem := m\<rparr>)
         else if int_num = 1 then
           (case keyboard_interrupt_handler (mc_keyboard M, mc_serial M) of
              None \<Rightarrow> Inl Waiting
            | Some (k, s) \<Rightarrow> Inr (M\<lparr>mc_keyboard := k, mc_serial := s\<rparr>))
         else Inr M)
        (\<lambda>M'. Inr (M'\<lparr>mc_serial := (mc_serial M')\<lparr>se_ports := pic_send_eoi int_num (se_ports (mc_serial M'))\<rparr>\<rparr>)))"

section \<open>Traffic on the serial line\<close>

text \<open>Bytes that go to the serial line only.\<close>

definition com_writes :: "ports \<Rightarrow> ports \<Rightarrow> bool" where
  "com_writes p p' \<longleftrightarrow>
     (\<exists>ws. po_writes p' = po_writes p @ ws \<and> (\<forall>w \<in> set ws. COM1 \<le> fst w \<and> fst w \<le> COM1 + 7))"

lemma com_writes_refl: "com_writes p p"
  by (simp add: com_writes_def)

lemma com_writes_trans: "com_writes p q \<Longrightarrow> com_writes q r \<Longrightarrow> com_writes p r"
  unfolding com_writes_def by force

lemma com_writes_inb [simp]: "com_writes p (snd (inb q p))"
  by (simp add: com_writes_def)

lemma com_writes_put:
  assumes f: "fair (se_ports s)"
  shows "\<exists>s'. serial_write_char c s = Some s' \<and> fair (se_ports s') \<and> com_writes (se_ports s) (se_ports s')"
proof -
  define p where "p = (if \<not> se_init s then init_serial (se_ports s) else se_ports s)"
  have p: "fair p" "com_writes (se_ports s) p"
    using f unfolding p_def com_writes_def init_serial_def by (auto simp: COM1_def word_le_nat_alt)
  obtain p' where p': "wait_transmit p = Some p'" "fair p'" "po_writes p' = po_writes p"
    using wait_transmit_fair [OF p(1)] .
  have "com_writes p (outb COM1 c p')" using p'(3) by (simp add: com_writes_def COM1_def word_le_nat_alt)
  with p(2) have "com_writes (se_ports s) (outb COM1 c p')" by (rule com_writes_trans)
  with p' show ?thesis by (simp add: serial_write_char_def p_def [symmetric] Let_def)
qed

text \<open>The line as a device again, now also with what is not written: nothing but its own ports since \<open>p\<close>.\<close>

definition line_ok :: "ports \<Rightarrow> serial \<Rightarrow> bool" where
  "line_ok p s \<longleftrightarrow> serial_ok s \<and> com_writes p (se_ports s)"

lemma line_ok_start: "serial_ok s \<Longrightarrow> line_ok (se_ports s) s"
  by (simp add: line_ok_def com_writes_refl)

interpretation com: char_device serial_write_char "line_ok p" serial_text
proof unfold_locales
  fix c s assume s: "line_ok p s"
  obtain s' where "serial_write_char c s = Some s'" "serial_ok s'" "serial_text s' = serial_text s @ [c]"
    using s serial_put_ok by (auto simp: line_ok_def)
  moreover from this(1) have "com_writes (se_ports s) (se_ports s')"
    using s com_writes_put [of s c] by (auto simp: line_ok_def serial_ok_def)
  ultimately show "\<exists>s'. serial_write_char c s = Some s' \<and> line_ok p s' \<and> serial_text s' = serial_text s @ [c]"
    using s com_writes_trans by (auto simp: line_ok_def)
qed

section \<open>Messages\<close>

lemma cstring_at_lit_aux:
  "(\<forall>c \<in> set cs. (of_char c :: u8) \<noteq> 0) \<Longrightarrow> length (pre @ cs) < 2 ^ 32 \<Longrightarrow>
    cstring_at (lit_mem (pre @ cs)) (of_nat (length pre)) (lit cs)"
proof (induction cs arbitrary: pre)
  case Nil
  then have "unat (of_nat (length pre) :: u32) = length pre" by (simp add: unat_of_nat)
  then show ?case by (simp add: lit_mem_def)
next
  case (Cons c cs)
  then have u: "unat (of_nat (length pre) :: u32) = length pre" by (simp add: unat_of_nat)
  have "cstring_at (lit_mem ((pre @ [c]) @ cs)) (of_nat (length (pre @ [c]))) (lit cs)"
    using Cons.prems by (intro Cons.IH) auto
  moreover have "lit_mem (pre @ c # cs) (of_nat (length pre)) = of_char c" by (simp add: lit_mem_def u)
  ultimately show ?case using Cons.prems(1) by (simp add: add.commute)
qed

lemma cstring_at_lit:
  "(\<forall>c \<in> set cs. (of_char c :: u8) \<noteq> 0) \<Longrightarrow> length cs < 2 ^ 32 \<Longrightarrow> cstring_at (lit_mem cs) 0 (lit cs)"
  using cstring_at_lit_aux [of cs "[]"] by simp

lemma renders_text:
  "(\<forall>c \<in> set pre. (of_char c :: u8) \<noteq> of_char CHR ''%'') \<Longrightarrow> renders True m cs args out \<Longrightarrow>
    renders True m (lit pre @ cs) args (lit pre @ out)"
  by (induction pre) (auto intro: r_char)

lemma lit_append: "lit (a @ b) = lit a @ lit b"
  by (simp add: lit_def)

lemma printk_output:
  assumes "renders True (lit_mem fmt) (lit fmt) args out" and "line_ok p (mc_serial M)"
    and "\<forall>c \<in> set fmt. (of_char c :: u8) \<noteq> 0" "length fmt < 2 ^ 32"
  obtains ks s where "printk fmt args M = Inr (M\<lparr>mc_kstack := ks, mc_serial := s\<rparr>)" "line_ok p s"
    "serial_text s = serial_text (mc_serial M) @ out"
proof -
  obtain ks s where "kprintf True serial_write_char (lit_mem fmt) 0 args (mc_kstack M) (mc_serial M) = Some (ks, s)"
    "line_ok p s" "serial_text s = serial_text (mc_serial M) @ out"
    using com.kprintf_output [OF assms(1) cstring_at_lit [OF assms(3,4)] assms(2), of "mc_kstack M"] by blast
  then show thesis by (intro that) (simp_all add: printk_def serial_kprintf_def)
qed

text \<open>The formats of the handlers.\<close>

lemma renders_d_end:
  assumes "\<forall>c \<in> set pre. (of_char c :: u8) \<noteq> of_char CHR ''%''" "\<forall>c \<in> set post. (of_char c :: u8) \<noteq> of_char CHR ''%''"
  shows "renders True m (lit (pre @ ''%d'' @ post)) [a] (lit pre @ dec_text (unat a) @ lit post)"
    and "renders True m (lit (pre @ ''%x'' @ post)) [a] (lit pre @ hex_text 8 (unat a) @ lit post)"
proof -
  have post: "renders True m (lit post) [] (lit post)" using renders_text [OF assms(2) r_nil] by simp
  show "renders True m (lit (pre @ ''%d'' @ post)) [a] (lit pre @ dec_text (unat a) @ lit post)"
    using renders_text [OF assms(1) r_d [OF post]] by (simp only: lit_append)
  show "renders True m (lit (pre @ ''%x'' @ post)) [a] (lit pre @ hex_text 8 (unat a) @ lit post)"
    using renders_text [OF assms(1) r_x [OF post]] by (simp only: lit_append)
qed

lemma renders_percent:
  assumes "\<forall>c \<in> set pre. (of_char c :: u8) \<noteq> of_char CHR ''%''" and "renders True m (lit cs) args out"
  shows "renders True m (lit (pre @ ''%%'' @ cs)) args (lit (pre @ ''%'') @ out)"
  using renders_text [OF assms(1) r_percent [OF assms(2)]] by (simp add: lit_append del: lit_simps) (simp add: lit_def)

lemma syscall_format:
  "renders True m (lit ''[SYSCALLS] Triggerring a syscall, %%eax = %d\<newline>'') [a]
    (lit ''[SYSCALLS] Triggerring a syscall, %eax = '' @ dec_text (unat a) @ lit ''\<newline>'')"
proof -
  have "renders True m (lit ''eax = %d\<newline>'') [a] (lit ''eax = '' @ dec_text (unat a) @ lit ''\<newline>'')"
    using renders_d_end(1) [of "''eax = ''" "''\<newline>''" m a] by simp
  from renders_percent [OF _ this, of "''[SYSCALLS] Triggerring a syscall, ''"] show ?thesis by simp
qed

section \<open>System calls return\<close>

text \<open>The system call numbers that read the first entry of the table.\<close>

definition first_entry :: "u32 set" where
  "first_entry = {0, 0x40000000, 0x80000000, 0xC0000000}"

lemma first_entry_iff: "4 * eax = 0 \<longleftrightarrow> eax \<in> first_entry"
proof
  assume "4 * eax = 0"
  then have "unat (4 * eax) = 0" by simp
  then have "4 * unat eax mod 2 ^ 32 = 0" unfolding unat_word_ariths by simp
  then obtain k where k: "unat eax = 2 ^ 30 * k" by (auto elim!: dvdE simp: mod_eq_0_iff_dvd)
  then have "k < 4" using unat_bound32 [of eax] by simp
  then have "k = 0 \<or> k = 1 \<or> k = 2 \<or> k = 3" by arith
  with k have "unat eax \<in> {0, 0x40000000, 0x80000000, 0xC0000000}" by auto
  then show "eax \<in> first_entry" by (auto simp: first_entry_def word_unat_eq_iff)
qed (auto simp: first_entry_def)

lemma entry_index: "unat (4 * eax) div 4 = 0 \<longleftrightarrow> eax \<in> first_entry" for eax :: u32
proof -
  have "4 dvd 4 * unat eax mod 2 ^ 32" by (intro dvd_mod) auto
  then have "4 dvd unat (4 * eax)" by (simp add: unat_word_ariths)
  then have "unat (4 * eax) div 4 = 0 \<longleftrightarrow> unat (4 * eax) = 0" by auto
  then show ?thesis by (simp add: first_entry_iff [symmetric] unat_eq_0)
qed

lemma isr_syscall:
  assumes ok: "line_ok p (mc_serial M)" and int: "load32 (mc_mem M) (state + ST_INT) = 0x80"
    and eax: "load32 (mc_mem M) (state + ST_EAX) \<in> first_entry"
  shows "\<exists>ks s. isr_handler state M = Inr (M\<lparr>mc_mem := store32 (state + ST_EAX) 0 (mc_mem M),
      mc_kstack := ks, mc_serial := s\<rparr>) \<and> line_ok p s \<and>
    serial_text s = serial_text (mc_serial M) @
      lit ''[SYSCALLS] Triggerring a syscall, %eax = '' @ dec_text (unat (load32 (mc_mem M) (state + ST_EAX))) @ lit ''\<newline>'' @
      lit ''[DUMMY SYSCALL] Arg: '' @ dec_text (unat (load32 (mc_mem M) (state + ST_EBX))) @ lit ''.\<newline>''"
proof -
  let ?eax = "load32 (mc_mem M) (state + ST_EAX)" and ?ebx = "load32 (mc_mem M) (state + ST_EBX)"
  have r2: "renders True m (lit ''[DUMMY SYSCALL] Arg: %d.\<newline>'') [?ebx]
      (lit ''[DUMMY SYSCALL] Arg: '' @ dec_text (unat ?ebx) @ lit ''.\<newline>'')" for m
    using renders_d_end(1) [of "''[DUMMY SYSCALL] Arg: ''" "''.\<newline>''" m ?ebx] by simp
  obtain ks1 s1 where p1: "printk ''[SYSCALLS] Triggerring a syscall, %%eax = %d\<newline>'' [?eax] M =
      Inr (M\<lparr>mc_kstack := ks1, mc_serial := s1\<rparr>)" "line_ok p s1"
    "serial_text s1 = serial_text (mc_serial M) @
      lit ''[SYSCALLS] Triggerring a syscall, %eax = '' @ dec_text (unat ?eax) @ lit ''\<newline>''"
    by (rule printk_output [OF syscall_format ok]) (simp_all del: lit_simps)
  define M1 where "M1 = M\<lparr>mc_kstack := ks1, mc_serial := s1\<rparr>"
  have ok1: "line_ok p (mc_serial M1)" using p1(2) by (simp add: M1_def)
  obtain ks2 s2 where p2: "printk ''[DUMMY SYSCALL] Arg: %d.\<newline>'' [?ebx] M1 =
      Inr (M1\<lparr>mc_kstack := ks2, mc_serial := s2\<rparr>)" "line_ok p s2"
    "serial_text s2 = serial_text (mc_serial M1) @
      lit ''[DUMMY SYSCALL] Arg: '' @ dec_text (unat ?ebx) @ lit ''.\<newline>''"
    by (rule printk_output [OF r2 ok1]) (simp_all del: lit_simps)
  have "isr_handler state M = syscall_handler state M1"
    using int eax p1(1) by (simp add: isr_handler_def M1_def)
  also have "\<dots> = Inr (M1\<lparr>mc_mem := store32 (state + ST_EAX) 0 (mc_mem M), mc_kstack := ks2, mc_serial := s2\<rparr>)"
    using entry_index [THEN iffD2, OF eax] p2(1) by (simp add: syscall_handler_def syscalls_buffer_def syscall_test_def M1_def)
  finally show ?thesis using p1(3) p2(2,3) by (intro exI [of _ ks2] exI [of _ s2]) (simp add: M1_def)
qed

text \<open>\<open>eax\<close> is not compared with the size of the table.\<close>

lemma isr_syscall_unchecked:
  assumes ok: "line_ok p (mc_serial M)" and int: "load32 (mc_mem M) (state + ST_INT) = 0x80"
    and eax: "load32 (mc_mem M) (state + ST_EAX) \<notin> first_entry"
  shows "\<exists>M'. isr_handler state M = Inl (Wild_call (load32 (mc_mem M) (state + ST_EAX)) M')"
proof -
  let ?eax = "load32 (mc_mem M) (state + ST_EAX)"
  obtain ks1 s1 where p1: "printk ''[SYSCALLS] Triggerring a syscall, %%eax = %d\<newline>'' [?eax] M =
      Inr (M\<lparr>mc_kstack := ks1, mc_serial := s1\<rparr>)"
    by (rule printk_output [OF syscall_format ok]) (simp_all del: lit_simps)
  have "\<not> unat (4 * ?eax) div 4 < length syscalls_buffer" using eax entry_index by (simp add: syscalls_buffer_def)
  then show ?thesis using int p1 by (simp add: isr_handler_def syscall_handler_def Let_def)
qed

section \<open>Every interrupt line is acknowledged\<close>

lemma com_writes_log:
  "fair (se_ports s) \<Longrightarrow>
    \<exists>s'. serial_log cs s = Some s' \<and> fair (se_ports s') \<and> com_writes (se_ports s) (se_ports s')"
proof (induction cs arbitrary: s)
  case (Cons c cs)
  obtain s1 where s1: "serial_write_char c s = Some s1" "fair (se_ports s1)" "com_writes (se_ports s) (se_ports s1)"
    using com_writes_put [OF Cons.prems] by blast
  from Cons.IH [OF s1(2)] s1 show ?case by (auto simp: serial_log_def intro: com_writes_trans)
qed (simp add: serial_log_def com_writes_refl)

lemma keyboard_handler_writes:
  assumes "fair (se_ports s)"
  shows "\<exists>k' s'. keyboard_interrupt_handler (k, s) = Some (k', s') \<and> fair (se_ports s') \<and>
    com_writes (se_ports s) (se_ports s')"
proof -
  obtain c p where c: "inb KEYBOARD_DATA_PORT (se_ports s) = (c, p)" by (cases "inb KEYBOARD_DATA_PORT (se_ports s)")
  define s1 where "s1 = s\<lparr>se_ports := p\<rparr>"
  have "p = snd (inb KEYBOARD_DATA_PORT (se_ports s))" using c by simp
  then have s1: "fair (se_ports s1)" "com_writes (se_ports s) (se_ports s1)" using assms by (simp_all add: s1_def)
  obtain s2 where s2: "serial_log (lit ''[KEYBOARD] Queue has been flushed!\<newline>'') s1 = Some s2"
    "fair (se_ports s2)" "com_writes (se_ports s1) (se_ports s2)" using com_writes_log [OF s1(1)] by blast
  have "com_writes (se_ports s) (se_ports s2)" using s1(2) s2(3) by (rule com_writes_trans)
  with s1 s2(1,2) assms show ?thesis
    unfolding keyboard_interrupt_handler_def keyboard_flush_def
    by (cases "process_special c k") (auto simp: Let_def c com_writes_refl s1_def [symmetric] simp del: lit_simps)
qed

text \<open>Whatever the line, the handler returns and its writes make the two controllers take the line out of service.\<close>

lemma pics_run_append: "pics_run (ws @ vs) c = pics_run vs (pics_run ws c)"
  by (simp add: pics_run_def)

lemma pics_run_com: "\<forall>w \<in> set ws. COM1 \<le> fst w \<and> fst w \<le> COM1 + 7 \<Longrightarrow> pics_run ws c = c"
proof (induction ws)
  case (Cons w ws)
  obtain port v ma sl where w: "w = (port, v)" "c = (ma, sl)" by (cases w; cases c)
  have "port \<noteq> 0x20" "port \<noteq> 0x21" "port \<noteq> 0xA0" "port \<noteq> 0xA1" using Cons.prems w by (auto simp: COM1_def)
  with Cons w show ?case by (simp add: pics_run_def)
qed (simp add: pics_run_def)

lemma irq_acknowledged:
  assumes f: "fair (se_ports (mc_serial M))" and n: "n < 16"
    and int: "load32 (mc_mem M) (state + ST_INT) = of_nat n"
  shows "\<exists>M' ws. irq_handler state M = Inr M' \<and>
    po_writes (se_ports (mc_serial M')) = po_writes (se_ports (mc_serial M)) @ ws \<and>
    pics_run ws (pics_raise n c) = c"
proof -
  have eoi: "\<exists>ws. po_writes (pic_send_eoi (of_nat n) q) = po_writes p @ ws \<and> pics_run ws (pics_raise n c) = c"
    if "com_writes p q" for p q
  proof -
    obtain vs where vs: "po_writes q = po_writes p @ vs" "\<forall>w \<in> set vs. COM1 \<le> fst w \<and> fst w \<le> COM1 + 7"
      using \<open>com_writes p q\<close> unfolding com_writes_def by blast
    obtain us where us: "po_writes (pic_send_eoi (of_nat n) q) = po_writes q @ us"
      by (simp add: eoi_writes)
    from vs us eoi_acknowledges [OF n us, of c] pics_run_com [OF vs(2)] show ?thesis
      by (intro exI [of _ "vs @ us"]) (simp add: pics_run_append)
  qed
  have n0: "(of_nat n :: u32) = 0 \<longleftrightarrow> n = 0" "(of_nat n :: u32) = 1 \<longleftrightarrow> n = 1"
    using n by (auto simp: word_unat_eq_iff unat_of_nat)
  consider "n = 0" | "n = 1" | "n \<noteq> 0" "n \<noteq> 1" by blast
  then show ?thesis
  proof cases
    case 1
    with eoi [OF com_writes_refl] int show ?thesis
      by (auto simp: irq_handler_def Let_def split: prod.split)
  next
    case 2
    obtain k s where k: "keyboard_interrupt_handler (mc_keyboard M, mc_serial M) = Some (k, s)"
      "com_writes (se_ports (mc_serial M)) (se_ports s)" using keyboard_handler_writes [OF f] by blast
    from eoi [OF k(2)] k(1) 2 int show ?thesis by (auto simp: irq_handler_def)
  next
    case 3
    with eoi [OF com_writes_refl] int n0 show ?thesis by (auto simp: irq_handler_def Let_def)
  qed
qed

text \<open>A timer tick counts and switches.\<close>

lemma irq_timer:
  assumes "load32 (mc_mem M) (state + ST_INT) = 0"
  shows "\<exists>M'. irq_handler state M = Inr M' \<and> pt_ticks (mc_pit M') = pt_ticks (mc_pit M) + 1 \<and>
    (mc_sched M', mc_mem M') = switch_process state (mc_sched M, mc_mem M)"
  using assms by (auto simp: irq_handler_def Let_def pit_interrupt_handler_def split: prod.split)

section \<open>Faults\<close>

lemma isr_fault_halts:
  assumes ok: "line_ok p (mc_serial M)" and int: "load32 (mc_mem M) (state + ST_INT) = n" and n: "n = 13 \<or> n = 14"
  shows "\<exists>M'. isr_handler state M = Inl (Halted M') \<and> mc_mem M' = mc_mem M \<and>
    serial_text (mc_serial M') = serial_text (mc_serial M) @
      (if n = 13 then lit ''[ERROR] General Protection fault\<newline>'' else lit ''[ERROR] Page fault\<newline>'') @
      lit ''[ERROR] %eip = '' @ hex_text 8 (unat (load32 (mc_mem M) (state + ST_EIP))) @ lit ''\<newline>'' @
      lit ''[ERROR] %ebp = '' @ hex_text 8 (unat (load32 (mc_mem M) (state + ST_EBP))) @ lit ''\<newline>''"
proof -
  have head: "renders True m (lit cs) [] (lit cs)" if "\<forall>c \<in> set cs. (of_char c :: u8) \<noteq> of_char CHR ''%''" for m cs
    using renders_text [OF that r_nil] by simp
  have reg: "renders True m (lit (''[ERROR] %%'' @ r @ '' = %x\<newline>'')) [a]
      (lit (''[ERROR] %'' @ r @ '' = '') @ hex_text 8 (unat a) @ lit ''\<newline>'')" if "r \<in> {''eip'', ''ebp''}" for m r a
  proof -
    have "renders True m (lit ((r @ '' = '') @ ''%x'' @ ''\<newline>'')) [a] (lit (r @ '' = '') @ hex_text 8 (unat a) @ lit ''\<newline>'')"
      using that by (intro renders_d_end(2)) auto
    from renders_percent [OF _ this, of "''[ERROR] ''"] show ?thesis by (simp add: lit_append)
  qed
  let ?m = "mc_mem M"
  define h where "h = (if n = 13 then ''[ERROR] General Protection fault\<newline>'' else ''[ERROR] Page fault\<newline>'')"
  have h: "\<forall>c \<in> set h. (of_char c :: u8) \<noteq> of_char CHR ''%''" "\<forall>c \<in> set h. (of_char c :: u8) \<noteq> 0" "length h < 2 ^ 32"
    by (simp_all add: h_def)
  obtain k1 s1 where p1: "printk h [] M = Inr (M\<lparr>mc_kstack := k1, mc_serial := s1\<rparr>)"
    "line_ok p s1" "serial_text s1 = serial_text (mc_serial M) @ lit h"
    using printk_output [OF head [OF h(1)] ok h(2,3)] .
  define M1 where "M1 = M\<lparr>mc_kstack := k1, mc_serial := s1\<rparr>"
  have ok1: "line_ok p (mc_serial M1)" using p1 by (simp add: M1_def)
  obtain k2 s2 where p2: "printk ''[ERROR] %%eip = %x\<newline>'' [load32 ?m (state + ST_EIP)] M1 = Inr (M1\<lparr>mc_kstack := k2, mc_serial := s2\<rparr>)"
    "line_ok p s2" "serial_text s2 = serial_text (mc_serial M1) @
      lit ''[ERROR] %eip = '' @ hex_text 8 (unat (load32 ?m (state + ST_EIP))) @ lit ''\<newline>''"
    by (rule printk_output [OF reg [of "''eip''", simplified append.simps] ok1]) (simp_all del: lit_simps)
  define M2 where "M2 = M1\<lparr>mc_kstack := k2, mc_serial := s2\<rparr>"
  have ok2: "line_ok p (mc_serial M2)" using p2 by (simp add: M2_def)
  obtain k3 s3 where p3: "printk ''[ERROR] %%ebp = %x\<newline>'' [load32 ?m (state + ST_EBP)] M2 = Inr (M2\<lparr>mc_kstack := k3, mc_serial := s3\<rparr>)"
    "line_ok p s3" "serial_text s3 = serial_text (mc_serial M2) @
      lit ''[ERROR] %ebp = '' @ hex_text 8 (unat (load32 ?m (state + ST_EBP))) @ lit ''\<newline>''"
    by (rule printk_output [OF reg [of "''ebp''", simplified append.simps] ok2]) (simp_all del: lit_simps)
  have mem: "mc_mem M1 = ?m" "mc_mem M2 = ?m" by (simp_all add: M1_def M2_def)
  have "isr_handler state M = Inl (Halted (M2\<lparr>mc_kstack := k3, mc_serial := s3\<rparr>))"
    using n int p1(1) p2(1) p3(1) unfolding isr_handler_def
    by (auto simp: h_def M1_def [symmetric] M2_def [symmetric] mem Let_def)
  with p1(3) p2(3) p3(3) show ?thesis
    by (intro exI [of _ "M2\<lparr>mc_kstack := k3, mc_serial := s3\<rparr>"]) (auto simp: h_def M1_def M2_def simp del: lit_simps)
qed

end
