(* ===== verification/Vga.thy ===== *)
theory Vga
  imports Kprintf
begin

text \<open>
  The text screen (src/src/outputs/vga.cpp): colours, the cursor, insertion, clearing, scrolling
  and the output routines over \<open>write_char\<close>. The cells lie in memory from \<open>_screen\<close>, two bytes each;
  the state of the driver is its statics, and an operation maps the pair of statics and memory.
\<close>

section \<open>State\<close>

datatype vga_color =
    VGA_COLOR_BLACK | VGA_COLOR_BLUE | VGA_COLOR_GREEN | VGA_COLOR_CYAN | VGA_COLOR_RED
  | VGA_COLOR_MAGENTA | VGA_COLOR_BROWN | VGA_COLOR_LIGHT_GREY | VGA_COLOR_DARK_GREY
  | VGA_COLOR_LIGHT_BLUE | VGA_COLOR_LIGHT_GREEN | VGA_COLOR_LIGHT_CYAN | VGA_COLOR_LIGHT_RED
  | VGA_COLOR_LIGHT_MAGENTA | VGA_COLOR_LIGHT_BROWN | VGA_COLOR_WHITE

fun color_code :: "vga_color \<Rightarrow> u32" where
  "color_code VGA_COLOR_BLACK = 0"
| "color_code VGA_COLOR_BLUE = 1"
| "color_code VGA_COLOR_GREEN = 2"
| "color_code VGA_COLOR_CYAN = 3"
| "color_code VGA_COLOR_RED = 4"
| "color_code VGA_COLOR_MAGENTA = 5"
| "color_code VGA_COLOR_BROWN = 6"
| "color_code VGA_COLOR_LIGHT_GREY = 7"
| "color_code VGA_COLOR_DARK_GREY = 8"
| "color_code VGA_COLOR_LIGHT_BLUE = 9"
| "color_code VGA_COLOR_LIGHT_GREEN = 10"
| "color_code VGA_COLOR_LIGHT_CYAN = 11"
| "color_code VGA_COLOR_LIGHT_RED = 12"
| "color_code VGA_COLOR_LIGHT_MAGENTA = 13"
| "color_code VGA_COLOR_LIGHT_BROWN = 14"
| "color_code VGA_COLOR_WHITE = 15"

record vga =
  vg_init :: bool
  vg_color :: u8
  vg_x :: u32
  vg_y :: u32
  vg_width :: u32
  vg_height :: u32
  vg_screen :: u32

section \<open>Operations\<close>

definition set_color :: "vga_color \<Rightarrow> vga_color \<Rightarrow> vga \<Rightarrow> vga" where
  "set_color fg bg v = v\<lparr>vg_color := ucast (color_code fg OR push_bit 4 (color_code bg))\<rparr>"

definition init_vga :: "vga \<Rightarrow> vga" where
  "init_vga v = (set_color VGA_COLOR_LIGHT_GREY VGA_COLOR_BLACK v)
     \<lparr>vg_init := True, vg_width := 80, vg_height := 25, vg_x := 0, vg_y := 0, vg_screen := 0xC03FF000\<rparr>"

definition insert_char :: "u8 \<Rightarrow> u32 \<Rightarrow> u32 \<Rightarrow> vga \<times> memory \<Rightarrow> vga \<times> memory" where
  "insert_char ch x y = (\<lambda>(v, m). (v,
     store16 (vg_screen v + 2 * (vg_width v * y + x))
       (ucast ch OR push_bit 8 (ucast (vg_color v))) m))"

definition clear_screen :: "vga \<times> memory \<Rightarrow> vga \<times> memory" where
  "clear_screen = (\<lambda>(v, m).
     for_from 0 (vg_height v) (\<lambda>y. for_from 0 (vg_width v) (\<lambda>x. insert_char (of_char CHR '' '') x y)) (v, m))"

definition scroll_screen :: "vga \<times> memory \<Rightarrow> vga \<times> memory" where
  "scroll_screen = (\<lambda>(v, m).
     let m1 = for_from 1 (vg_height v) (\<lambda>y. for_from 0 (vg_width v) (\<lambda>x m.
                store16 (vg_screen v + 2 * (vg_width v * (y - 1) + x))
                  (load16 m (vg_screen v + 2 * (vg_width v * y + x))) m)) m;
         (v2, m2) = for_from 0 (vg_width v)
                (\<lambda>x. insert_char (of_char CHR '' '') x (vg_height v - 1)) (v, m1)
     in (v2\<lparr>vg_y := vg_y v2 - 1, vg_x := 0\<rparr>, m2))"

definition vga_write_char :: "u8 \<Rightarrow> vga \<times> memory \<Rightarrow> vga \<times> memory" where
  "vga_write_char ch = (\<lambda>(v0, m).
     let v1 = (if \<not> vg_init v0 then (init_vga v0)\<lparr>vg_init := True\<rparr> else v0);
         v2 = v1\<lparr>vg_x := vg_x v1 + 1\<rparr>;
         wrap = (vg_width v2 \<le> vg_x v2 \<or> ch = of_char CHR ''\<newline>'');
         v3 = (if wrap then v2\<lparr>vg_x := 0, vg_y := vg_y v2 + 1\<rparr> else v2)
     in if wrap \<and> ch = of_char CHR ''\<newline>'' then (v3, m)
        else let (v4, m4) = (if vg_height v3 \<le> vg_y v3 then scroll_screen (v3, m) else (v3, m))
             in insert_char ch (vg_x v4) (vg_y v4) (v4, m4))"

definition vga_put :: "u8 \<Rightarrow> vga \<times> memory \<Rightarrow> (vga \<times> memory) option" where
  "vga_put ch s = Some (vga_write_char ch s)"

definition vga_write_str :: "memory \<Rightarrow> u32 \<Rightarrow> vga \<times> memory \<Rightarrow> (u32 \<times> vga \<times> memory) option" where
  "vga_write_str = write_str vga_put"

definition vga_write :: "memory \<Rightarrow> u32 \<Rightarrow> u32 \<Rightarrow> vga \<times> memory \<Rightarrow> (u32 \<times> vga \<times> memory) option" where
  "vga_write = write_buf vga_put"

text \<open>The number printing and \<open>kprintf\<close> repeat the code of the serial line, \<open>%s\<close> left out.\<close>

definition vga_print_hex ::
  "u64 \<Rightarrow> u32 \<Rightarrow> kstack \<Rightarrow> vga \<times> memory \<Rightarrow> (kstack \<times> vga \<times> memory) option" where
  "vga_print_hex = print_hex vga_put"

definition vga_print_dec :: "u32 \<Rightarrow> kstack \<Rightarrow> vga \<times> memory \<Rightarrow> (kstack \<times> vga \<times> memory) option" where
  "vga_print_dec = print_dec vga_put"

definition vga_kprintf ::
  "memory \<Rightarrow> u32 \<Rightarrow> u32 list \<Rightarrow> kstack \<Rightarrow> vga \<times> memory \<Rightarrow> (kstack \<times> vga \<times> memory) option" where
  "vga_kprintf = kprintf False vga_put"

section \<open>Cells\<close>

text \<open>Cell \<open>i\<close> of the buffer at \<open>S\<close>, counted by rows; the 26th row is the one beyond the screen.\<close>

definition cell :: "u32 \<Rightarrow> memory \<Rightarrow> u32 \<Rightarrow> u16" where
  "cell S m i = load16 m (S + 2 * i)"

lemma cell_addr: "i < 2080 \<Longrightarrow> j < 2080 \<Longrightarrow> S + 2 * i = S + 2 * j \<longleftrightarrow> i = j" for i j :: u32
proof -
  assume "i < 2080" "j < 2080"
  then have "2 * i = 2 * j \<longleftrightarrow> i = j" by (simp add: word_unat_eq_iff word_less_nat_alt unat_word_ariths)
  then show ?thesis by simp
qed

lemma cell_addr_odd: "i < 2080 \<Longrightarrow> j < 2080 \<Longrightarrow> S + 2 * i \<noteq> S + 2 * j + 1" for i j S :: u32
proof -
  assume b: "i < 2080" "j < 2080"
  have "2 * i \<noteq> 2 * j + 1"
  proof
    assume "2 * i = 2 * j + 1"
    then have "unat (2 * i) = unat (2 * j + 1)" by simp
    then have "2 * unat i = 2 * unat j + 1" using b by (simp add: word_less_nat_alt unat_word_ariths)
    then show False by presburger
  qed
  then show ?thesis by (metis add.assoc add_left_cancel)
qed

lemma cell_store:
  assumes "i < 2080" "j < 2080"
  shows "cell S (store16 (S + 2 * i) w m) j = (if j = i then w else cell S m j)"
proof (cases "j = i")
  case False
  have "S + 2 * j \<noteq> S + 2 * i" "S + 2 * j + 1 \<noteq> S + 2 * i + 1" using cell_addr assms False by auto
  moreover have "S + 2 * j \<noteq> S + 2 * i + 1" "S + 2 * j + 1 \<noteq> S + 2 * i"
    using cell_addr_odd assms by metis+
  ultimately show ?thesis using False by (simp add: cell_def load16_def store16_def)
qed (simp add: cell_def)

lemma cell_store_outside:
  assumes "i < 2000" "\<not> in_block S 4000 a"
  shows "store16 (S + 2 * i) w m a = m a"
proof -
  have "2 * i < 4000" "2 * i + 1 < 4000" using assms(1) by (simp_all add: word_less_nat_alt unat_word_ariths)
  then have "a \<noteq> S + 2 * i" "a \<noteq> S + 2 * i + 1" using assms(2) by (auto simp: in_block_def)
  then show ?thesis by (simp add: store16_def)
qed

lemma index_unat: "y < 26 \<Longrightarrow> x < 80 \<Longrightarrow> unat (80 * y + x) = 80 * unat y + unat x" for x y :: u32
  by (simp add: word_less_nat_alt unat_word_ariths)

lemma index_bound: "y < 25 \<Longrightarrow> x < 80 \<Longrightarrow> 80 * y + x < 2000" for x y :: u32
proof -
  assume "y < 25" "x < 80"
  moreover from this have "y < 26" by (simp add: word_less_nat_alt)
  ultimately show ?thesis using index_unat [of y x] by (simp add: word_less_nat_alt)
qed

section \<open>Scrolling\<close>

definition vga_cell :: "vga \<Rightarrow> u8 \<Rightarrow> u16" where
  "vga_cell v ch = ucast ch OR push_bit 8 (ucast (vg_color v))"

text \<open>The geometry \<open>init_vga\<close> sets up; the cursor is on the screen or one row below it.\<close>

definition vga_ok :: "vga \<Rightarrow> bool" where
  "vga_ok v \<longleftrightarrow> vg_init v \<and> vg_width v = 80 \<and> vg_height v = 25 \<and> vg_x v < 80 \<and>
     vg_y v \<le> 25 \<and> (vg_y v = 25 \<longrightarrow> vg_x v = 0)"

lemma flat_eq: "c < 80 \<Longrightarrow> x < 80 \<Longrightarrow> 80 * r + c = 80 * n + x \<longleftrightarrow> r = n \<and> c = x" for r c n x :: nat
  by (cases r n rule: linorder_cases) linarith+

lemma less_80_flat:
  fixes x y r c :: u32
  assumes "1 \<le> y" "y < 25" "x < 80" "r < 25" "c < 80"
  shows "80 * r + c < 80 * (y - 1) + (x + 1) \<longleftrightarrow> 80 * r + c < 80 * (y - 1) + x \<or> r = y - 1 \<and> c = x"
    and "80 * (y - 1) + x < 2000" and "80 * y + x < 2000"
    and "80 * (y - 1) + 80 = 80 * y + 0"
    and "\<not> 80 * y + x < 80 * (y - 1) + x"
proof -
  have b: "y - 1 < 25" "unat (y - 1) = unat y - 1" "1 \<le> unat y" "y < 26" "r < 26" "y - 1 < 26"
    using assms by (simp_all add: word_less_nat_alt word_le_nat_alt unat_sub)
  have i: "unat (80 * (y - 1) + x) = 80 * (unat y - 1) + unat x" "unat (80 * r + c) = 80 * unat r + unat c"
    "unat (80 * y + x) = 80 * unat y + unat x"
    using index_unat [OF b(6) assms(3)] index_unat [OF b(5) assms(5)] index_unat [OF b(4) assms(3)] b(2)
    by simp_all
  have u: "unat (80 * (y - 1) + (x + 1)) = 80 * (unat y - 1) + unat x + 1"
  proof -
    have "unat (80 * (y - 1) + x + 1) = unat (80 * (y - 1) + x) + 1"
      using i(1) assms by (subst unat_add_lem [THEN iffD1]) (simp_all add: word_less_nat_alt)
    then show ?thesis using i(1) by (simp add: add.assoc)
  qed
  have lt: "unat x < 80" "unat c < 80" "unat y < 25" using assms by (simp_all add: word_less_nat_alt)
  have "80 * unat r + unat c < 80 * (unat y - 1) + unat x + 1 \<longleftrightarrow>
      80 * unat r + unat c < 80 * (unat y - 1) + unat x \<or> unat r = unat y - 1 \<and> unat c = unat x"
    using flat_eq [OF lt(2,1), of "unat r" "unat y - 1"] by linarith
  then show "80 * r + c < 80 * (y - 1) + (x + 1) \<longleftrightarrow> 80 * r + c < 80 * (y - 1) + x \<or> r = y - 1 \<and> c = x"
    unfolding word_less_nat_alt i u by (simp add: word_unat_eq_iff b(2))
  show "80 * (y - 1) + x < 2000" using b(1) assms(3) by (rule index_bound)
  show "80 * y + x < 2000" using assms(2,3) by (rule index_bound)
  show "80 * (y - 1) + 80 = 80 * y + 0" by (simp add: algebra_simps)
  show "\<not> 80 * y + x < 80 * (y - 1) + x" unfolding word_less_nat_alt i using b(3) lt by linarith
qed

text \<open>Rows \<open>r\<close> that the first loop has passed hold what was one row below.\<close>

definition shifted :: "u32 \<Rightarrow> memory \<Rightarrow> u32 \<Rightarrow> memory \<Rightarrow> bool" where
  "shifted S m0 k m \<longleftrightarrow>
     (\<forall>r < 25. \<forall>c < 80. cell S m (80 * r + c) =
        (if 80 * r + c < k then cell S m0 (80 * (r + 1) + c) else cell S m0 (80 * r + c))) \<and>
     (\<forall>a. \<not> in_block S 4000 a \<longrightarrow> m a = m0 a)"

lemma shift_one:
  assumes sh: "shifted S m0 (80 * (y - 1) + x) m" and b: "1 \<le> y" "y < 25" "x < 80"
  shows "shifted S m0 (80 * (y - 1) + (x + 1)) (store16 (S + 2 * (80 * (y - 1) + x)) (load16 m (S + 2 * (80 * y + x))) m)"
proof -
  have bound: "80 * (y - 1) + x < 2000" "80 * y + x < 2000" using less_80_flat [OF b b(2) b(3)] by auto
  have e: "load16 m (S + 2 * (80 * y + x)) = cell S m0 (80 * y + x)"
    using sh b less_80_flat(5) [OF b b(2) b(3)] by (auto simp: shifted_def cell_def)
  show ?thesis unfolding shifted_def
  proof (intro conjI allI impI)
    fix r c :: u32 assume rc: "r < 25" "c < 80"
    have i: "80 * r + c < 2000" using index_bound rc by simp
    have eq: "80 * r + c = 80 * (y - 1) + x \<longleftrightarrow> r = y - 1 \<and> c = x"
    proof -
      have n: "unat (80 * r + c) = 80 * unat r + unat c"
        by (rule index_unat) (use rc in \<open>simp_all add: word_less_nat_alt\<close>)
      have n': "unat (80 * (y - 1) + x) = 80 * unat (y - 1) + unat x"
        by (rule index_unat) (use b in \<open>simp_all add: word_less_nat_alt word_le_nat_alt unat_sub\<close>)
      have "80 * unat r + unat c = 80 * unat (y - 1) + unat x \<longleftrightarrow> unat r = unat (y - 1) \<and> unat c = unat x"
        by (rule flat_eq) (use rc b in \<open>simp_all add: word_less_nat_alt\<close>)
      then show ?thesis unfolding word_unat_eq_iff n n' .
    qed
    have lift: "i < 2000 \<Longrightarrow> i < 2080" for i :: u32 by (simp add: word_less_nat_alt)
    have c: "cell S (store16 (S + 2 * (80 * (y - 1) + x)) w m) (80 * r + c) =
        (if 80 * r + c = 80 * (y - 1) + x then w else cell S m (80 * r + c))" for w
      by (rule cell_store) (use bound i lift in auto)
    have m: "cell S m (80 * r + c) =
        (if 80 * r + c < 80 * (y - 1) + x then cell S m0 (80 * (r + 1) + c) else cell S m0 (80 * r + c))"
      using sh rc by (simp add: shifted_def)
    show "cell S (store16 (S + 2 * (80 * (y - 1) + x)) (load16 m (S + 2 * (80 * y + x))) m) (80 * r + c) =
        (if 80 * r + c < 80 * (y - 1) + (x + 1) then cell S m0 (80 * (r + 1) + c) else cell S m0 (80 * r + c))"
      unfolding c m less_80_flat(1) [OF b rc] eq e by auto
  next
    fix a assume "\<not> in_block S 4000 a"
    then show "store16 (S + 2 * (80 * (y - 1) + x)) (load16 m (S + 2 * (80 * y + x))) m a = m0 a"
      using cell_store_outside [OF bound(1)] sh by (simp add: shifted_def)
  qed
qed

lemma shift_rows:
  "shifted S m0 1920 (for_from 1 25 (\<lambda>y. for_from 0 80 (\<lambda>x m.
     store16 (S + 2 * (80 * (y - 1) + x)) (load16 m (S + 2 * (80 * y + x))) m)) m0)"
proof -
  have "shifted S m0 (80 * (25 - 1)) (for_from 1 25 (\<lambda>y. for_from 0 80 (\<lambda>x m.
     store16 (S + 2 * (80 * (y - 1) + x)) (load16 m (S + 2 * (80 * y + x))) m)) m0)"
  proof (rule for_from_invariant [where P = "\<lambda>y m. shifted S m0 (80 * (y - 1)) m"])
    fix y t assume y: "1 \<le> y" "y < 25" and t: "shifted S m0 (80 * (y - 1)) t"
    have "shifted S m0 (80 * (y - 1) + 80) (for_from 0 80 (\<lambda>x m.
        store16 (S + 2 * (80 * (y - 1) + x)) (load16 m (S + 2 * (80 * y + x))) m) t)"
      by (rule for_from_invariant0 [where P = "\<lambda>x m. shifted S m0 (80 * (y - 1) + x) m"])
        (use t shift_one [OF _ y] in auto)
    then show "shifted S m0 (80 * (y + 1 - 1)) (for_from 0 80 (\<lambda>x m.
        store16 (S + 2 * (80 * (y - 1) + x)) (load16 m (S + 2 * (80 * y + x))) m) t)"
      by (simp add: algebra_simps)
  qed (simp_all add: shifted_def)
  then show ?thesis by simp
qed

lemma insert_char_cell:
  assumes "vg_width v = 80" "x < 80" "y < 25"
  shows "insert_char ch x y (v, m) = (v, store16 (vg_screen v + 2 * (80 * y + x)) (vga_cell v ch) m)"
    and "r < 25 \<Longrightarrow> c < 80 \<Longrightarrow> cell (vg_screen v) (snd (insert_char ch x y (v, m))) (80 * r + c) =
      (if r = y \<and> c = x then vga_cell v ch else cell (vg_screen v) m (80 * r + c))"
    and "\<not> in_block (vg_screen v) 4000 a \<Longrightarrow> snd (insert_char ch x y (v, m)) a = m a"
proof -
  show e: "insert_char ch x y (v, m) = (v, store16 (vg_screen v + 2 * (80 * y + x)) (vga_cell v ch) m)"
    using assms by (simp add: insert_char_def vga_cell_def)
  have b: "80 * y + x < 2000" using assms by (simp add: index_bound)
  have lift: "i < 2000 \<Longrightarrow> i < 2080" for i :: u32 by (simp add: word_less_nat_alt)
  show "cell (vg_screen v) (snd (insert_char ch x y (v, m))) (80 * r + c) =
      (if r = y \<and> c = x then vga_cell v ch else cell (vg_screen v) m (80 * r + c))" if rc: "r < 25" "c < 80"
  proof -
    have n: "unat (80 * r + c) = 80 * unat r + unat c" "unat (80 * y + x) = 80 * unat y + unat x"
      using index_unat [of r c] index_unat [of y x] rc assms by (simp_all add: word_less_nat_alt)
    have "80 * unat r + unat c = 80 * unat y + unat x \<longleftrightarrow> unat r = unat y \<and> unat c = unat x"
      by (rule flat_eq) (use rc assms in \<open>simp_all add: word_less_nat_alt\<close>)
    then have "80 * r + c = 80 * y + x \<longleftrightarrow> r = y \<and> c = x" unfolding word_unat_eq_iff n .
    then show ?thesis unfolding e using cell_store [OF lift [OF b] lift [OF index_bound [OF rc]]] by simp
  qed
  show "snd (insert_char ch x y (v, m)) a = m a" if "\<not> in_block (vg_screen v) 4000 a"
    unfolding e using cell_store_outside [OF b that] by simp
qed

lemma blank_row:
  fixes m :: memory and ch :: u8
  assumes w: "vg_width v = 80"
  defines "s \<equiv> for_from 0 80 (\<lambda>x. insert_char ch x 24) (v, m)"
  shows "fst s = v"
    and "r < 25 \<Longrightarrow> c < 80 \<Longrightarrow> cell (vg_screen v) (snd s) (80 * r + c) =
      (if r = 24 then vga_cell v ch else cell (vg_screen v) m (80 * r + c))"
    and "\<not> in_block (vg_screen v) 4000 a \<Longrightarrow> snd s a = m a"
proof -
  have P: "fst s = v \<and> (\<forall>r < 25. \<forall>c < 80. cell (vg_screen v) (snd s) (80 * r + c) =
      (if r = 24 \<and> c < 80 then vga_cell v ch else cell (vg_screen v) m (80 * r + c))) \<and>
      (\<forall>a. \<not> in_block (vg_screen v) 4000 a \<longrightarrow> snd s a = m a)"
    unfolding s_def
  proof (rule for_from_invariant0 [where P = "\<lambda>x s. fst s = v \<and> (\<forall>r < 25. \<forall>c < 80.
      cell (vg_screen v) (snd s) (80 * r + c) =
      (if r = 24 \<and> c < x then vga_cell v ch else cell (vg_screen v) m (80 * r + c))) \<and>
      (\<forall>a. \<not> in_block (vg_screen v) 4000 a \<longrightarrow> snd s a = m a)"])
    fix x t assume x: "x < 80" and t: "fst t = v \<and> (\<forall>r < 25. \<forall>c < 80.
      cell (vg_screen v) (snd t) (80 * r + c) =
      (if r = 24 \<and> c < x then vga_cell v ch else cell (vg_screen v) m (80 * r + c))) \<and>
      (\<forall>a. \<not> in_block (vg_screen v) 4000 a \<longrightarrow> snd t a = m a)"
    obtain m1 where m1: "t = (v, m1)" using t by (cases t) auto
    note ins = insert_char_cell [OF w x, of 24, simplified]
    show "fst (insert_char ch x 24 t) = v \<and> (\<forall>r < 25. \<forall>c < 80.
      cell (vg_screen v) (snd (insert_char ch x 24 t)) (80 * r + c) =
      (if r = 24 \<and> c < x + 1 then vga_cell v ch else cell (vg_screen v) m (80 * r + c))) \<and>
      (\<forall>a. \<not> in_block (vg_screen v) 4000 a \<longrightarrow> snd (insert_char ch x 24 t) a = m a)"
      unfolding m1 using t ins x by (auto simp: m1 less_suc_split [OF x])
  qed auto
  show "fst s = v" using P by blast
  show "r < 25 \<Longrightarrow> c < 80 \<Longrightarrow> cell (vg_screen v) (snd s) (80 * r + c) =
      (if r = 24 then vga_cell v ch else cell (vg_screen v) m (80 * r + c))" using P by auto
  show "\<not> in_block (vg_screen v) 4000 a \<Longrightarrow> snd s a = m a" using P by auto
qed

lemma scroll_screen_spec:
  assumes "vg_width v = 80" "vg_height v = 25"
  obtains m' where "scroll_screen (v, m) = (v\<lparr>vg_y := vg_y v - 1, vg_x := 0\<rparr>, m')"
    and "\<And>r c. r < 25 \<Longrightarrow> c < 80 \<Longrightarrow> cell (vg_screen v) m' (80 * r + c) =
      (if r < 24 then cell (vg_screen v) m (80 * (r + 1) + c) else vga_cell v (of_char CHR '' ''))"
    and "\<And>a. \<not> in_block (vg_screen v) 4000 a \<Longrightarrow> m' a = m a"
proof -
  let ?S = "vg_screen v" and ?b = "of_char CHR '' '' :: u8"
  define m1 where "m1 = for_from 1 25 (\<lambda>y. for_from 0 80 (\<lambda>x m.
     store16 (?S + 2 * (80 * (y - 1) + x)) (load16 m (?S + 2 * (80 * y + x))) m)) m"
  define s where "s = for_from 0 80 (\<lambda>x. insert_char ?b x 24) (v, m1)"
  note blank = blank_row [OF assms(1), where ch = ?b and m = m1, folded s_def]
  have e: "scroll_screen (v, m) = (v\<lparr>vg_y := vg_y v - 1, vg_x := 0\<rparr>, snd s)"
  proof -
    have "s = (v, snd s)" using blank(1) by (metis prod.collapse)
    moreover have "scroll_screen (v, m) = (let (v2, m2) = s in (v2\<lparr>vg_y := vg_y v2 - 1, vg_x := 0\<rparr>, m2))"
    proof -
      have "(25 :: u32) - 1 = 24" by simp
      then show ?thesis
        by (simp only: scroll_screen_def prod.case assms m1_def [symmetric] Let_def s_def [symmetric])
    qed
    ultimately show ?thesis by (metis (no_types, lifting) case_prod_conv)
  qed
  have sh: "shifted ?S m 1920 m1" unfolding m1_def by (rule shift_rows)
  show thesis
  proof (rule that [OF e])
    show "cell ?S (snd s) (80 * r + c) =
      (if r < 24 then cell ?S m (80 * (r + 1) + c) else vga_cell v ?b)" if rc: "r < 25" "c < 80" for r c
    proof (cases "r = 24")
      case False
      then have "r < 24" using rc(1) by unat_arith
      moreover from this rc have "80 * r + c < 1920"
        using index_unat [of r c] by (simp add: word_less_nat_alt)
      ultimately show ?thesis using blank(2) [OF rc] False sh rc by (simp add: shifted_def)
    qed (use blank(2) [OF rc] in simp)
    show "snd s a = m a" if "\<not> in_block ?S 4000 a" for a
      using blank(3) [OF that] sh that by (simp add: shifted_def)
  qed
qed

lemma scroll_screen_state:
  assumes "vg_width v = 80" "vg_height v = 25"
  shows "\<exists>m'. scroll_screen (v, m) = (v\<lparr>vg_y := vg_y v - 1, vg_x := 0\<rparr>, m')"
  by (rule scroll_screen_spec [OF assms, of m]) (rule exI)

section \<open>Characters\<close>

abbreviation "newline \<equiv> (of_char CHR ''\<newline>'' :: u8)"

text \<open>Where the character goes: one to the right, on the next row at the end of one, after a scroll at the bottom.\<close>

definition next_pos :: "vga \<Rightarrow> u32 \<times> u32" where
  "next_pos v = (if vg_x v = 79 then (0, if vg_y v = 24 then 24 else vg_y v + 1)
     else if vg_y v = 25 then (0, 24) else (vg_x v + 1, vg_y v))"

definition scrolls :: "vga \<Rightarrow> bool" where
  "scrolls v \<longleftrightarrow> vg_y v = 25 \<or> vg_y v = 24 \<and> vg_x v = 79"

lemma write_char_newline:
  assumes "vga_ok v"
  shows "vga_write_char newline (v, m) = (v\<lparr>vg_x := 0, vg_y := vg_y v + 1\<rparr>, m)"
  using assms by (simp add: vga_write_char_def vga_ok_def)

lemma write_char_spec:
  assumes ok: "vga_ok v" and ch: "ch \<noteq> newline"
  obtains m' where "vga_write_char ch (v, m) = (v\<lparr>vg_x := fst (next_pos v), vg_y := snd (next_pos v)\<rparr>, m')"
    and "fst (next_pos v) < 80" "snd (next_pos v) < 25"
    and "\<And>r c. r < 25 \<Longrightarrow> c < 80 \<Longrightarrow> cell (vg_screen v) m' (80 * r + c) =
      (if (c, r) = next_pos v then vga_cell v ch
       else if \<not> scrolls v then cell (vg_screen v) m (80 * r + c)
       else if r < 24 then cell (vg_screen v) m (80 * (r + 1) + c) else vga_cell v (of_char CHR '' ''))"
    and "\<And>a. \<not> in_block (vg_screen v) 4000 a \<Longrightarrow> m' a = m a"
proof -
  have v: "vg_init v" "vg_width v = 80" "vg_height v = 25" "vg_x v < 80" "vg_y v \<le> 25"
    "vg_y v = 25 \<Longrightarrow> vg_x v = 0" using ok by (auto simp: vga_ok_def)
  have wrap: "80 \<le> vg_x v + 1 \<longleftrightarrow> vg_x v = 79" using v(4)
    by (auto simp: word_less_nat_alt word_le_nat_alt unat_word_ariths word_unat_eq_iff)
  have fx: "fst (next_pos v) < 80" using v(4) unfolding next_pos_def by (auto simp: word_less_nat_alt unat_word_ariths word_unat_eq_iff)
  have fy: "snd (next_pos v) < 25" using v(5,6) unfolding next_pos_def
    by (auto simp: word_less_nat_alt word_le_nat_alt unat_word_ariths word_unat_eq_iff)
  define v3 where "v3 = (if vg_x v = 79 then v\<lparr>vg_x := 0, vg_y := vg_y v + 1\<rparr> else v\<lparr>vg_x := vg_x v + 1\<rparr>)"
  have v3: "vg_width v3 = 80" "vg_height v3 = 25" "vg_screen v3 = vg_screen v" "vg_color v3 = vg_color v"
    using v by (simp_all add: v3_def)
  have low: "25 \<le> vg_y v3 \<longleftrightarrow> scrolls v"
    using v(5,6) unfolding v3_def scrolls_def
    by (auto simp: word_less_nat_alt word_le_nat_alt unat_word_ariths word_unat_eq_iff)
  have e: "vga_write_char ch (v, m) = (let (v4, m4) = (if scrolls v then scroll_screen (v3, m) else (v3, m))
      in insert_char ch (vg_x v4) (vg_y v4) (v4, m4))"
    using v(1,2,3) ch wrap low by (auto simp: vga_write_char_def v3_def Let_def)
  show thesis
  proof (cases "scrolls v")
    case False
    have pos: "vg_x v3 = fst (next_pos v)" "vg_y v3 = snd (next_pos v)"
      using False by (auto simp: v3_def next_pos_def scrolls_def)
    have "v3 = v\<lparr>vg_x := fst (next_pos v), vg_y := snd (next_pos v)\<rparr>"
      unfolding pos [symmetric] by (simp add: v3_def)
    with False e pos insert_char_cell [OF v3(1) fx fy, where ch = ch and m = m] v3 show thesis
      by (intro that [OF _ fx fy, of "snd (insert_char ch (fst (next_pos v)) (snd (next_pos v)) (v3, m))"])
        (auto simp: vga_cell_def prod_eq_iff)
  next
    case True
    obtain m1 where m1: "scroll_screen (v3, m) = (v3\<lparr>vg_y := vg_y v3 - 1, vg_x := 0\<rparr>, m1)"
      "\<And>r c. r < 25 \<Longrightarrow> c < 80 \<Longrightarrow> cell (vg_screen v) m1 (80 * r + c) =
        (if r < 24 then cell (vg_screen v) m (80 * (r + 1) + c) else vga_cell v (of_char CHR '' ''))"
      "\<And>a. \<not> in_block (vg_screen v) 4000 a \<Longrightarrow> m1 a = m a"
      using scroll_screen_spec [OF v3(1,2), of m] unfolding v3 vga_cell_def by blast
    define v4 where "v4 = v3\<lparr>vg_y := vg_y v3 - 1, vg_x := 0\<rparr>"
    have y25: "vg_y v3 = 25" using True v(6) by (auto simp: v3_def scrolls_def)
    have pos: "next_pos v = (0, 24)" using True v(6) by (auto simp: next_pos_def scrolls_def)
    have v4: "vg_width v4 = 80" "vg_screen v4 = vg_screen v" "vg_color v4 = vg_color v" "vg_x v4 = 0" "vg_y v4 = 24"
      using v3 y25 by (simp_all add: v4_def)
    have "v4 = v\<lparr>vg_x := 0, vg_y := 24\<rparr>" using y25 by (simp add: v4_def v3_def)
    with True e pos insert_char_cell [OF v4(1), where x = 0 and y = 24 and ch = ch and m = m1] v4 m1(1) [folded v4_def] m1(2,3) show thesis
      by (intro that [OF _ fx fy, of "snd (insert_char ch 0 24 (v4, m1))"])
        (auto simp: vga_cell_def prod_eq_iff)
  qed
qed

text \<open>
  One character keeps the cursor in place and memory outside the screen, but for a newline on the
  row below the screen.
\<close>

lemma write_char_safe:
  assumes ok: "vga_ok v" and nl: "ch = newline \<Longrightarrow> vg_y v < 25"
    and w: "vga_write_char ch (v, m) = (v', m')"
  shows "vga_ok v'" and "vg_screen v' = vg_screen v" and "vg_color v' = vg_color v"
    and "ch \<noteq> newline \<Longrightarrow> vg_y v' < 25" and "\<not> in_block (vg_screen v) 4000 a \<Longrightarrow> m' a = m a"
proof -
  have "vga_ok v' \<and> vg_screen v' = vg_screen v \<and> vg_color v' = vg_color v \<and>
      (ch \<noteq> newline \<longrightarrow> vg_y v' < 25) \<and> (\<not> in_block (vg_screen v) 4000 a \<longrightarrow> m' a = m a)"
  proof (cases "ch = newline")
    case True
    then have "v' = v\<lparr>vg_x := 0, vg_y := vg_y v + 1\<rparr>" "m' = m" using write_char_newline [OF ok, of m] w by auto
    with ok nl [OF True] True show ?thesis by (auto simp: vga_ok_def inc_le)
  next
    case False
    obtain m1 where "vga_write_char ch (v, m) = (v\<lparr>vg_x := fst (next_pos v), vg_y := snd (next_pos v)\<rparr>, m1)"
      "fst (next_pos v) < 80" "snd (next_pos v) < 25" "\<And>a. \<not> in_block (vg_screen v) 4000 a \<Longrightarrow> m1 a = m a"
      by (rule write_char_spec [OF ok False, of m], rule that) assumption+
    with w ok show ?thesis by (auto simp: vga_ok_def)
  qed
  then show "vga_ok v'" "vg_screen v' = vg_screen v" "vg_color v' = vg_color v"
    "ch \<noteq> newline \<Longrightarrow> vg_y v' < 25" "\<not> in_block (vg_screen v) 4000 a \<Longrightarrow> m' a = m a" by auto
qed

text \<open>A text without two newlines in a row, written from a row of the screen, stays on it.\<close>

fun no_blank_line :: "u8 list \<Rightarrow> bool" where
  "no_blank_line (a # b # cs) \<longleftrightarrow> \<not> (a = newline \<and> b = newline) \<and> no_blank_line (b # cs)"
| "no_blank_line _ \<longleftrightarrow> True"

lemma write_text_safe:
  assumes "vga_ok v" "no_blank_line cs" and "vg_y v < 25 \<or> cs = [] \<or> hd cs \<noteq> newline"
  obtains v' m' where "put_all vga_put cs (v, m) = Some (v', m')" "vga_ok v'" "vg_screen v' = vg_screen v"
    "\<And>a. \<not> in_block (vg_screen v) 4000 a \<Longrightarrow> m' a = m a"
proof -
  have "\<exists>v' m'. put_all vga_put cs (v, m) = Some (v', m') \<and> vga_ok v' \<and> vg_screen v' = vg_screen v \<and>
      (\<forall>a. \<not> in_block (vg_screen v) 4000 a \<longrightarrow> m' a = m a)"
    using assms
  proof (induction cs arbitrary: v m)
    case (Cons c cs)
    obtain v1 m1 where w: "vga_write_char c (v, m) = (v1, m1)" by (cases "vga_write_char c (v, m)")
    have nl: "c = newline \<Longrightarrow> vg_y v < 25" using Cons.prems(3) by auto
    note safe = write_char_safe [OF Cons.prems(1) nl w]
    have "no_blank_line cs" using Cons.prems(2) by (cases cs) auto
    moreover have "vg_y v1 < 25 \<or> cs = [] \<or> hd cs \<noteq> newline"
      using safe(4) Cons.prems(2) by (cases "c = newline"; cases cs) auto
    ultimately obtain v2 m2 where "put_all vga_put cs (v1, m1) = Some (v2, m2)" "vga_ok v2" "vg_screen v2 = vg_screen v1"
      "\<forall>a. \<not> in_block (vg_screen v1) 4000 a \<longrightarrow> m2 a = m1 a"
      using Cons.IH [OF safe(1), of m1] by blast
    moreover have "vga_put c (v, m) = Some (v1, m1)" using w by (simp add: vga_put_def)
    ultimately show ?case using safe(2,5) by auto
  qed simp
  then show thesis using that by blast
qed

text \<open>
  Two newlines in a row at the bottom leave the cursor two rows below the screen; the scroll moves
  up by one only, and the next character is stored after the last cell of the screen.
\<close>

lemma blank_line_overrun:
  assumes ok: "vga_ok v" and y: "vg_y v = 24" and ch: "ch \<noteq> newline"
    and w: "put_all vga_put [newline, newline, ch] (v, m) = Some (v', m')"
  shows "vg_y v' = 25" and "load16 m' (vg_screen v + 4000) = vga_cell v ch"
proof -
  have v: "vg_init v" "vg_width v = 80" "vg_height v = 25" using ok by (auto simp: vga_ok_def)
  define v2 where "v2 = v\<lparr>vg_x := 0, vg_y := 26\<rparr>"
  have nl: "vga_write_char newline (u, m) = (u\<lparr>vg_x := 0, vg_y := vg_y u + 1\<rparr>, m)" if "vg_init u" for u
    using that by (simp add: vga_write_char_def)
  have "put_all vga_put [newline, newline, ch] (v, m) = vga_put ch (v2, m)"
    using v y by (simp add: vga_put_def nl [simplified] v2_def)
  moreover obtain m1 where "scroll_screen (v2\<lparr>vg_x := 1\<rparr>, m) = (v2\<lparr>vg_x := 1\<rparr>\<lparr>vg_y := 25, vg_x := 0\<rparr>, m1)"
    using scroll_screen_state [of "v2\<lparr>vg_x := 1\<rparr>" m] v by (auto simp: v2_def)
  ultimately have "(v', m') = insert_char ch 0 25 (v2\<lparr>vg_y := 25, vg_x := 0\<rparr>, m1)"
    using w v ch by (simp add: vga_put_def vga_write_char_def v2_def Let_def word_le_nat_alt)
  then show "vg_y v' = 25" "load16 m' (vg_screen v + 4000) = vga_cell v ch"
    using v by (auto simp: insert_char_def v2_def vga_cell_def)
qed

lemma init_vga_ok: "vga_ok (init_vga v) \<and> vg_screen (init_vga v) = 0xC03FF000 \<and> vg_color (init_vga v) = 7"
  by (simp add: vga_ok_def init_vga_def set_color_def)

end
