(* ===== verification/Gdt.thy ===== *)
theory Gdt
  imports Serial
begin

text \<open>
  Segmentation (src/src/gdt/gdt.cpp): the descriptor macro, the table of six descriptors, the task
  state segment and \<open>gdt_init\<close>. The addresses the linker gives to \<open>tss\<close>, \<open>gdt\<close> and \<open>stack_top\<close> are
  parameters. The reference is how the processor reads a descriptor and the I/O permission map.
\<close>

section \<open>Descriptors\<close>

record descriptor =
  d_limit_low :: u16
  d_base_low :: u16
  d_base_mid :: u8
  d_access :: u8
  d_flags :: u8
  d_base_high :: u8

definition GDT_SEGMENT_DESCRIPTOR :: "u32 \<Rightarrow> u32 \<Rightarrow> u8 \<Rightarrow> u8 \<Rightarrow> descriptor" where
  "GDT_SEGMENT_DESCRIPTOR Base Limit Access Flags =
     \<lparr>d_limit_low = ucast (Limit AND 0xFFFF), d_base_low = ucast (Base AND 0xFFFF),
      d_base_mid = ucast (drop_bit 16 Base AND 0xFF), d_access = Access,
      d_flags = ucast (push_bit 4 (ucast Flags AND 0xF) OR (drop_bit 16 Limit AND 0xF :: u32)),
      d_base_high = ucast (drop_bit 24 Base AND 0xFF)\<rparr>"

record tss_entry =
  ts_previous_task :: u32
  ts_esp0 :: u32
  ts_ss0 :: u32
  ts_esp1 :: u32
  ts_ss1 :: u32
  ts_esp2 :: u32
  ts_ss2 :: u32
  ts_cr3 :: u32
  ts_eip :: u32
  ts_eflags :: u32
  ts_eax :: u32
  ts_ecx :: u32
  ts_edx :: u32
  ts_ebx :: u32
  ts_esp :: u32
  ts_ebp :: u32
  ts_esi :: u32
  ts_edi :: u32
  ts_es :: u32
  ts_cs :: u32
  ts_ss :: u32
  ts_ds :: u32
  ts_fs :: u32
  ts_gs :: u32
  ts_ldt_selector :: u32
  ts_io_map_address :: u32

definition SIZEOF_TSS :: u32 where
  "SIZEOF_TSS = 104"

definition zero_tss :: tss_entry where
  "zero_tss = \<lparr>ts_previous_task = 0, ts_esp0 = 0, ts_ss0 = 0, ts_esp1 = 0, ts_ss1 = 0, ts_esp2 = 0,
     ts_ss2 = 0, ts_cr3 = 0, ts_eip = 0, ts_eflags = 0, ts_eax = 0, ts_ecx = 0, ts_edx = 0,
     ts_ebx = 0, ts_esp = 0, ts_ebp = 0, ts_esi = 0, ts_edi = 0, ts_es = 0, ts_cs = 0, ts_ss = 0,
     ts_ds = 0, ts_fs = 0, ts_gs = 0, ts_ldt_selector = 0, ts_io_map_address = 0\<rparr>"

definition zero_descriptor :: descriptor where
  "zero_descriptor = \<lparr>d_limit_low = 0, d_base_low = 0, d_base_mid = 0, d_access = 0, d_flags = 0, d_base_high = 0\<rparr>"

section \<open>Initialisation\<close>

text \<open>The static initialiser of the table.\<close>

definition gdt_static :: "descriptor list" where
  "gdt_static =
     [GDT_SEGMENT_DESCRIPTOR 0 0 0 0,
      GDT_SEGMENT_DESCRIPTOR 0 0xFFFFF 0x9A 0xC,
      GDT_SEGMENT_DESCRIPTOR 0 0xFFFFF 0x92 0xC,
      GDT_SEGMENT_DESCRIPTOR 0 0xFFFFF 0xFA 0xC,
      GDT_SEGMENT_DESCRIPTOR 0 0xFFFFF 0xF2 0xC,
      zero_descriptor]"

record gdt_state =
  gs_gdt :: "descriptor list"
  gs_tss :: tss_entry
  gs_limit :: u16
  gs_base :: u32

text \<open>\<open>gdt_fill\<close> is what \<open>gdt_init\<close> does to the tables; around it, the messages it prints.\<close>

definition gdt_fill :: "u32 \<Rightarrow> u32 \<Rightarrow> u32 \<Rightarrow> gdt_state \<Rightarrow> gdt_state" where
  "gdt_fill tss_addr gdt_addr stack_top s =
     (let t = zero_tss;
          g = (gs_gdt s)[5 := GDT_SEGMENT_DESCRIPTOR tss_addr (SIZEOF_TSS - 1) 0x89 0x00]
      in \<lparr>gs_gdt = g,
          gs_tss = t\<lparr>ts_cs := 0x0B, ts_ss := 0x13, ts_es := 0x13, ts_ds := 0x13, ts_fs := 0x13,
            ts_gs := 0x13, ts_ss0 := 0x10, ts_esp0 := stack_top\<rparr>,
          gs_limit = 6 * 8 - 1, gs_base = gdt_addr\<rparr>)"

text \<open>A descriptor read through the \<open>uint64_t\<close> pointer of the messages.\<close>

definition gdt_value :: "descriptor \<Rightarrow> u64" where
  "gdt_value d = ucast (d_limit_low d) OR push_bit 16 (ucast (d_base_low d)) OR push_bit 32 (ucast (d_base_mid d))
     OR push_bit 40 (ucast (d_access d)) OR push_bit 48 (ucast (d_flags d)) OR push_bit 56 (ucast (d_base_high d))"

definition gdt_log :: "string \<Rightarrow> descriptor \<Rightarrow> u8 list" where
  "gdt_log name d = lit ''[GDT] Entry: '' @ lit name @ lit '' Descriptor : '' @
     hex_text 16 (unat (gdt_value d)) @ lit ''\<newline>''"

definition gdt_init :: "u32 \<Rightarrow> u32 \<Rightarrow> u32 \<Rightarrow> gdt_state \<times> serial \<Rightarrow> (gdt_state \<times> serial) option" where
  "gdt_init tss_addr gdt_addr stack_top = (\<lambda>(g, s).
     let g' = gdt_fill tss_addr gdt_addr stack_top g; v = gs_gdt g' in
     map_option (Pair g')
       (serial_log (lit ''[GDT] Entry: GDT address : '' @ hex_text 8 (unat gdt_addr) @ lit ''\<newline>'' @
          gdt_log ''NULL'' (v ! 0) @ gdt_log ''Kernel Code'' (v ! 1) @ gdt_log ''Kernel Data'' (v ! 2) @
          gdt_log ''User Code'' (v ! 3) @ gdt_log ''User Data'' (v ! 4) @ gdt_log ''TSS'' (v ! 5)) s))"

lemma gdt_init_returns:
  assumes "fair (se_ports s)"
  shows "\<exists>s'. gdt_init tss_addr gdt_addr stack_top (g, s) = Some (gdt_fill tss_addr gdt_addr stack_top g, s') \<and>
    fair (se_ports s')"
proof -
  obtain s' where "gdt_init tss_addr gdt_addr stack_top (g, s) = Some (gdt_fill tss_addr gdt_addr stack_top g, s')"
    and "fair (se_ports s')"
    unfolding gdt_init_def prod.case Let_def
    by (simp del: lit_simps) (use serial_log_returns [OF assms] in blast)
  then show ?thesis by blast
qed

section \<open>What the processor reads\<close>

definition desc_base :: "descriptor \<Rightarrow> u32" where
  "desc_base d = ucast (d_base_low d) OR push_bit 16 (ucast (d_base_mid d)) OR push_bit 24 (ucast (d_base_high d))"

definition desc_raw_limit :: "descriptor \<Rightarrow> u32" where
  "desc_raw_limit d = ucast (d_limit_low d) OR push_bit 16 (ucast (d_flags d AND 0xF))"

text \<open>With the granularity bit the limit counts pages.\<close>

definition desc_limit :: "descriptor \<Rightarrow> u32" where
  "desc_limit d = (if bit (d_flags d) 7 then push_bit 12 (desc_raw_limit d) OR 0xFFF else desc_raw_limit d)"

definition desc_dpl :: "descriptor \<Rightarrow> u8" where
  "desc_dpl d = drop_bit 5 (d_access d) AND 3"

definition desc_present :: "descriptor \<Rightarrow> bool" where
  "desc_present d \<longleftrightarrow> bit (d_access d) 7"

definition desc_code :: "descriptor \<Rightarrow> bool" where
  "desc_code d \<longleftrightarrow> bit (d_access d) 4 \<and> bit (d_access d) 3"

definition desc_data :: "descriptor \<Rightarrow> bool" where
  "desc_data d \<longleftrightarrow> bit (d_access d) 4 \<and> \<not> bit (d_access d) 3"

text \<open>The descriptor a selector names.\<close>

definition selected :: "gdt_state \<Rightarrow> u16 \<Rightarrow> descriptor option" where
  "selected s sel =
     (if unat (sel OR 7) \<le> unat (gs_limit s) \<and> unat sel div 8 < length (gs_gdt s)
      then Some (gs_gdt s ! (unat sel div 8)) else None)"

lemma low_masks: "(0xFF :: u32) = mask 8" "(0xFFFF :: u32) = mask 16" "(0xF :: u32) = mask 4" "(0xF :: u8) = mask 4"
  by (simp_all add: mask_eq_exp_minus_1)

lemma GDT_base: "desc_base (GDT_SEGMENT_DESCRIPTOR b l a f) = b"
proof (rule bit_word_eqI)
  fix n assume "n < LENGTH(32)"
  then consider "n < 16" | "16 \<le> n" "n < 24" | "24 \<le> n" "n < 32" by fastforce
  then show "bit (desc_base (GDT_SEGMENT_DESCRIPTOR b l a f)) n = bit b n"
    unfolding desc_base_def GDT_SEGMENT_DESCRIPTOR_def low_masks by cases (auto simp: bit_simps)
qed

lemma bit_above_20: "l < 2 ^ 20 \<Longrightarrow> 20 \<le> n \<Longrightarrow> \<not> bit l n" for l :: u32
proof -
  assume "l < 2 ^ 20" "20 \<le> n"
  then have "take_bit 20 l = l"
    by (simp add: word_unat_eq_iff unsigned_take_bit_eq take_bit_nat_eq_self word_less_nat_alt)
  then have "bit (take_bit 20 l) n = bit l n" by simp
  with \<open>20 \<le> n\<close> show ?thesis by (simp add: bit_take_bit_iff)
qed

lemma GDT_limit:
  assumes "l < 2 ^ 20"
  shows "desc_raw_limit (GDT_SEGMENT_DESCRIPTOR b l a f) = l"
proof (rule bit_word_eqI)
  fix n assume "n < LENGTH(32)"
  then consider "n < 16" | "16 \<le> n" "n < 20" | "20 \<le> n" "n < 32" by fastforce
  then show "bit (desc_raw_limit (GDT_SEGMENT_DESCRIPTOR b l a f)) n = bit l n"
    unfolding desc_raw_limit_def GDT_SEGMENT_DESCRIPTOR_def low_masks
    by cases (auto simp: bit_simps bit_above_20 [OF assms])
qed

lemma GDT_access: "d_access (GDT_SEGMENT_DESCRIPTOR b l a f) = a"
  by (simp add: GDT_SEGMENT_DESCRIPTOR_def)

lemma GDT_granularity: "bit (d_flags (GDT_SEGMENT_DESCRIPTOR b l a f)) 7 = bit f 3"
  unfolding GDT_SEGMENT_DESCRIPTOR_def low_masks by (simp add: bit_simps)

section \<open>The segments of the kernel\<close>

text \<open>A flat segment: present, base 0, limit 4 GiB.\<close>

definition flat :: "descriptor \<Rightarrow> bool" where
  "flat d \<longleftrightarrow> desc_present d \<and> desc_base d = 0 \<and> desc_limit d = 0xFFFFFFFF"

lemma flat_descriptor: "bit a 7 \<Longrightarrow> bit f 3 \<Longrightarrow> flat (GDT_SEGMENT_DESCRIPTOR 0 0xFFFFF a f)"
  by (simp add: flat_def desc_present_def GDT_access GDT_base desc_limit_def GDT_granularity GDT_limit)

lemma gdt_fill_selectors:
  fixes tss_addr gdt_addr stack_top :: u32
  assumes "gs_gdt s = gdt_static"
  defines "s' \<equiv> gdt_fill tss_addr gdt_addr stack_top s"
  shows "selected s' 0x08 = Some (GDT_SEGMENT_DESCRIPTOR 0 0xFFFFF 0x9A 0xC)"
    and "selected s' 0x10 = Some (GDT_SEGMENT_DESCRIPTOR 0 0xFFFFF 0x92 0xC)"
    and "selected s' 0x1B = Some (GDT_SEGMENT_DESCRIPTOR 0 0xFFFFF 0xFA 0xC)"
    and "selected s' 0x23 = Some (GDT_SEGMENT_DESCRIPTOR 0 0xFFFFF 0xF2 0xC)"
    and "selected s' 0x28 = Some (GDT_SEGMENT_DESCRIPTOR tss_addr (SIZEOF_TSS - 1) 0x89 0)"
    and "selected s' 0x30 = None"
  using assms by (simp_all add: gdt_fill_def gdt_static_def selected_def)

lemma gdt_fill_flat:
  assumes "gs_gdt s = gdt_static" and "sel \<in> {0x08, 0x10, 0x1B, 0x23}"
  shows "\<exists>d. selected (gdt_fill tss_addr gdt_addr stack_top s) sel = Some d \<and> flat d \<and>
    desc_dpl d = ucast (sel AND 3) \<and> (if sel = 0x08 \<or> sel = 0x1B then desc_code d else desc_data d)"
  using assms(2)
  by (auto simp: gdt_fill_selectors [OF assms(1)] flat_descriptor desc_dpl_def desc_code_def desc_data_def GDT_access)

section \<open>Ports open to user programs\<close>

text \<open>
  The segment in memory, and the rule of the processor for a port access with less privilege than
  the I/O level: the two bytes of the map that hold the bit lie within the limit, and the bit is
  clear. The map starts at the offset in the upper half of the last word.
\<close>

definition tss_words :: "tss_entry \<Rightarrow> u32 list" where
  "tss_words t = [ts_previous_task t, ts_esp0 t, ts_ss0 t, ts_esp1 t, ts_ss1 t, ts_esp2 t, ts_ss2 t,
     ts_cr3 t, ts_eip t, ts_eflags t, ts_eax t, ts_ecx t, ts_edx t, ts_ebx t, ts_esp t, ts_ebp t,
     ts_esi t, ts_edi t, ts_es t, ts_cs t, ts_ss t, ts_ds t, ts_fs t, ts_gs t, ts_ldt_selector t,
     ts_io_map_address t]"

definition tss_byte :: "tss_entry \<Rightarrow> nat \<Rightarrow> u8" where
  "tss_byte t i = ucast (drop_bit (8 * (i mod 4)) (tss_words t ! (i div 4)))"

definition io_allowed :: "tss_entry \<Rightarrow> nat \<Rightarrow> nat \<Rightarrow> bool" where
  "io_allowed t limit port =
     (let i = unat (drop_bit 16 (ts_io_map_address t)) + port div 8 in
      i + 1 \<le> limit \<and> \<not> bit (tss_byte t i) (port mod 8))"

lemma gdt_fill_io:
  "io_allowed (gs_tss (gdt_fill tss_addr gdt_addr stack_top s)) 103 0x60"
  "io_allowed (gs_tss (gdt_fill tss_addr gdt_addr stack_top s)) 103 0x43"
  by (simp_all add: io_allowed_def gdt_fill_def zero_tss_def tss_byte_def tss_words_def)

lemma gdt_fill_stack:
  fixes tss_addr gdt_addr stack_top :: u32
  assumes "gs_gdt s = gdt_static"
  defines "s' \<equiv> gdt_fill tss_addr gdt_addr stack_top s"
  shows "\<exists>d. selected s' 0x28 = Some d \<and> desc_present d \<and> desc_base d = tss_addr \<and> desc_limit d = 103"
    and "ts_esp0 (gs_tss s') = stack_top"
    and "\<exists>d. selected s' (ucast (ts_ss0 (gs_tss s'))) = Some d \<and> desc_data d \<and> desc_dpl d = 0"
proof -
  have "ts_ss0 (gs_tss s') = 0x10" by (simp add: s'_def gdt_fill_def)
  then show "\<exists>d. selected s' (ucast (ts_ss0 (gs_tss s'))) = Some d \<and> desc_data d \<and> desc_dpl d = 0"
    unfolding s'_def using gdt_fill_selectors(2) [OF assms(1)]
    by (simp add: desc_data_def desc_dpl_def GDT_access)
  show "\<exists>d. selected s' 0x28 = Some d \<and> desc_present d \<and> desc_base d = tss_addr \<and> desc_limit d = 103"
    unfolding s'_def
    by (simp add: gdt_fill_selectors(5) [OF assms(1)] desc_present_def GDT_access GDT_base desc_limit_def
        GDT_granularity GDT_limit SIZEOF_TSS_def)
qed (simp add: s'_def gdt_fill_def)

end
