(* ===== verification/Idt.thy ===== *)
theory Idt
  imports Pic Serial Gdt
begin

text \<open>
  The interrupt descriptor table (src/src/interrupts/idt.cpp): the entries and \<open>idt_init\<close>, with the
  addresses of the assembly stubs (\<open>isr_table\<close>, \<open>irq_table\<close>, \<open>isr_128\<close>) as parameters. \<open>gate\<close> is how
  the processor reads an entry.
\<close>

record idt_entry =
  ie_offset_low :: u16
  ie_selector :: u16
  ie_reserved :: u8
  ie_flags :: u8
  ie_offset_high :: u16

definition idt_setup_entry :: "u32 \<Rightarrow> u16 \<Rightarrow> u8 \<Rightarrow> idt_entry" where
  "idt_setup_entry offset selector flags =
     \<lparr>ie_offset_low = ucast (offset AND 0xFFFF), ie_selector = selector, ie_reserved = 0,
      ie_flags = flags, ie_offset_high = ucast (drop_bit 16 offset AND 0xFFFF)\<rparr>"

definition zero_entry :: idt_entry where
  "zero_entry = \<lparr>ie_offset_low = 0, ie_selector = 0, ie_reserved = 0, ie_flags = 0, ie_offset_high = 0\<rparr>"

definition IDT_ENTRIES :: u32 where
  "IDT_ENTRIES = 256"

text \<open>The limit of the table, as \<open>idtr\<close> holds it.\<close>

definition idtr_limit :: u16 where
  "idtr_limit = 8 * 256 - 1"

definition idt_init ::
  "(u32 \<Rightarrow> u32) \<Rightarrow> (u32 \<Rightarrow> u32) \<Rightarrow> u32 \<Rightarrow> (u32 \<Rightarrow> idt_entry) \<times> bool \<times> serial \<Rightarrow>
    ((u32 \<Rightarrow> idt_entry) \<times> bool \<times> serial) option" where
  "idt_init isr_table irq_table isr_128 = (\<lambda>(idt, pic, s).
     let idt0 = (\<lambda>i. if i < IDT_ENTRIES then zero_entry else idt i);
         idt1 = for_from 0 32 (\<lambda>i t. t(i := idt_setup_entry (isr_table i) 0x08 0x8E)) idt0;
         idt2 = idt1(0x80 := idt_setup_entry isr_128 0x08 0xEE);
         (pic', p) = PIC_new (pic, se_ports s)
     in map_option
          (\<lambda>s'. (for_from 32 48 (\<lambda>i t. t(i := idt_setup_entry (irq_table (i - 32)) 0x08 0x8E)) idt2, pic', s'))
          (serial_log (lit ''[MAIN] PIC > OK\<newline>'') (s\<lparr>se_ports := p\<rparr>)))"

section \<open>What the processor reads\<close>

text \<open>A present 32-bit interrupt gate: offset, selector and the privilege that may call it.\<close>

definition gate :: "idt_entry \<Rightarrow> (u32 \<times> u16 \<times> u8) option" where
  "gate e =
     (if bit (ie_flags e) 7 \<and> ie_flags e AND 0x1F = 0x0E
      then Some (ucast (ie_offset_low e) OR push_bit 16 (ucast (ie_offset_high e)), ie_selector e,
        drop_bit 5 (ie_flags e) AND 3)
      else None)"

lemma gate_offset:
  "ucast (ie_offset_low (idt_setup_entry off sel fl)) OR
    push_bit 16 (ucast (ie_offset_high (idt_setup_entry off sel fl))) = off"
proof (rule bit_word_eqI)
  fix n assume "n < LENGTH(32)"
  then consider "n < 16" | "16 \<le> n" "n < 32" by fastforce
  then show "bit (ucast (ie_offset_low (idt_setup_entry off sel fl)) OR
    push_bit 16 (ucast (ie_offset_high (idt_setup_entry off sel fl))) :: u32) n = bit off n"
    unfolding idt_setup_entry_def low_masks by cases (auto simp: bit_simps)
qed

lemma gate_kernel: "gate (idt_setup_entry off sel 0x8E) = Some (off, sel, 0)"
  and gate_user: "gate (idt_setup_entry off sel 0xEE) = Some (off, sel, 3)"
  and gate_zero: "gate zero_entry = None"
  unfolding gate_def gate_offset by (simp_all add: idt_setup_entry_def zero_entry_def)

lemma fill_range:
  "i \<le> n \<Longrightarrow> for_from i n (\<lambda>j t. t(j := f j)) t x = (if i \<le> x \<and> x < n then f x else t x)" for i n x :: u32
proof -
  assume le: "i \<le> n"
  have "\<forall>x. for_from i n (\<lambda>j t. t(j := f j)) t x = (if i \<le> x \<and> x < n then f x else t x)"
  proof (rule for_from_invariant [where
        P = "\<lambda>j u. \<forall>x. u x = (if i \<le> x \<and> x < j then f x else t x)", OF _ le])
    show "\<forall>x. t x = (if i \<le> x \<and> x < i then f x else t x)" by auto
    fix j u assume "i \<le> j" "j < n" "\<forall>x. u x = (if i \<le> x \<and> x < j then f x else t x)"
    then show "\<forall>x. (u(j := f j)) x = (if i \<le> x \<and> x < j + 1 then f x else t x)"
      by (auto simp: less_suc_split)
  qed
  then show ?thesis by blast
qed

lemma idt_init_gates:
  assumes "fair (se_ports s)" and "i < IDT_ENTRIES"
  shows "\<exists>idt' pic' s'. idt_init isr_table irq_table isr_128 (idt, pic, s) = Some (idt', pic', s') \<and>
    gate (idt' i) =
      (if i < 32 then Some (isr_table i, 0x08, 0)
       else if i < 48 then Some (irq_table (i - 32), 0x08, 0)
       else if i = 0x80 then Some (isr_128, 0x08, 3) else None)"
proof -
  obtain pic' p where pic: "PIC_new (pic, se_ports s) = (pic', p)" by (cases "PIC_new (pic, se_ports s)")
  have "fair (snd (PIC_new (pic, se_ports s)))" using assms(1) by (simp add: PIC_new_def)
  then have "fair (se_ports (s\<lparr>se_ports := p\<rparr>))" by (simp add: pic)
  from serial_log_returns [OF this, of "lit ''[MAIN] PIC > OK\<newline>''"] obtain s' where
    "serial_log (lit ''[MAIN] PIC > OK\<newline>'') (s\<lparr>se_ports := p\<rparr>) = Some s'" by blast
  moreover have "x < 32 \<longleftrightarrow> \<not> 32 \<le> x" "x < 48 \<Longrightarrow> x \<noteq> 0x80" for x :: u32 by auto
  ultimately show ?thesis
    using assms(2) by (auto simp: idt_init_def pic fill_range gate_kernel gate_user gate_zero simp del: lit_simps)
qed

text \<open>Only the system call gate may be called by user programs.\<close>

lemma idt_init_user_gate:
  assumes "fair (se_ports s)" and "i < IDT_ENTRIES"
  shows "\<exists>idt' pic' s'. idt_init isr_table irq_table isr_128 (idt, pic, s) = Some (idt', pic', s') \<and>
    ((\<exists>off sel. gate (idt' i) = Some (off, sel, 3)) \<longleftrightarrow> i = 0x80)"
proof -
  have "\<not> (0x80 :: u32) < 32" "\<not> (0x80 :: u32) < 48" by simp_all
  with idt_init_gates [OF assms, of isr_table irq_table isr_128 idt pic] show ?thesis
    by (auto split: if_splits)
qed

text \<open>A hardware line reaches its stub: the vector of the controllers selects the gate of the line.\<close>

lemma irq_reaches_stub:
  assumes "fair (se_ports s)" and "n < 16" and "po_writes (snd (PIC_new (False, p))) = po_writes p @ ws"
  shows "\<exists>v idt' pic' s'. pics_vector n (pics_run ws c) = Some v \<and>
    idt_init isr_table irq_table isr_128 (idt, pic, s) = Some (idt', pic', s') \<and>
    gate (idt' (ucast v)) = Some (irq_table (of_nat n), 0x08, 0)"
proof -
  let ?v = "0x20 + of_nat n :: u8"
  have uv: "unat ?v = 32 + n" using assms(2)
    by (simp add: unat_word_ariths unat_of_nat)
  then have "ucast ?v = (32 + of_nat n :: u32)" using assms(2)
    by (simp add: word_unat_eq_iff unsigned_ucast_eq take_bit_eq_mod unat_word_ariths unat_of_nat)
  moreover have "(32 + of_nat n :: u32) < IDT_ENTRIES" "\<not> (32 + of_nat n :: u32) < 32"
    "(32 + of_nat n :: u32) < 48"
    using assms(2) by (simp_all add: word_less_nat_alt unat_word_ariths unat_of_nat IDT_ENTRIES_def)
  ultimately show ?thesis
    using idt_init_gates [OF assms(1), of "32 + of_nat n" isr_table irq_table isr_128 idt pic]
      PIC_new_vectors [OF assms(3,2), of c] by auto
qed

end
