(* ===== verification/PmmInit.thy ===== *)
theory PmmInit
  imports Paging Serial
begin

text \<open>
  \<open>PMM::init\<close> (src/src/pmm/pmm.cpp) on the memory map of the boot loader
  (src/src/includes/multiboot.h). The addresses of \<open>kernel_start\<close> and \<open>kernel_end\<close>, which the linker
  script places in the kernel window, are parameters, as is CR3. The two loops over the map count
  in steps of 24 bytes and end only if the count does not wrap, so they are partial.
\<close>

section \<open>The memory map\<close>

definition SIZEOF_MMAP :: u32 where
  "SIZEOF_MMAP = 24"

definition MULTIBOOT_MEMORY_AVAILABLE :: u32 where
  "MULTIBOOT_MEMORY_AVAILABLE = 1"

text \<open>Fields of \<open>multiboot_info_t\<close> and of \<open>multiboot_memory_map_t\<close>, at their offsets.\<close>

definition mbd_flags :: "memory \<Rightarrow> u32 \<Rightarrow> u32" where "mbd_flags m a = load32 m a"
definition mbd_mods_addr :: "memory \<Rightarrow> u32 \<Rightarrow> u32" where "mbd_mods_addr m a = load32 m (a + 24)"
definition mbd_mmap_length :: "memory \<Rightarrow> u32 \<Rightarrow> u32" where "mbd_mmap_length m a = load32 m (a + 44)"
definition mbd_mmap_addr :: "memory \<Rightarrow> u32 \<Rightarrow> u32" where "mbd_mmap_addr m a = load32 m (a + 48)"

definition mmap_addr_low :: "memory \<Rightarrow> u32 \<Rightarrow> u32" where "mmap_addr_low m e = load32 m (e + 4)"
definition mmap_type :: "memory \<Rightarrow> u32 \<Rightarrow> u32" where "mmap_type m e = load32 m (e + 20)"

definition mmap_len :: "memory \<Rightarrow> u32 \<Rightarrow> u64" where
  "mmap_len m e = push_bit 32 (ucast (load32 m (e + 16))) OR ucast (load32 m (e + 12))"

text \<open>\<open>for (uint32_t i = 0; i < mmap_length; i += sizeof(multiboot_memory_map_t))\<close>, the bound read anew
  in every round.\<close>

partial_function (option) mmap_loop ::
  "('s \<Rightarrow> u32) \<Rightarrow> (u32 \<Rightarrow> 's \<Rightarrow> 's option) \<Rightarrow> u32 \<Rightarrow> 's \<Rightarrow> 's option" where
  "mmap_loop len f i s =
     (if i < len s
      then (case f i s of None \<Rightarrow> None | Some s' \<Rightarrow> mmap_loop len f (i + SIZEOF_MMAP) s')
      else Some s)"

section \<open>init\<close>

definition region_log :: "u32 \<Rightarrow> u64 \<Rightarrow> bool \<Rightarrow> u8 list" where
  "region_log map_addr map_len free =
     lit ''[PMM] Start Addr: '' @ hex_text 8 (unat map_addr) @ lit '' | Length: '' @
     hex_text 16 (unat map_len) @ (if free then lit '' | Type: Free Memory\<newline>''
                                   else lit '' | Type: Unusable Memory\<newline>'')"

definition count_round :: "memory \<Rightarrow> u32 \<Rightarrow> u32 \<Rightarrow> u64 \<times> serial \<Rightarrow> (u64 \<times> serial) option" where
  "count_round m mbd i = (\<lambda>(total, s).
     let e = P2V (mbd_mmap_addr m mbd) + i in
     map_option (\<lambda>s'. (total + mmap_len m e, s'))
       (serial_log (region_log (mmap_addr_low m e) (mmap_len m e)
         (mmap_type m e = MULTIBOOT_MEMORY_AVAILABLE)) s))"

definition mark_round ::
  "pmm \<Rightarrow> u32 \<Rightarrow> u32 \<Rightarrow> u32 \<Rightarrow> u32 \<Rightarrow> u32 \<Rightarrow> memory \<Rightarrow> memory option" where
  "mark_round P kernel_start bitmap_ptr bitmap_pages mbd i m =
     (let e = P2V (mbd_mmap_addr m mbd) + i; map_len = mmap_len m e; map_addr = mmap_addr_low m e in
      Some (if mmap_type m e = MULTIBOOT_MEMORY_AVAILABLE
        then (let start = map_addr; end = ucast (ucast map_addr + map_len);
                  bitmap_end_addr = bitmap_ptr + bitmap_pages * FRAME_SIZE;
                  m1 = (if start < kernel_start then set_unused P start (kernel_start - start) m else m)
              in if bitmap_end_addr < end
                 then set_unused P bitmap_end_addr (end - bitmap_end_addr) m1 else m1)
        else m))"

text \<open>The second loop and what follows it.\<close>

definition mark_regions ::
  "pmm \<Rightarrow> u32 \<Rightarrow> u32 \<Rightarrow> u32 \<Rightarrow> u32 \<Rightarrow> u32 \<Rightarrow> memory \<Rightarrow> memory option" where
  "mark_regions P kernel_start kernel_end bitmap_ptr bitmap_pages mbd m =
     map_option (\<lambda>m1. set_used P bitmap_ptr (bitmap_pages * FRAME_SIZE)
         (set_used P kernel_start (kernel_end - kernel_start) m1))
       (mmap_loop (\<lambda>m. mbd_mmap_length m mbd) (mark_round P kernel_start bitmap_ptr bitmap_pages mbd) 0 m)"

definition pmm_init ::
  "u32 \<Rightarrow> u32 \<Rightarrow> u32 \<Rightarrow> u32 \<Rightarrow> pmm \<times> memory \<times> serial \<Rightarrow> (pmm \<times> memory \<times> serial) option" where
  "pmm_init kernel_start kernel_end cr3 mbd = (\<lambda>(P, m, s).
     if drop_bit 6 (mbd_flags m mbd) AND 1 = 0
     then map_option (\<lambda>s'. (P, m, s'))
            (serial_log (lit ''[ERROR] INVALID MULTIBOOT FLAG in Physical Memory Manager!\<newline>'') s)
     else
       Option.bind (serial_log (lit ''[PMM] Kernel start: '' @ hex_text 8 (unat kernel_start) @
           lit '' | Kernel_end '' @ hex_text 8 (unat kernel_end) @ lit ''\<newline>'') s) (\<lambda>s1.
       Option.bind (mmap_loop (\<lambda>_. mbd_mmap_length m mbd) (count_round m mbd) 0 (0, s1)) (\<lambda>(total_mem, s2).
       let nb = ucast (total_mem div ucast FRAME_SIZE); P1 = P\<lparr>pmm_nbFrames := nb\<rparr> in
       Option.bind (serial_log (lit ''[PMM] Found '' @ dec_text (unat nb) @ lit '' physical frames.\<newline>'') s2) (\<lambda>s3.
       let kernel_end_page = (kernel_end + FRAME_SIZE - 1) AND NOT (FRAME_SIZE - 1);
           bitmap_size_bytes = (nb + 7) div 8;
           bitmap_pages = (bitmap_size_bytes + FRAME_SIZE - 1) div FRAME_SIZE;
           bitmap_ptr = kernel_end_page;
           m1 = for_from 0 bitmap_pages (\<lambda>i m.
             map_page P1 (get_current_pd cr3) (V2P (bitmap_ptr + i * 0x1000)) (bitmap_ptr + i * 0x1000) 3 m) m;
           m2 = memset bitmap_ptr 0xFF bitmap_size_bytes m1;
           P2 = P1\<lparr>pmm_bm := Bitmap_new bitmap_ptr nb\<rparr> in
       Option.bind (serial_log (lit ''[PMM] Bitmap initialized at '' @ hex_text 8 (unat bitmap_ptr) @
           lit '', size: '' @ dec_text (unat bitmap_size_bytes) @ lit '' bytes ('' @
           dec_text (unat bitmap_pages) @ lit '' pages)\<newline>'') s3) (\<lambda>s4.
       map_option (\<lambda>m3. (P2, m3, s4))
         (mark_regions P2 kernel_start kernel_end bitmap_ptr bitmap_pages mbd m2))))))"

section \<open>The loops end\<close>

lemma mmap_loop_returns:
  assumes "Q s" and "unat i < unat L + 24" and L: "unat L + 24 \<le> 2 ^ 32"
    and step: "\<And>i s. Q s \<Longrightarrow> \<exists>s'. f i s = Some s' \<and> Q s'" and len: "\<And>s. Q s \<Longrightarrow> len s = L"
  shows "\<exists>s'. mmap_loop len f i s = Some s' \<and> Q s'"
  using assms(1,2)
proof (induction "unat L - unat i" arbitrary: i s rule: less_induct)
  case less
  show ?case
  proof (cases "i < L")
    case True
    then have lt: "unat i < unat L" by (simp add: word_less_nat_alt)
    with L have "unat i + unat SIZEOF_MMAP < 2 ^ 32" by (simp add: SIZEOF_MMAP_def)
    then have suc: "unat (i + SIZEOF_MMAP) = unat i + 24"
      by (subst unat_add_lem [THEN iffD1]) (auto simp: SIZEOF_MMAP_def)
    obtain s1 where s1: "f i s = Some s1" "Q s1" using step [OF less.prems(1)] by blast
    have "\<exists>s'. mmap_loop len f (i + SIZEOF_MMAP) s1 = Some s' \<and> Q s'"
      using lt by (intro less.hyps s1) (simp_all add: suc)
    with True s1 len [OF less.prems(1)] show ?thesis by (subst mmap_loop.simps) simp
  next
    case False
    with len [OF less.prems(1)] less.prems show ?thesis by (subst mmap_loop.simps) simp
  qed
qed

lemma count_loop_returns:
  assumes "unat (mbd_mmap_length m mbd) + 24 \<le> 2 ^ 32" and "fair (se_ports s)"
  shows "\<exists>total s'. mmap_loop (\<lambda>_. mbd_mmap_length m mbd) (count_round m mbd) 0 (t, s) = Some (total, s')
    \<and> fair (se_ports s')"
proof -
  have "\<exists>r. mmap_loop (\<lambda>_. mbd_mmap_length m mbd) (count_round m mbd) 0 (t, s) = Some r \<and> fair (se_ports (snd r))"
  proof (rule mmap_loop_returns [where Q = "\<lambda>r. fair (se_ports (snd r))", OF _ _ assms(1)])
    fix i and r :: "u64 \<times> serial" assume r: "fair (se_ports (snd r))"
    obtain t' s' where rr: "r = (t', s')" by (cases r)
    let ?e = "P2V (mbd_mmap_addr m mbd) + i"
    from serial_log_returns [of s' "region_log (mmap_addr_low m ?e) (mmap_len m ?e)
        (mmap_type m ?e = MULTIBOOT_MEMORY_AVAILABLE)"] r rr
    show "\<exists>r'. count_round m mbd i r = Some r' \<and> fair (se_ports (snd r'))"
      by (auto simp: count_round_def Let_def)
  qed (use assms in auto)
  then show ?thesis by auto
qed

section \<open>What the second loop leaves in use\<close>

lemma set_unused_outside: "\<not> in_bitmap (pmm_bm P) x \<Longrightarrow> set_unused P a n m x = m x"
  unfolding set_unused_def Let_def
  by (rule for_from_keeps [where Q = "\<lambda>t. t x = m x"]) (auto simp: clear_bit_outside)

lemma set_used_outside: "\<not> in_bitmap (pmm_bm P) x \<Longrightarrow> set_used P a n m x = m x"
  unfolding set_used_def Let_def
  by (rule for_from_keeps [where Q = "\<lambda>t. t x = m x"]) (auto simp: set_bit_outside)

lemma mark_round_some: "\<exists>m'. mark_round P ks bp pages mbd i m = Some m'"
  by (simp add: mark_round_def Let_def)

lemma mark_round_frames:
  assumes "mark_round P ks bp pages mbd i m = Some m'"
  shows "frame_used P j m' \<Longrightarrow> frame_used P j m" and "\<not> in_bitmap (pmm_bm P) x \<Longrightarrow> m' x = m x"
  using assms by (auto simp: mark_round_def Let_def frame_used_set_unused set_unused_outside split: if_splits)

text \<open>The boot information as far as the loop uses it, away from the bitmap.\<close>

definition info_apart :: "pmm \<Rightarrow> u32 \<Rightarrow> bool" where
  "info_apart P mbd \<longleftrightarrow> (\<forall>k. 44 \<le> k \<and> k < 52 \<longrightarrow> \<not> in_bitmap (pmm_bm P) (mbd + k))"

lemma info_word:
  assumes "info_apart P mbd" and "k = 44 \<or> k = 48" and "\<And>x. \<not> in_bitmap (pmm_bm P) x \<Longrightarrow> m' x = m x"
  shows "load32 m' (mbd + k) = load32 m (mbd + k)"
proof (rule load32_cong)
  fix x assume x: "x - (mbd + k) < 4"
  define d where "d = x - (mbd + k)"
  have "d < 4" "x = mbd + (k + d)" using x by (auto simp: d_def)
  moreover have "44 \<le> k + d \<and> k + d < 52"
    using assms(2) \<open>d < 4\<close> by (auto simp: word_less_nat_alt word_le_nat_alt unat_word_ariths)
  ultimately show "m' x = m x" using assms(1,3) by (auto simp: info_apart_def)
qed

lemma mark_loop_returns:
  assumes apart: "info_apart P mbd" and L: "unat (mbd_mmap_length m mbd) + 24 \<le> 2 ^ 32"
    and i: "unat i < unat (mbd_mmap_length m mbd) + 24"
  shows "\<exists>m'. mmap_loop (\<lambda>m. mbd_mmap_length m mbd) (mark_round P ks bp pages mbd) i m = Some m' \<and>
    (\<forall>j. frame_used P j m' \<longrightarrow> frame_used P j m) \<and> (\<forall>x. \<not> in_bitmap (pmm_bm P) x \<longrightarrow> m' x = m x)"
proof -
  let ?Q = "\<lambda>t. (\<forall>x. \<not> in_bitmap (pmm_bm P) x \<longrightarrow> t x = m x) \<and> (\<forall>j. frame_used P j t \<longrightarrow> frame_used P j m)"
  have "\<exists>m'. mmap_loop (\<lambda>m. mbd_mmap_length m mbd) (mark_round P ks bp pages mbd) i m = Some m' \<and> ?Q m'"
  proof (rule mmap_loop_returns [where Q = ?Q, OF _ i L])
    fix i t assume Q: "?Q t"
    obtain t' where "mark_round P ks bp pages mbd i t = Some t'" using mark_round_some by blast
    with Q mark_round_frames [OF this] show "\<exists>t'. mark_round P ks bp pages mbd i t = Some t' \<and> ?Q t'" by auto
  next
    fix t assume "?Q t"
    then show "mbd_mmap_length t mbd = mbd_mmap_length m mbd"
      using info_word [OF apart, of 44 t m] by (simp add: mbd_mmap_length_def)
  qed simp
  then show ?thesis by blast
qed

lemma high_frames_miss:
  assumes "j < 0xC0000" and "0xC0000000 \<le> a"
  shows "\<not> j - a div FRAME_SIZE < (n + FRAME_SIZE - 1) div FRAME_SIZE"
proof -
  let ?f = "a div FRAME_SIZE"
  have f: "0xC0000 \<le> unat ?f" "unat ?f < 0x100000"
    using assms(2) unat_bound32 [of a] by (auto simp: FRAME_SIZE_def unat_div_distrib word_le_nat_alt)
  have j: "unat j < 0xC0000" using assms(1) by (simp add: word_less_nat_alt)
  have "unat (j - ?f) = 2 ^ 32 + unat j - unat ?f" using f j by (simp add: unat_sub_if')
  then have "unat (j - ?f) \<ge> 0x100000" using f by simp
  moreover have "unat ((n + FRAME_SIZE - 1) div FRAME_SIZE) < 0x100000"
    using unat_bound32 [of "n + FRAME_SIZE - 1"] by (simp add: FRAME_SIZE_def unat_div_distrib)
  ultimately show ?thesis by (simp add: word_less_nat_alt)
qed

text \<open>
  With less than 3 GiB of memory and a first region that is available from address 0, no frame is
  in use after \<open>init\<close>: not those of the kernel, not those of the bitmap, not the reserved ones.
\<close>

lemma mark_regions_all_free:
  assumes nb: "pmm_nbFrames P \<le> 0xC0000" "bm_size (pmm_bm P) = (pmm_nbFrames P + 7) div 8"
    and ks: "0xC0000000 \<le> ks" "ks \<le> 0xFFFF0000" and bp: "0xC0000000 \<le> bp"
    and apart: "info_apart P mbd" and L: "0 < mbd_mmap_length m mbd" "unat (mbd_mmap_length m mbd) + 24 \<le> 2 ^ 32"
    and first: "mmap_type m (P2V (mbd_mmap_addr m mbd)) = MULTIBOOT_MEMORY_AVAILABLE"
      "mmap_addr_low m (P2V (mbd_mmap_addr m mbd)) = 0"
  shows "\<exists>m'. mark_regions P ks ke bp pages mbd m = Some m' \<and> (\<forall>j. \<not> frame_used P j m') \<and>
    (\<forall>x. \<not> in_bitmap (pmm_bm P) x \<longrightarrow> m' x = m x)"
proof -
  have valid: "j < 0xC0000" if "valid_bit (pmm_bm P) j" for j
  proof -
    have "unat j div 8 < (unat (pmm_nbFrames P) + 7) div 8" "unat (pmm_nbFrames P) \<le> 786432"
      using that nb by (simp_all add: valid_bit_def word_less_nat_alt word_le_nat_alt unat_div_distrib unat_word_ariths)
    then have "unat j < 786432" by presburger
    then show ?thesis by (simp add: word_less_nat_alt)
  qed
  obtain m1 where m1: "mark_round P ks bp pages mbd 0 m = Some m1" using mark_round_some by blast
  note fr = mark_round_frames [OF m1]
  have "\<not> frame_used P j m1" for j
  proof
    assume u: "frame_used P j m1"
    then have "valid_bit (pmm_bm P) j" by (simp add: frame_used_def valid_bit_set)
    then have "unat j < 0xC0000" using valid by (simp add: word_less_nat_alt)
    moreover have "unat (ks + FRAME_SIZE - 1) = unat ks + 4095"
    proof -
      have "unat (ks + 4095) = unat ks + 4095"
        using ks by (subst unat_add_lem [THEN iffD1]) (auto simp: word_le_nat_alt)
      moreover have "ks + FRAME_SIZE - 1 = ks + 4095"
        using add_diff_eq [of ks FRAME_SIZE 1] by (simp only: FRAME_SIZE_def) simp
      ultimately show ?thesis by (simp only:)
    qed
    then have "0xC0000 \<le> unat ((ks + FRAME_SIZE - 1) div FRAME_SIZE)"
      using ks by (simp add: FRAME_SIZE_def unat_div_distrib word_le_nat_alt)
    ultimately have "j < (ks + FRAME_SIZE - 1) div FRAME_SIZE" by (simp add: word_less_nat_alt)
    moreover have "0 < ks" using ks(1) by (rule less_le_trans [rotated]) simp
    ultimately show False
      using u m1 first by (auto simp: mark_round_def Let_def frame_used_set_unused split: if_splits)
  qed
  moreover have len: "mbd_mmap_length m1 mbd = mbd_mmap_length m mbd"
    using info_word [OF apart, of 44 m1 m] fr(2) by (simp add: mbd_mmap_length_def)
  moreover have "\<exists>m'. mmap_loop (\<lambda>m. mbd_mmap_length m mbd) (mark_round P ks bp pages mbd) (0 + SIZEOF_MMAP) m1 = Some m'
      \<and> (\<forall>j. frame_used P j m' \<longrightarrow> frame_used P j m1) \<and> (\<forall>x. \<not> in_bitmap (pmm_bm P) x \<longrightarrow> m' x = m1 x)"
    using L by (intro mark_loop_returns [OF apart]) (simp_all add: len SIZEOF_MMAP_def word_less_nat_alt)
  moreover have "mmap_loop (\<lambda>m. mbd_mmap_length m mbd) (mark_round P ks bp pages mbd) 0 m =
      mmap_loop (\<lambda>m. mbd_mmap_length m mbd) (mark_round P ks bp pages mbd) (0 + SIZEOF_MMAP) m1"
    using L(1) m1 by (subst mmap_loop.simps) simp
  ultimately show ?thesis
    using valid high_frames_miss ks(1) bp fr(2)
    by (auto simp: mark_regions_def frame_used_set_used set_used_outside)
qed

section \<open>The whole of \<open>init\<close>\<close>

text \<open>The entries of the map, and the sum of their lengths.\<close>

definition mmap_entry :: "memory \<Rightarrow> u32 \<Rightarrow> nat \<Rightarrow> u32" where
  "mmap_entry m mbd k = P2V (mbd_mmap_addr m mbd) + 24 * of_nat k"

definition mmap_count :: "memory \<Rightarrow> u32 \<Rightarrow> nat" where
  "mmap_count m mbd = (unat (mbd_mmap_length m mbd) + 23) div 24"

definition mmap_total :: "memory \<Rightarrow> u32 \<Rightarrow> u64" where
  "mmap_total m mbd = sum_list (map (\<lambda>k. mmap_len m (mmap_entry m mbd k)) [0..<mmap_count m mbd])"

lemma count_loop_total:
  assumes L: "unat (mbd_mmap_length m mbd) + 24 \<le> 2 ^ 32" and f: "fair (se_ports s)" and k: "k \<le> mmap_count m mbd"
  shows "\<exists>s'. mmap_loop (\<lambda>_. mbd_mmap_length m mbd) (count_round m mbd) (24 * of_nat k) (t, s) =
      Some (t + sum_list (map (\<lambda>k. mmap_len m (mmap_entry m mbd k)) [k..<mmap_count m mbd]), s') \<and> fair (se_ports s')"
  using f k
proof (induction "mmap_count m mbd - k" arbitrary: k t s)
  case 0
  let ?L = "mbd_mmap_length m mbd"
  have k: "k = mmap_count m mbd" using 0 by simp
  then have "unat ?L \<le> 24 * k" "24 * k < 2 ^ 32" using L by (simp_all add: mmap_count_def)
  then have "\<not> 24 * of_nat k < ?L" by (simp add: word_less_nat_alt unat_word_ariths unat_of_nat)
  with 0 k show ?case by (subst mmap_loop.simps) simp
next
  case (Suc d)
  let ?L = "mbd_mmap_length m mbd" and ?e = "mmap_entry m mbd k"
  have k: "k < mmap_count m mbd" using Suc.hyps(2) by simp
  then have "24 * k < unat ?L" by (simp add: mmap_count_def)
  then have lt: "24 * of_nat k < ?L"
    using unat_bound32 [of ?L] by (simp add: word_less_nat_alt unat_word_ariths unat_of_nat)
  obtain s1 where s1: "serial_log (region_log (mmap_addr_low m ?e) (mmap_len m ?e) (mmap_type m ?e = MULTIBOOT_MEMORY_AVAILABLE)) s = Some s1"
    "fair (se_ports s1)" using serial_log_returns [OF Suc.prems(1)] by blast
  have "count_round m mbd (24 * of_nat k) (t, s) = Some (t + mmap_len m ?e, s1)"
    using s1(1) by (simp add: count_round_def Let_def mmap_entry_def)
  moreover have "24 * of_nat k + SIZEOF_MMAP = 24 * of_nat (Suc k)" by (simp add: SIZEOF_MMAP_def)
  moreover have d: "d = mmap_count m mbd - Suc k" using Suc.hyps(2) by simp
  moreover obtain s2 where "mmap_loop (\<lambda>_. ?L) (count_round m mbd) (24 * of_nat (Suc k)) (t + mmap_len m ?e, s1) =
      Some (t + mmap_len m ?e + sum_list (map (\<lambda>k. mmap_len m (mmap_entry m mbd k)) [Suc k..<mmap_count m mbd]), s2)" "fair (se_ports s2)"
    using Suc.hyps(1) [OF d s1(2) Suc_leI [OF k], of "t + mmap_len m ?e"] by blast
  ultimately show ?case using lt k by (subst mmap_loop.simps) (simp add: upt_conv_Cons add.assoc del: of_nat_Suc)
qed

text \<open>The pages of the bitmap are mapped through tables that are there: only these change.\<close>

lemma map_page_present:
  assumes wf: "pd_wf m pd" and pr: "present (pde m pd (pd_index va))"
  shows "page_of x \<noteq> table_of (pde m pd (pd_index va)) \<Longrightarrow> map_page P pd pa va flags m x = m x"
    and "j < 1024 \<Longrightarrow> pde (map_page P pd pa va flags m) pd j = pde m pd j"
proof -
  have eq: "map_page P pd pa va flags m = store32 (entry (table_of (pde m pd (pd_index va))) (pt_index va)) (PageEntry_new pa (ucast flags)) m"
    using wf pr by (simp add: map_page_split with_table_def pd_wf_def)
  show out: "map_page P pd pa va flags m x = m x" if "page_of x \<noteq> table_of (pde m pd (pd_index va))" for x
    unfolding eq using that by (intro store32_entry_outside) simp_all
  have t: "table_of (pde m pd (pd_index va)) \<noteq> pd" "page_aligned pd" using pd_wf_table [OF wf _ pr] by simp_all
  show "pde (map_page P pd pa va flags m) pd j = pde m pd j" if "j < 1024"
    unfolding pde_def using t that by (intro load32_entry_cong out) auto
qed

lemma map_pages_present:
  fixes P :: pmm
  assumes wf: "pd_wf m pd" and pr: "\<forall>i < n. present (pde m pd (pd_index (bp + i * 0x1000)))"
  defines "m' \<equiv> for_from 0 n (\<lambda>i t. map_page P pd (V2P (bp + i * 0x1000)) (bp + i * 0x1000) 3 t) m"
  shows "\<forall>i < n. page_of x \<noteq> table_of (pde m pd (pd_index (bp + i * 0x1000))) \<Longrightarrow> m' x = m x"
proof -
  let ?T = "\<lambda>i. table_of (pde m pd (pd_index (bp + i * 0x1000)))"
  let ?Q = "\<lambda>t. pd_wf t pd \<and> (\<forall>j < 1024. pde t pd j = pde m pd j) \<and> (\<forall>x. (\<forall>i < n. page_of x \<noteq> ?T i) \<longrightarrow> t x = m x)"
  have "?Q m'"
    unfolding m'_def
  proof (rule for_from_keeps [where Q = ?Q])
    show "?Q m" using wf by simp
    fix i t assume i: "i < n" and Q: "?Q t"
    let ?va = "bp + i * 0x1000" and ?t' = "map_page P pd (V2P (bp + i * 0x1000)) (bp + i * 0x1000) 3 t"
    have e: "pde t pd (pd_index ?va) = pde m pd (pd_index ?va)" using Q by simp
    have wf': "pd_wf t pd" using Q by simp
    have "present (pde t pd (pd_index ?va))" using e pr i by simp
    note mp = map_page_present [OF wf' this, of _ P "V2P ?va" 3]
    have pd: "\<forall>j < 1024. pde ?t' pd j = pde t pd j" using mp(2) by simp
    then have "pd_wf ?t' pd" using wf' by (simp add: pd_wf_def)
    moreover have "\<forall>j < 1024. pde ?t' pd j = pde m pd j" using pd Q by simp
    moreover have "\<forall>x. (\<forall>i < n. page_of x \<noteq> ?T i) \<longrightarrow> ?t' x = m x" using mp(1) e Q i by simp
    ultimately show "?Q ?t'" by blast
  qed
  then show "\<forall>i < n. page_of x \<noteq> ?T i \<Longrightarrow> m' x = m x" by blast
qed

text \<open>What \<open>init\<close> reads of the boot loader's data after it has begun to write.\<close>

definition boot_info :: "memory \<Rightarrow> u32 \<Rightarrow> u32 set" where
  "boot_info m mbd = {x. in_block (mbd + 44) 8 x \<or> in_block (P2V (mbd_mmap_addr m mbd) + 4) 4 x \<or>
     in_block (P2V (mbd_mmap_addr m mbd) + 20) 4 x}"

text \<open>The allocator \<open>init\<close> makes of the map, with the bitmap on the pages after the kernel.\<close>

definition init_pmm :: "memory \<Rightarrow> u32 \<Rightarrow> u32 \<Rightarrow> pmm" where
  "init_pmm m mbd kernel_end =
     (let nb = ucast (mmap_total m mbd div ucast FRAME_SIZE)
      in \<lparr>pmm_nbFrames = nb, pmm_bm = \<lparr>bm_ptr = (kernel_end + FRAME_SIZE - 1) AND NOT (FRAME_SIZE - 1), bm_size = (nb + 7) div 8\<rparr>\<rparr>)"

definition bitmap_pages :: "pmm \<Rightarrow> u32" where
  "bitmap_pages P = (bm_size (pmm_bm P) + FRAME_SIZE - 1) div FRAME_SIZE"

definition bitmap_page :: "pmm \<Rightarrow> u32 \<Rightarrow> u32" where
  "bitmap_page P i = bm_ptr (pmm_bm P) + i * 0x1000"

text \<open>The bytes \<open>init\<close> has no business with: outside its bitmap and the tables the pages of it are mapped through.\<close>

definition init_spares :: "memory \<Rightarrow> u32 \<Rightarrow> pmm \<Rightarrow> u32 \<Rightarrow> bool" where
  "init_spares m pd P x \<longleftrightarrow> \<not> in_bitmap (pmm_bm P) x \<and>
     (\<forall>i < bitmap_pages P. page_of x \<noteq> table_of (pde m pd (pd_index (bitmap_page P i))))"

lemma load32_spared:
  assumes "\<And>x. init_spares m pd P x \<Longrightarrow> t x = m x" and "\<And>x. in_block a 4 x \<Longrightarrow> init_spares m pd P x"
  shows "load32 t a = load32 m a"
  using assms by (intro load32_cong) (simp add: in_block_def)

lemma pmm_init_done:
  fixes kernel_start kernel_end cr3 mbd :: u32 and m :: memory
  defines "P' \<equiv> init_pmm m mbd kernel_end"
  assumes flag: "drop_bit 6 (mbd_flags m mbd) AND 1 \<noteq> 0" and fair: "fair (se_ports s)"
    and L: "0 < mbd_mmap_length m mbd" "unat (mbd_mmap_length m mbd) + 24 \<le> 2 ^ 32"
    and nb0: "pmm_nbFrames P' \<le> 0xC0000" and ks: "0xC0000000 \<le> kernel_start" "kernel_start \<le> 0xFFFF0000" and bp0: "0xC0000000 \<le> bm_ptr (pmm_bm P')"
    and wf: "pd_wf m (get_current_pd cr3)"
    and pr0: "\<forall>i < bitmap_pages P'. present (pde m (get_current_pd cr3) (pd_index (bitmap_page P' i)))"
    and apart: "\<forall>x \<in> boot_info m mbd. init_spares m (get_current_pd cr3) P' x"
    and first: "mmap_type m (mmap_entry m mbd 0) = MULTIBOOT_MEMORY_AVAILABLE" "mmap_addr_low m (mmap_entry m mbd 0) = 0"
  shows "\<exists>m' s'. pmm_init kernel_start kernel_end cr3 mbd (P, m, s) = Some (P', m', s') \<and> fair (se_ports s') \<and>
    (\<forall>j. \<not> frame_used P' j m') \<and> (\<forall>x. init_spares m (get_current_pd cr3) P' x \<longrightarrow> m' x = m x)"
proof -
  let ?pd = "get_current_pd cr3" and ?sp = "init_spares m (get_current_pd cr3) P'"
  define nb :: u32 where "nb = ucast (mmap_total m mbd div ucast FRAME_SIZE)"
  define bp where "bp = (kernel_end + FRAME_SIZE - 1) AND NOT (FRAME_SIZE - 1)"
  define bytes where "bytes = (nb + 7) div 8"
  define pages where "pages = (bytes + FRAME_SIZE - 1) div FRAME_SIZE"
  have P'_def': "P' = \<lparr>pmm_nbFrames = nb, pmm_bm = \<lparr>bm_ptr = bp, bm_size = bytes\<rparr>\<rparr>"
    by (simp add: P'_def init_pmm_def Let_def nb_def bp_def bytes_def)
  have pgs: "bitmap_pages P' = pages" "bitmap_page P' i = bp + i * 0x1000" for i
    by (simp_all add: bitmap_pages_def bitmap_page_def P'_def' pages_def)
  note nb = nb0 [unfolded P'_def', simplified] and bp = bp0 [unfolded P'_def', simplified] and pr = pr0 [unfolded pgs]
  define P1 where "P1 = P\<lparr>pmm_nbFrames := nb\<rparr>"
  define m1 where "m1 = for_from 0 pages (\<lambda>i t. map_page P1 ?pd (V2P (bp + i * 0x1000)) (bp + i * 0x1000) 3 t) m"
  define m2 where "m2 = memset bp 0xFF bytes m1"
  have m2: "m2 x = m x" if "?sp x" for x
    using map_pages_present [OF wf pr, of x P1] that by (simp add: m2_def m1_def memset_apply init_spares_def pgs) (simp add: P'_def' in_bitmap_def)
  have info: "?sp x" if "x \<in> boot_info m mbd" for x using apart that by blast
  have eq: "mbd_mmap_length m2 mbd = mbd_mmap_length m mbd" "mbd_mmap_addr m2 mbd = mbd_mmap_addr m mbd"
  proof -
    have "in_block (mbd + 44) 8 x" if "in_block (mbd + k) 4 x" "k = 44 \<or> k = 48" for k x
    proof -
      define d where "d = x - (mbd + k)"
      have "x - (mbd + 44) = (k - 44) + d" by (simp add: d_def)
      moreover have "d < 4" using that(1) by (simp add: d_def in_block_def)
      then have "(k - 44) + d < 8" using that(2) by (auto simp: word_less_nat_alt unat_word_ariths)
      ultimately show ?thesis unfolding in_block_def by (simp only:)
    qed
    then have b: "in_block (mbd + 44) 4 x \<Longrightarrow> ?sp x" "in_block (mbd + 48) 4 x \<Longrightarrow> ?sp x" for x
      using info [of x] by (auto simp: boot_info_def)
    show "mbd_mmap_length m2 mbd = mbd_mmap_length m mbd" "mbd_mmap_addr m2 mbd = mbd_mmap_addr m mbd"
      unfolding mbd_mmap_length_def mbd_mmap_addr_def by (rule load32_spared [OF m2 b(1)] load32_spared [OF m2 b(2)]; assumption)+
  qed
  have e0: "mmap_entry m mbd 0 = P2V (mbd_mmap_addr m mbd)" by (simp add: mmap_entry_def)
  have f2: "mmap_type m2 (P2V (mbd_mmap_addr m2 mbd)) = MULTIBOOT_MEMORY_AVAILABLE" "mmap_addr_low m2 (P2V (mbd_mmap_addr m2 mbd)) = 0"
  proof -
    have b: "in_block (P2V (mbd_mmap_addr m mbd) + 20) 4 x \<Longrightarrow> ?sp x" "in_block (P2V (mbd_mmap_addr m mbd) + 4) 4 x \<Longrightarrow> ?sp x" for x
      by (auto intro!: info simp: boot_info_def)
    show "mmap_type m2 (P2V (mbd_mmap_addr m2 mbd)) = MULTIBOOT_MEMORY_AVAILABLE" "mmap_addr_low m2 (P2V (mbd_mmap_addr m2 mbd)) = 0"
      using first load32_spared [OF m2 b(1)] load32_spared [OF m2 b(2)] by (simp_all add: eq e0 mmap_type_def mmap_addr_low_def)
  qed
  have ia: "info_apart P' mbd"
    unfolding info_apart_def
  proof (intro allI impI)
    fix k :: u32 assume k: "44 \<le> k \<and> k < 52"
    then have "unat (k - 44) = unat k - 44" "44 \<le> unat k" "unat k < 52" by (simp_all add: unat_sub word_le_nat_alt word_less_nat_alt)
    then have "unat (k - 44) < 8" by linarith
    then have "in_block (mbd + 44) 8 (mbd + k)" by (simp add: in_block_def word_less_nat_alt)
    then have "?sp (mbd + k)" by (intro info) (simp add: boot_info_def)
    then show "\<not> in_bitmap (pmm_bm P') (mbd + k)" by (simp add: init_spares_def)
  qed
  have L2: "0 < mbd_mmap_length m2 mbd" "unat (mbd_mmap_length m2 mbd) + 24 \<le> 2 ^ 32" using L by (simp_all add: eq)
  have P'b: "pmm_nbFrames P' \<le> 0xC0000" "bm_size (pmm_bm P') = (pmm_nbFrames P' + 7) div 8" using nb by (simp_all add: P'_def' bytes_def)
  obtain m3 where m3: "mark_regions P' kernel_start kernel_end bp pages mbd m2 = Some m3" "\<forall>j. \<not> frame_used P' j m3"
    "\<forall>x. \<not> in_bitmap (pmm_bm P') x \<longrightarrow> m3 x = m2 x"
    using mark_regions_all_free [OF P'b ks bp ia L2 f2] by blast
  have keep: "m3 x = m x" if "?sp x" for x
    using m2 [OF that] m3(3) that by (simp add: init_spares_def)
  obtain s1 where s1: "serial_log (lit ''[PMM] Kernel start: '' @ hex_text 8 (unat kernel_start) @
      lit '' | Kernel_end '' @ hex_text 8 (unat kernel_end) @ lit ''\<newline>'') s = Some s1" "fair (se_ports s1)"
    using serial_log_returns [OF fair] by blast
  obtain s2 where s2: "mmap_loop (\<lambda>_. mbd_mmap_length m mbd) (count_round m mbd) 0 (0, s1) = Some (mmap_total m mbd, s2)" "fair (se_ports s2)"
    using count_loop_total [OF L(2) s1(2), of 0 0] by (auto simp: mmap_total_def)
  obtain s3 where s3: "serial_log (lit ''[PMM] Found '' @ dec_text (unat nb) @ lit '' physical frames.\<newline>'') s2 = Some s3" "fair (se_ports s3)"
    using serial_log_returns [OF s2(2)] by blast
  obtain s4 where s4: "serial_log (lit ''[PMM] Bitmap initialized at '' @ hex_text 8 (unat bp) @ lit '', size: '' @ dec_text (unat bytes) @
      lit '' bytes ('' @ dec_text (unat pages) @ lit '' pages)\<newline>'') s3 = Some s4" "fair (se_ports s4)"
    using serial_log_returns [OF s3(2)] by blast
  have P': "P1\<lparr>pmm_bm := Bitmap_new bp nb\<rparr> = P'" by (simp add: P1_def P'_def' Bitmap_new_def bytes_def)
  have "pmm_init kernel_start kernel_end cr3 mbd (P, m, s) = Some (P', m3, s4)"
    by (simp only: pmm_init_def prod.case Let_def flag if_False s1(1) s2(1) s3(1) s4(1) m3(1) bind.bind_lunit option.map
        nb_def [symmetric] bp_def [symmetric] bytes_def [symmetric] pages_def [symmetric] P1_def [symmetric] P' m1_def [symmetric]
        m2_def [symmetric])
  with m3(2) keep s4(2) show ?thesis by blast
qed

end
