(* ===== verification/Tar.thy ===== *)
theory Tar
  imports Kfree
begin

text \<open>
  The reader of the initial ramdisk (src/src/utils/tar.cpp). Archive and results lie in memory: a
  \<open>Tar\<close> node has the 157 bytes of the member's header, the pointer to the data at 160 and the next
  node at 164. \<open>char\<close> is signed on the target.
\<close>

section \<open>The reader\<close>

definition SIZEOF_TAR :: u32 where "SIZEOF_TAR = 168"
definition TAR_SIZE :: u32 where "TAR_SIZE = 124"
definition TAR_DATA :: u32 where "TAR_DATA = 160"
definition TAR_NEXT :: u32 where "TAR_NEXT = 164"

definition getsize :: "memory \<Rightarrow> u32 \<Rightarrow> u32" where
  "getsize m a =
     fst (for_down 11 (\<lambda>j (size, count). (size + (scast (m (a + (j - 1))) - 48) * count, count * 8)) (0, 1))"

definition next_member :: "u32 \<Rightarrow> u32 \<Rightarrow> u32" where
  "next_member address sz =
     (let address' = address + (sz div 512 + 1) * 512
      in if sz mod 512 \<noteq> 0 then address' + 512 else address')"

text \<open>One round for a member that is there; \<open>out\<close> is the list built so far.\<close>

definition tar_round :: "pmm \<Rightarrow> u32 \<Rightarrow> u32 \<Rightarrow> heap \<Rightarrow> (u32 \<times> u32 \<times> heap) option" where
  "tar_round P address out h =
     (let sz = getsize (hp_mem h) (address + TAR_SIZE) in
      case kmalloc P SIZEOF_TAR h of None \<Rightarrow> None
      | Some (new_tar, h1) \<Rightarrow>
          let h2 = h1\<lparr>hp_mem := memcpy new_tar address SIZEOF_TAR (hp_mem h1)\<rparr> in
          (case kmalloc P sz h2 of None \<Rightarrow> None
           | Some (data, h3) \<Rightarrow>
               let m4 = store32 (new_tar + TAR_DATA) data (hp_mem h3);
                   m5 = memcpy (load32 m4 (new_tar + TAR_DATA)) (address + 512) sz m4;
                   m6 = store32 (new_tar + TAR_NEXT) 0 m5;
                   m7 = store32 (new_tar + TAR_NEXT) (if out = 0 then 0 else out) m6
               in Some (sz, new_tar, h3\<lparr>hp_mem := m7\<rparr>)))"

partial_function (option) tar_loop :: "pmm \<Rightarrow> u32 \<Rightarrow> u32 \<Rightarrow> u32 \<Rightarrow> heap \<Rightarrow> (u32 \<times> heap) option" where
  "tar_loop P address i out h =
     (if hp_mem h (address + i) = 0 then Some (out, h)
      else case tar_round P address out h of None \<Rightarrow> None
           | Some (sz, new_tar, h') \<Rightarrow> tar_loop P (next_member address sz) (i + 1) new_tar h')"

definition parse_tar :: "pmm \<Rightarrow> u32 \<Rightarrow> heap \<Rightarrow> (u32 \<times> heap) option" where
  "parse_tar P address h = tar_loop P address 0 0 h"

section \<open>Sizes\<close>

text \<open>A size field: eleven octal digits of \<open>n\<close>, most significant first.\<close>

definition octal_field :: "memory \<Rightarrow> u32 \<Rightarrow> nat \<Rightarrow> bool" where
  "octal_field m a n \<longleftrightarrow> (\<forall>k < 11. m (a + of_nat k) = of_nat (48 + n div 8 ^ (10 - k) mod 8))"

lemma digit_sum: "(\<Sum>j<k. n div 8 ^ j mod 8 * 8 ^ j) = n mod 8 ^ k" for n :: nat
proof (induction k)
  case (Suc k)
  have "n mod 8 ^ Suc k = 8 ^ k * (n div 8 ^ k mod 8) + n mod 8 ^ k"
    using mod_mult2_eq [of n "8 ^ k" 8] by (simp add: mult.commute)
  with Suc show ?case by simp
qed simp

lemma digit_value: "d < 8 \<Longrightarrow> scast (of_nat (48 + d) :: u8) - 48 = (of_nat d :: u32)"
proof -
  assume "d < 8"
  then have "d \<in> set [0..<8]" by simp
  then show ?thesis by (auto simp: upt_rec)
qed

lemma getsize_octal:
  assumes "octal_field m a n" and "n < 8 ^ 11"
  shows "getsize m a = of_nat n"
proof -
  define d where "d j = n div 8 ^ j mod 8" for j
  have at: "scast (m (a + of_nat k)) - 48 = (of_nat (d (10 - k)) :: u32)" if "k < 11" for k
    using assms(1) that digit_value [of "d (10 - k)"] by (simp add: octal_field_def d_def)
  define body where "body = (\<lambda>j (sz, count). (sz + (scast (m (a + (j - 1))) - 48) * count, count * 8 :: u32))"
  have step: "for_down (of_nat (Suc k)) body (s, c) =
      for_down (of_nat k) body (s + of_nat (d (10 - k)) * c, c * 8)" if "k < 11" for k s c
  proof -
    have "(of_nat (Suc k) :: u32) \<noteq> 0" using that by (auto simp: word_unat_eq_iff unat_of_nat simp del: of_nat_Suc)
    then show ?thesis using at [OF that]
      by (subst for_down.simps) (simp add: body_def)
  qed
  have sum: "for_down (of_nat k) body (s, c) =
      (s + of_nat (\<Sum>j<k. d (11 - k + j) * 8 ^ j) * c, c * 8 ^ k)" if "k \<le> 11" for k s c
    using that
  proof (induction k arbitrary: s c)
    case 0
    show ?case by (subst for_down.simps) simp
  next
    case (Suc k)
    have "(\<Sum>j<Suc k. d (11 - Suc k + j) * 8 ^ j) = d (10 - k) + (\<Sum>j<k. d (11 - k + j) * 8 ^ j) * 8"
      using Suc.prems
      by (simp add: sum.lessThan_Suc_shift sum_distrib_left mult.commute mult.left_commute Suc_diff_le
          del: sum.lessThan_Suc)
    with Suc show ?case by (simp only: step) (simp add: algebra_simps)
  qed
  have "getsize m a = of_nat (\<Sum>j<11. d j * 8 ^ j)"
    using sum [of 11 0 1] by (simp add: getsize_def body_def)
  also have "(\<Sum>j<11. d j * 8 ^ j) = n" using digit_sum [of n 11] assms(2) by (simp add: d_def)
  finally show ?thesis .
qed

text \<open>The next header is one block further, after the data padded to whole blocks.\<close>

lemma ceil_512: "(n + 511) div 512 = n div 512 + (if n mod 512 = 0 then 0 else 1)" for n :: nat
proof -
  have "(512 * (n div 512) + (n mod 512 + 511)) div 512 = n div 512 + (n mod 512 + 511) div 512"
    by (rule div_mult_self4) simp
  moreover have "512 * (n div 512) + (n mod 512 + 511) = n + 511"
    using mult_div_mod_eq [of 512 n] by linarith
  moreover have "(n mod 512 + 511) div 512 = (if n mod 512 = 0 then 0 else 1)"
  proof (cases "n mod 512 = 0")
    case False
    have "n mod 512 < 512" by simp
    with False have "(n mod 512 + 511) div 512 = 1" by (intro div_nat_eqI) auto
    with False show ?thesis by simp
  qed simp
  ultimately show ?thesis by simp
qed

lemma next_member_blocks:
  assumes "unat address + 1024 + unat sz < 2 ^ 32"
  shows "unat (next_member address sz) = unat address + 512 * (1 + (unat sz + 511) div 512)"
proof -
  let ?n = "unat sz"
  define w where "w = (sz div 512 + 1) * 512"
  have b: "(?n div 512) * 512 \<le> ?n" by simp
  have u: "unat w = (?n div 512 + 1) * 512"
    using assms by (simp add: w_def unat_word_ariths unat_div_distrib)
  have "unat address + unat w < 2 ^ LENGTH(32)" using assms b u by simp
  then have a1: "unat (address + w) = unat address + unat w" by (rule unat_add_lem [THEN iffD1])
  have "unat (address + w) + unat (512 :: u32) < 2 ^ LENGTH(32)" using assms b u a1 by simp
  then have a2: "unat (address + w + 512) = unat (address + w) + unat (512 :: u32)" by (rule unat_add_lem [THEN iffD1])
  have md: "sz mod 512 = 0 \<longleftrightarrow> ?n mod 512 = 0"
    using unat_mod_distrib [of sz 512] unat_eq_0 [of "sz mod 512"] by simp
  show ?thesis
  proof (cases "sz mod 512 = 0")
    case True
    with md have "(?n + 511) div 512 = ?n div 512" by (simp add: ceil_512)
    with True a1 u show ?thesis by (simp add: next_member_def w_def Let_def)
  next
    case False
    with md have "(?n + 511) div 512 = ?n div 512 + 1" by (simp add: ceil_512)
    moreover have "next_member address sz = address + w + 512"
      using False by (simp add: next_member_def w_def Let_def)
    ultimately show ?thesis using a1 a2 u by simp
  qed
qed

text \<open>
  The test for the end of the archive looks at character \<open>i\<close> of the name of member \<open>i\<close>, so a member
  whose name has at most as many characters as there are members before it ends the list.
\<close>

lemma tar_loop_short_name:
  assumes "cstring_at (hp_mem h) address name" and "length name = unat i"
  shows "tar_loop P address i out h = Some (out, h)"
proof -
  have "cstring_at m a cs \<Longrightarrow> m (a + of_nat (length cs)) = 0" for m a cs
  proof (induction cs arbitrary: a)
    case (Cons c cs)
    from Cons.IH [of "a + 1"] Cons.prems show ?case by (simp add: add.assoc)
  qed simp
  from this [OF assms(1)] have "hp_mem h (address + i) = 0" using assms(2) by simp
  then show ?thesis by (subst tar_loop.simps) simp
qed

end
