(* ===== verification/Kmain.thy ===== *)
theory Kmain
  imports Handlers Vga Gdt Idt PmmInit Tar
begin

text \<open>
  The start of the kernel (src/src/main.cpp): \<open>kmain\<close> and \<open>load_initrd\<close>, which compose the other
  parts. The addresses the linker chose, the stack and the names the program compares with are the
  record \<open>layout\<close>; the statics of all parts together are the record \<open>kernel\<close>, with one memory.
\<close>

section \<open>State\<close>

record layout =
  ly_kernel_start :: u32
  ly_kernel_end :: u32
  ly_tss :: u32
  ly_gdt :: u32
  ly_stack_top :: u32
  ly_isr_table :: "u32 \<Rightarrow> u32"
  ly_irq_table :: "u32 \<Rightarrow> u32"
  ly_isr_128 :: u32
  ly_sp :: u32
  ly_test_exec_one :: u32
  ly_test_exec_two :: u32
  ly_test_exec :: u32

record kernel =
  kn_pmm :: pmm
  kn_heap :: heap
  kn_sched :: sched
  kn_serial :: serial
  kn_vga :: vga
  kn_gdt :: gdt_state
  kn_idt :: "u32 \<Rightarrow> idt_entry"
  kn_pic :: bool
  kn_pit :: pit
  kn_keyboard :: keyboard

definition MULTIBOOT_BOOTLOADER_MAGIC :: u32 where
  "MULTIBOOT_BOOTLOADER_MAGIC = 0x2BADB002"

abbreviation kn_mem :: "kernel \<Rightarrow> memory" where
  "kn_mem K \<equiv> hp_mem (kn_heap K)"

definition with_mem :: "memory \<Rightarrow> kernel \<Rightarrow> kernel" where
  "with_mem m K = K\<lparr>kn_heap := (kn_heap K)\<lparr>hp_mem := m\<rparr>\<rparr>"

section \<open>Messages\<close>

text \<open>\<open>s.write_str(text); v.write_str(text);\<close>\<close>

definition announce :: "string \<Rightarrow> kernel \<Rightarrow> kernel option" where
  "announce text K =
     Option.bind (put_all serial_write_char (lit text) (kn_serial K)) (\<lambda>s.
     map_option (\<lambda>(v, m). with_mem m (K\<lparr>kn_serial := s, kn_vga := v\<rparr>))
       (put_all vga_put (lit text) (kn_vga K, kn_mem K)))"

section \<open>The initial ramdisk\<close>

definition mod_start :: "memory \<Rightarrow> u32 \<Rightarrow> u32" where
  "mod_start m mods = load32 m mods"

definition create_one :: "layout \<Rightarrow> u32 \<Rightarrow> u32 \<Rightarrow> u32 \<times> kernel \<Rightarrow> (u32 \<times> kernel) option" where
  "create_one L pd elf = (\<lambda>(entry_point, K).
     map_option (\<lambda>(e, c, h, s). (e, K\<lparr>kn_sched := c, kn_heap := h, kn_serial := s\<rparr>))
       (create_process (kn_pmm K) (ly_sp L) elf pd (entry_point, kn_sched K, kn_heap K, kn_serial K)))"

text \<open>\<open>strcmp(name, a) == 0 || strcmp(name, b) == 0 || strcmp(name, c) == 0\<close>, left to right.\<close>

definition is_program :: "layout \<Rightarrow> u32 \<Rightarrow> memory \<Rightarrow> bool option" where
  "is_program L name m =
     Option.bind (strcmp name (ly_test_exec_one L) m) (\<lambda>a. if a = 0 then Some True else
     Option.bind (strcmp name (ly_test_exec_two L) m) (\<lambda>b. if b = 0 then Some True else
     map_option (\<lambda>c. c = 0) (strcmp name (ly_test_exec L) m)))"

partial_function (option) initrd_loop :: "layout \<Rightarrow> u32 \<Rightarrow> u32 \<Rightarrow> kernel \<Rightarrow> kernel option" where
  "initrd_loop L pd tar K =
     (if tar = 0 then Some K
      else Option.bind (serial_log (lit ''File: '') (kn_serial K)) (\<lambda>s1.
        Option.bind (serial_write_str (kn_mem K) tar s1) (\<lambda>(n, s2).
        Option.bind (serial_log (lit ''\<newline>'') s2) (\<lambda>s3.
        let K1 = K\<lparr>kn_serial := s3\<rparr> in
        Option.bind (is_program L tar (kn_mem K1)) (\<lambda>prog.
        Option.bind
          (if prog
           then (let (elf, entry_point) = Elf32_new (load32 (kn_mem K1) (tar + TAR_DATA)) in
                 map_option snd (Option.bind (create_one L pd elf (entry_point, K1)) (create_one L pd elf)))
           else Some K1)
          (\<lambda>K2. initrd_loop L pd (load32 (kn_mem K2) (tar + TAR_NEXT)) K2))))))"

definition load_initrd :: "layout \<Rightarrow> u32 \<Rightarrow> kernel \<Rightarrow> kernel option" where
  "load_initrd L mbd K =
     (let m = kn_mem K;
          mods = P2V (mbd_mods_addr m mbd);
          start = P2V (mod_start m mods);
          pd = get_current_pd (sc_cr3 (kn_sched K));
          m1 = map_page (kn_pmm K) pd (V2P start) start 3 m;
          m2 = map_page (kn_pmm K) pd (V2P (start + 0x1000)) (start + 0x1000) 3 m1
      in Option.bind (parse_tar (kn_pmm K) start ((kn_heap K)\<lparr>hp_mem := m2\<rparr>)) (\<lambda>(tar, h).
         initrd_loop L pd tar (K\<lparr>kn_heap := h\<rparr>)))"

section \<open>kmain\<close>

definition start_gdt :: "layout \<Rightarrow> kernel \<Rightarrow> kernel option" where
  "start_gdt L K =
     map_option (\<lambda>(g, s). K\<lparr>kn_gdt := g, kn_serial := s\<rparr>)
       (gdt_init (ly_tss L) (ly_gdt L) (ly_stack_top L) (kn_gdt K, kn_serial K))"

definition start_idt :: "layout \<Rightarrow> kernel \<Rightarrow> kernel option" where
  "start_idt L K =
     map_option (\<lambda>(idt, pic, s). K\<lparr>kn_idt := idt, kn_pic := pic, kn_serial := s\<rparr>)
       (idt_init (ly_isr_table L) (ly_irq_table L) (ly_isr_128 L) (kn_idt K, kn_pic K, kn_serial K))"

definition start_pmm :: "layout \<Rightarrow> u32 \<Rightarrow> kernel \<Rightarrow> kernel option" where
  "start_pmm L mbd K =
     map_option (\<lambda>(P, m, s). with_mem m (K\<lparr>kn_pmm := P, kn_serial := s\<rparr>))
       (pmm_init (ly_kernel_start L) (ly_kernel_end L) (sc_cr3 (kn_sched K)) mbd
         (kn_pmm K, kn_mem K, kn_serial K))"

definition start_timer :: "kernel \<Rightarrow> kernel option" where
  "start_timer K =
     map_option (\<lambda>(t, p). K\<lparr>kn_pit := t, kn_serial := (kn_serial K)\<lparr>se_ports := p\<rparr>\<rparr>)
       (PIT_new 10 (kn_pit K, se_ports (kn_serial K)))"

definition start_keyboard :: "kernel \<Rightarrow> kernel" where
  "start_keyboard K = K\<lparr>kn_keyboard := Keyboard_new (kn_keyboard K)\<rparr>"

definition kmain :: "layout \<Rightarrow> u32 \<Rightarrow> u32 \<Rightarrow> kernel \<Rightarrow> kernel option" where
  "kmain L mbd magic K =
     (if magic \<noteq> MULTIBOOT_BOOTLOADER_MAGIC
      then map_option (\<lambda>s. K\<lparr>kn_serial := s\<rparr>)
        (serial_log (lit ''[MAIN] Invalid Multiboot Magic, got : '' @ hex_text 8 (unat magic) @
           lit '', expected '' @ hex_text 8 (unat MULTIBOOT_BOOTLOADER_MAGIC) @ lit ''!\<newline>'') (kn_serial K))
      else
        Option.bind (Option.bind (start_gdt L K) (announce ''[MAIN] GDT > OK\<newline>'')) (\<lambda>K1.
        Option.bind (Option.bind (start_idt L K1) (announce ''[MAIN] IDT > OK\<newline>'')) (\<lambda>K2.
        Option.bind (Option.bind (start_pmm L mbd K2) (announce ''[MAIN] PMM > OK\<newline>'')) (\<lambda>K3.
        Option.bind (Option.bind (start_timer K3) (announce ''[MAIN] Timer (PIT) > OK\<newline>'')) (\<lambda>K4.
        Option.bind (announce ''[MAIN] Keyboard > OK\<newline>'' (start_keyboard K4)) (\<lambda>K5.
        map_option (\<lambda>K6. K6\<lparr>kn_sched := enable_scheduling (kn_sched K6)\<rparr>) (load_initrd L mbd K5)))))))"

section \<open>Refused and recognised\<close>

text \<open>A wrong magic number: one message, and nothing else is started.\<close>

lemma kmain_bad_magic:
  assumes "magic \<noteq> MULTIBOOT_BOOTLOADER_MAGIC" and "fair (se_ports (kn_serial K))"
  shows "\<exists>s. kmain L mbd magic K = Some (K\<lparr>kn_serial := s\<rparr>) \<and> fair (se_ports s)"
proof -
  from serial_log_returns [OF assms(2), of "lit ''[MAIN] Invalid Multiboot Magic, got : '' @ hex_text 8 (unat magic) @
      lit '', expected '' @ hex_text 8 (unat MULTIBOOT_BOOTLOADER_MAGIC) @ lit ''!\<newline>''"]
  obtain s where "serial_log (lit ''[MAIN] Invalid Multiboot Magic, got : '' @ hex_text 8 (unat magic) @
      lit '', expected '' @ hex_text 8 (unat MULTIBOOT_BOOTLOADER_MAGIC) @ lit ''!\<newline>'') (kn_serial K) = Some s"
    "fair (se_ports s)" by blast
  with assms(1) show ?thesis by (intro exI [of _ s]) (simp add: kmain_def del: lit_simps)
qed

lemma strcmp_equal:
  "cstring_at m one cs \<Longrightarrow> cstring_at m two ds \<Longrightarrow> \<exists>r. strcmp one two m = Some r \<and> (r = 0 \<longleftrightarrow> cs = ds)"
  using strcmp_spec_zero_iff [OF cstring_at_nonzero cstring_at_nonzero] by (simp add: strcmp_cstring)

lemma is_program_iff:
  assumes "cstring_at m name cs"
    and "cstring_at m (ly_test_exec_one L) (lit ''test_exec_one'')"
    and "cstring_at m (ly_test_exec_two L) (lit ''test_exec_two'')"
    and "cstring_at m (ly_test_exec L) (lit ''test_exec'')"
  shows "is_program L name m = Some (cs \<in> {lit ''test_exec_one'', lit ''test_exec_two'', lit ''test_exec''})"
proof -
  from strcmp_equal [OF assms(1,2)] obtain a where
    "strcmp name (ly_test_exec_one L) m = Some a" "a = 0 \<longleftrightarrow> cs = lit ''test_exec_one''" by (elim exE conjE)
  moreover from strcmp_equal [OF assms(1,3)] obtain b where
    "strcmp name (ly_test_exec_two L) m = Some b" "b = 0 \<longleftrightarrow> cs = lit ''test_exec_two''" by (elim exE conjE)
  moreover from strcmp_equal [OF assms(1,4)] obtain c where
    "strcmp name (ly_test_exec L) m = Some c" "c = 0 \<longleftrightarrow> cs = lit ''test_exec''" by (elim exE conjE)
  ultimately show ?thesis by (simp add: is_program_def del: lit_simps)
qed

end
