(* ===== verification/Run.thy ===== *)
theory Run
  imports Handlers
begin

text \<open>
  The kernel after the boot: processes work, and interrupts come in any order. \<open>step\<close> is one event on the
  machine and the pair of interrupt controllers, \<open>run\<close> a sequence of them. \<open>machine_ok\<close> is the invariant
  (\<open>step_runs\<close>), a run refines the scheduler's \<open>ticks\<close> (\<open>run_ticks\<close>), every handler a well-behaved process can
  reach returns (\<open>step_exists\<close>), and a round of the scheduler gives a process its registers back (\<open>round_resumes\<close>).
\<close>

section \<open>What an interrupt does to the machine\<close>

definition machine_ok :: "u32 list \<Rightarrow> u32 \<Rightarrow> machine \<Rightarrow> bool" where
  "machine_ok ps state M \<longleftrightarrow> procs_ok (mc_mem M) (mc_sched M) ps state \<and> kb_init (mc_keyboard M) \<and>
     kb_inv (mc_keyboard M) \<and> serial_ok (mc_serial M)"

text \<open>Memory may change anywhere but in the processes' objects.\<close>

lemma machine_ok_mem: "machine_ok ps state M \<Longrightarrow> procs_kept ps (mc_mem M) m \<Longrightarrow> machine_ok ps state (M\<lparr>mc_mem := m\<rparr>)"
  unfolding machine_ok_def
proof (elim conjE, intro conjI)
  assume ok: "procs_ok (mc_mem M) (mc_sched M) ps state" and k: "procs_kept ps (mc_mem M) m"
  have "procs_ok m (mc_sched M) ps state"
  proof (rule procs_ok_cong [OF ok])
    show "sc_current (mc_sched M) \<in> set ps" using ok by (simp add: procs_ok_def)
    show "m x = mc_mem M x" if "p \<in> set ps" "x - (p + PR_NEXT) < 4" for p x
      using k that next_in_process by (auto simp: procs_kept_def)
  qed simp_all
  then show "procs_ok (mc_mem (M\<lparr>mc_mem := m\<rparr>)) (mc_sched (M\<lparr>mc_mem := m\<rparr>)) ps state" by simp
qed simp_all

lemma keyboard_line_ok:
  assumes "keyboard_interrupt_handler (k, s) = Some (k', s')" and "line_ok p s"
  shows "line_ok p s'"
proof -
  obtain b q where q: "inb KEYBOARD_DATA_PORT (se_ports s) = (b, q)" by fastforce
  define s1 where "s1 = s\<lparr>se_ports := q\<rparr>"
  have "q = snd (inb KEYBOARD_DATA_PORT (se_ports s))" using q by simp
  then have s1: "line_ok p s1" using assms(2) by (simp add: line_ok_def serial_ok_def s1_def com_writes_def)
  obtain s2 where s2: "serial_log (lit ''[KEYBOARD] Queue has been flushed!\<newline>'') s1 = Some s2" "line_ok p s2"
    using com.put_all_output [OF s1, of "lit ''[KEYBOARD] Queue has been flushed!\<newline>''"] unfolding serial_log_def by blast
  show ?thesis
    using assms s1 s2 unfolding keyboard_interrupt_handler_def keyboard_flush_def
    by (auto simp: Let_def q s1_def [symmetric] split: if_splits prod.splits simp del: lit_simps)
qed

text \<open>A hardware interrupt returns, takes its line out of service, and only the timer changes memory.\<close>

lemma irq_runs:
  assumes ok: "machine_ok ps state M" and n: "n < 16" and int: "load32 (mc_mem M) (state + ST_INT) = of_nat n"
  obtains M' where "irq_handler state M = Inr M'" "machine_ok ps state M'"
    "mc_pit M' = (if n = 0 then pit_interrupt_handler (mc_pit M) else mc_pit M)"
    "(mc_sched M', mc_mem M') = (if n = 0 then switch_process state (mc_sched M, mc_mem M) else (mc_sched M, mc_mem M))"
    "\<exists>ws. po_writes (se_ports (mc_serial M')) = po_writes (se_ports (mc_serial M)) @ ws"
    "\<forall>ws c. po_writes (se_ports (mc_serial M')) = po_writes (se_ports (mc_serial M)) @ ws \<longrightarrow> pics_run ws (pics_raise n c) = c"
proof -
  have s: "serial_ok (mc_serial M)" and k: "kb_init (mc_keyboard M)" "kb_inv (mc_keyboard M)"
    and po: "procs_ok (mc_mem M) (mc_sched M) ps state" using ok by (simp_all add: machine_ok_def)
  then have f: "fair (se_ports (mc_serial M))" by (simp add: serial_ok_def)
  obtain M' where M': "irq_handler state M = Inr M'"
    and "\<exists>ws. po_writes (se_ports (mc_serial M')) = po_writes (se_ports (mc_serial M)) @ ws"
    using irq_acknowledged [OF f n int] by blast
  moreover have "pics_run ws (pics_raise n c) = c"
    if "po_writes (se_ports (mc_serial M')) = po_writes (se_ports (mc_serial M)) @ ws" for ws c
    using irq_acknowledged [OF f n int, of c] M' that by auto
  moreover have n0: "(of_nat n :: u32) = 0 \<longleftrightarrow> n = 0" "(of_nat n :: u32) = 1 \<longleftrightarrow> n = 1"
    using n by (auto simp: word_unat_eq_iff unat_of_nat)
  have eoi: "serial_ok (t\<lparr>se_ports := pic_send_eoi i (se_ports t)\<rparr>) = serial_ok t" for t i
    by (simp add: serial_ok_def pic_send_eoi_def)
  consider "n = 0" | "n = 1" | "n \<noteq> 0" "n \<noteq> 1" by blast
  then have "machine_ok ps state M' \<and> mc_pit M' = (if n = 0 then pit_interrupt_handler (mc_pit M) else mc_pit M) \<and>
    (mc_sched M', mc_mem M') = (if n = 0 then switch_process state (mc_sched M, mc_mem M) else (mc_sched M, mc_mem M))"
  proof cases
    case 1
    obtain c m where sw: "switch_process state (mc_sched M, mc_mem M) = (c, m)" by fastforce
    with M' int 1 have "M' = M\<lparr>mc_pit := pit_interrupt_handler (mc_pit M), mc_sched := c, mc_mem := m,
        mc_serial := (mc_serial M)\<lparr>se_ports := pic_send_eoi 0 (se_ports (mc_serial M))\<rparr>\<rparr>"
      by (simp add: irq_handler_def Let_def)
    with 1 sw s k switch_process_ok [OF po sw] eoi show ?thesis by (simp add: machine_ok_def)
  next
    case 2
    obtain k1 s1 where k1: "keyboard_interrupt_handler (mc_keyboard M, mc_serial M) = Some (k1, s1)"
      using handler_returns [OF k(1) f] by blast
    with M' int 2 n0 have "M' = M\<lparr>mc_keyboard := k1, mc_serial := s1\<lparr>se_ports := pic_send_eoi 1 (se_ports s1)\<rparr>\<rparr>"
      by (simp add: irq_handler_def Let_def)
    moreover have "kb_inv k1 \<and> kb_init k1" using kb_step_inv [OF kb_scan [OF k1 refl] k(2,1)] .
    moreover have "serial_ok s1" using keyboard_line_ok [OF k1 line_ok_start [OF s]] by (simp add: line_ok_def)
    ultimately show ?thesis using 2 po eoi by (simp add: machine_ok_def)
  next
    case 3
    with M' int n0 have "M' = M\<lparr>mc_serial := (mc_serial M)\<lparr>se_ports := pic_send_eoi (of_nat n) (se_ports (mc_serial M))\<rparr>\<rparr>"
      by (simp add: irq_handler_def Let_def)
    with 3 ok eoi show ?thesis by (simp add: machine_ok_def)
  qed
  ultimately show thesis using that by blast
qed

text \<open>Writes into the frame of the interrupt spare the processes' objects.\<close>

lemma frame_write_kept:
  assumes po: "procs_ok m c ps state" and k: "unat k + 4 \<le> unat SIZEOF_STATE"
  shows "procs_kept ps m (store32 (state + k) v m)"
proof -
  have "store32 (state + k) v m x = m x" if "p \<in> set ps" "in_block p SIZEOF_PROCESS x" for p x
  proof (rule store32_other, rule ccontr)
    assume "\<not> 4 \<le> x - (state + k)"
    moreover define d where "d = x - (state + k)"
    ultimately have "d < 4" "x - state = k + d" by (simp_all add: linorder_not_le)
    then have d: "unat d < 4" "x - state = k + d" by (simp_all add: word_less_nat_alt)
    then have "x - state < SIZEOF_STATE"
      using k by (simp add: word_less_nat_alt SIZEOF_STATE_def unat_word_ariths)
    then show False using po that by (auto simp: procs_ok_def in_block_def)
  qed
  then show ?thesis by (simp add: procs_kept_def)
qed

text \<open>An exception the handler returns from: only system call 0 and the exceptions it ignores.\<close>

lemma isr_runs:
  assumes ok: "machine_ok ps state M" and r: "isr_handler state M = Inr M'"
    and ws: "po_writes (se_ports (mc_serial M')) = po_writes (se_ports (mc_serial M)) @ ws"
  shows "machine_ok ps state M'" and "pics_run ws c = c" and "mc_sched M' = mc_sched M" and "mc_pit M' = mc_pit M"
    and "procs_kept ps (mc_mem M) (mc_mem M')"
proof -
  let ?int = "load32 (mc_mem M) (state + ST_INT)" and ?eax = "load32 (mc_mem M) (state + ST_EAX)"
  have so: "serial_ok (mc_serial M)" using ok by (simp add: machine_ok_def)
  have po: "procs_ok (mc_mem M) (mc_sched M) ps state" using ok by (simp add: machine_ok_def)
  have int: "?int \<noteq> 13" "?int \<noteq> 14" using isr_fault_halts [OF line_ok_start [OF so], of state] r by fastforce+
  have "machine_ok ps state M' \<and> pics_run ws c = c \<and> mc_sched M' = mc_sched M \<and> mc_pit M' = mc_pit M \<and>
    procs_kept ps (mc_mem M) (mc_mem M')"
  proof (cases "?int = 0x80")
    case True
    then have eax: "?eax \<in> first_entry" using isr_syscall_unchecked [OF line_ok_start [OF so], of state] r by fastforce
    obtain ks s where M': "M' = M\<lparr>mc_mem := store32 (state + ST_EAX) 0 (mc_mem M), mc_kstack := ks, mc_serial := s\<rparr>"
      and s: "line_ok (se_ports (mc_serial M)) s" using isr_syscall [OF line_ok_start [OF so] True eax] r by auto
    have pk: "procs_kept ps (mc_mem M) (mc_mem M')"
      using frame_write_kept [OF po, of ST_EAX] by (simp add: M' ST_EAX_def SIZEOF_STATE_def)
    have "machine_ok ps state (M\<lparr>mc_mem := mc_mem M'\<rparr>)" using ok pk by (rule machine_ok_mem)
    then have "machine_ok ps state M'" using s by (simp add: machine_ok_def M' line_ok_def)
    moreover have "\<forall>w \<in> set ws. COM1 \<le> fst w \<and> fst w \<le> COM1 + 7"
      using s ws by (auto simp: line_ok_def com_writes_def M')
    ultimately show ?thesis using pk pics_run_com by (simp add: M')
  next
    case False
    then have "M' = M" using int r by (simp add: isr_handler_def Let_def)
    with ok ws show ?thesis by (simp add: procs_kept_def pics_run_def)
  qed
  then show "machine_ok ps state M'" "pics_run ws c = c" "mc_sched M' = mc_sched M" "mc_pit M' = mc_pit M"
    "procs_kept ps (mc_mem M) (mc_mem M')" by simp_all
qed


section \<open>The running machine\<close>

text \<open>
  Between interrupts the processes work: they change memory, but not the kernel's process objects; the entry
  stub that leaves the frame of the next interrupt at \<open>state\<close> is part of that work. An interrupt of line \<open>n\<close> puts
  the line in service at the controllers and runs its handler, whose writes the controllers see; an
  exception or system call runs \<open>isr_handler\<close>. There is no step for a handler that does not return.
\<close>

datatype event = Work | Line nat | Trap

inductive step :: "u32 list \<Rightarrow> u32 \<Rightarrow> machine \<times> chip \<times> chip \<Rightarrow> event \<Rightarrow> machine \<times> chip \<times> chip \<Rightarrow> bool" for ps state where
  step_work: "procs_kept ps (mc_mem M) m \<Longrightarrow> step ps state (M, c) Work (M\<lparr>mc_mem := m\<rparr>, c)"
| step_line: "n < 16 \<Longrightarrow> load32 (mc_mem M) (state + ST_INT) = of_nat n \<Longrightarrow> irq_handler state M = Inr M' \<Longrightarrow>
    po_writes (se_ports (mc_serial M')) = po_writes (se_ports (mc_serial M)) @ ws \<Longrightarrow>
    step ps state (M, c) (Line n) (M', pics_run ws (pics_raise n c))"
| step_trap: "isr_handler state M = Inr M' \<Longrightarrow>
    po_writes (se_ports (mc_serial M')) = po_writes (se_ports (mc_serial M)) @ ws \<Longrightarrow>
    step ps state (M, c) Trap (M', pics_run ws c)"

inductive_cases step_workE: "step ps state s Work s'"
inductive_cases step_lineE: "step ps state s (Line n) s'"
inductive_cases step_trapE: "step ps state s Trap s'"

inductive run :: "u32 list \<Rightarrow> u32 \<Rightarrow> machine \<times> chip \<times> chip \<Rightarrow> event list \<Rightarrow> machine \<times> chip \<times> chip \<Rightarrow> bool" for ps state where
  run_none: "run ps state s [] s"
| run_more: "run ps state s es s1 \<Longrightarrow> step ps state s1 e s2 \<Longrightarrow> run ps state s (es @ [e]) s2"

abbreviation tick_count :: "event list \<Rightarrow> nat" where
  "tick_count es \<equiv> count_list es (Line 0)"

text \<open>A step as the scheduler sees it.\<close>

lemma step_runs:
  assumes st: "step ps state (M, c) e (M', c')" and ok: "machine_ok ps state M"
  shows "machine_ok ps state M'" and "c' = c"
    and "pt_ticks (mc_pit M') = pt_ticks (mc_pit M) + (if e = Line 0 then 1 else 0)"
    and "if e = Line 0 then (mc_sched M', mc_mem M') = switch_process state (mc_sched M, mc_mem M)
      else mc_sched M' = mc_sched M \<and> procs_kept ps (mc_mem M) (mc_mem M')"
proof -
  have "machine_ok ps state M' \<and> c' = c \<and> pt_ticks (mc_pit M') = pt_ticks (mc_pit M) + (if e = Line 0 then 1 else 0) \<and>
    (if e = Line 0 then (mc_sched M', mc_mem M') = switch_process state (mc_sched M, mc_mem M)
      else mc_sched M' = mc_sched M \<and> procs_kept ps (mc_mem M) (mc_mem M'))"
    using st
  proof cases
    case (step_work m)
    then show ?thesis using machine_ok_mem [OF ok] by simp
  next
    case (step_line n ws)
    obtain M1 where "irq_handler state M = Inr M1" "machine_ok ps state M1"
      "mc_pit M1 = (if n = 0 then pit_interrupt_handler (mc_pit M) else mc_pit M)"
      "(mc_sched M1, mc_mem M1) = (if n = 0 then switch_process state (mc_sched M, mc_mem M) else (mc_sched M, mc_mem M))"
      "\<forall>ws c. po_writes (se_ports (mc_serial M1)) = po_writes (se_ports (mc_serial M)) @ ws \<longrightarrow> pics_run ws (pics_raise n c) = c"
      by (rule irq_runs [OF ok step_line(3,4)])
    then show ?thesis using step_line by (cases c) (auto simp: pit_interrupt_handler_def procs_kept_def)
  next
    case (step_trap ws)
    then show ?thesis using isr_runs [OF ok step_trap(3,4)] by simp
  qed
  then show "machine_ok ps state M'" "c' = c"
    "pt_ticks (mc_pit M') = pt_ticks (mc_pit M) + (if e = Line 0 then 1 else 0)"
    "if e = Line 0 then (mc_sched M', mc_mem M') = switch_process state (mc_sched M, mc_mem M)
      else mc_sched M' = mc_sched M \<and> procs_kept ps (mc_mem M) (mc_mem M')" by simp_all
qed

text \<open>The machine implements the scheduler: a run is the ticks among its events, with work between them.\<close>

lemma run_ticks:
  assumes "run ps state (M, c) es (M', c')" and "machine_ok ps state M"
  shows "machine_ok ps state M' \<and> c' = c \<and> pt_ticks (mc_pit M') = pt_ticks (mc_pit M) + of_nat (tick_count es) \<and>
    ticks ps state (tick_count es) (mc_sched M, mc_mem M) (mc_sched M', mc_mem M')"
  using assms
proof (induction "(M, c)" es "(M', c')" arbitrary: M' c' rule: run.induct)
  case run_none
  then show ?case by (simp add: ticks_none)
next
  case (run_more es s1 e)
  obtain M1 c1 where s1: "s1 = (M1, c1)" by (cases s1)
  then have IH: "machine_ok ps state M1" "c1 = c" "pt_ticks (mc_pit M1) = pt_ticks (mc_pit M) + of_nat (tick_count es)"
    "ticks ps state (tick_count es) (mc_sched M, mc_mem M) (mc_sched M1, mc_mem M1)"
    using run_more by simp_all
  note st = step_runs [OF run_more(3) [unfolded s1] IH(1)]
  show ?case
  proof (cases "e = Line 0")
    case True
    then show ?thesis using st IH ticks_tick [OF IH(4)] by (simp add: add.assoc)
  next
    case False
    then show ?thesis using st IH ticks_work [OF IH(4)] by simp
  qed
qed

section \<open>A round\<close>

lemma run_ok: "run ps state (M, c) es (M', c') \<Longrightarrow> machine_ok ps state M \<Longrightarrow> machine_ok ps state M'"
  using run_ticks by blast

lemma run_current:
  assumes "run ps state (M, c) es (M', c')" and ok: "machine_ok ps state M"
  shows "sc_current (mc_sched M') = (next_in ps ^^ tick_count es) (sc_current (mc_sched M))"
proof -
  have "ticks ps state (tick_count es) (mc_sched M, mc_mem M) (mc_sched M', mc_mem M')"
    using run_ticks [OF assms] by blast
  from ticks_run [OF this] ok show ?thesis by (simp add: machine_ok_def)
qed

text \<open>No process comes up again before the others had their turn.\<close>

lemma next_in_elsewhere:
  assumes "distinct ps" "p \<in> set ps" "0 < k" "k < length ps"
  shows "(next_in ps ^^ k) p \<noteq> p"
proof -
  obtain i where i: "i < length ps" "p = ps ! i" using assms(2) by (auto simp: in_set_conv_nth)
  have "(i + k) mod length ps < length ps" using i by (intro mod_less_divisor) linarith
  moreover have "(i + k) mod length ps \<noteq> i"
    using i assms(3,4) by (cases "i + k < length ps") (auto simp: mod_if)
  ultimately show ?thesis using next_in_iterate [OF assms(1) i(1), of k] i assms(1) by (simp add: nth_eq_iff_index_eq)
qed

lemma next_in_round: "distinct ps \<Longrightarrow> p \<in> set ps \<Longrightarrow> (next_in ps ^^ length ps) p = p"
proof -
  assume d: "distinct ps" and p: "p \<in> set ps"
  then obtain i where i: "i < length ps" "p = ps ! i" by (auto simp: in_set_conv_nth)
  show ?thesis using next_in_iterate [OF d i(1), of "length ps"] i by simp
qed

text \<open>Less than a round after its preemption, \<open>p\<close> is still away.\<close>

lemma run_away:
  assumes "run ps state (M, c) es (M', c')" and "machine_ok ps state M"
    and "p \<in> set ps" "sc_current (mc_sched M) = next_in ps p" and "tick_count es + 1 < length ps"
  shows "away p ps state (mc_sched M, mc_mem M) (mc_sched M', mc_mem M')"
  using assms
proof (induction "(M, c)" es "(M', c')" arbitrary: M' c' rule: run.induct)
  case run_none
  then show ?case by (simp add: away_none)
next
  case (run_more es s1 e)
  obtain M1 c1 where s1: "s1 = (M1, c1)" by (cases s1)
  have r1: "run ps state (M, c) es (M1, c1)" and lt: "tick_count es + 1 < length ps"
    using run_more(1,7) s1 by (simp_all split: if_splits)
  have aw: "away p ps state (mc_sched M, mc_mem M) (mc_sched M1, mc_mem M1)"
    using run_more(2) [OF s1 run_more(4-6) lt] .
  have ok1: "machine_ok ps state M1" using run_ok [OF r1 run_more(4)] .
  have st: "if e = Line 0 then (mc_sched M', mc_mem M') = switch_process state (mc_sched M1, mc_mem M1)
      else mc_sched M' = mc_sched M1 \<and> procs_kept ps (mc_mem M1) (mc_mem M')"
    using step_runs(4) [OF _ ok1] run_more(3) s1 by blast
  have "sc_current (mc_sched M1) = (next_in ps ^^ Suc (tick_count es)) p"
    using run_current [OF r1 run_more(4)] run_more(6) by (simp add: funpow_swap1)
  moreover have "distinct ps" using ok1 by (simp add: machine_ok_def procs_ok_def)
  ultimately have "sc_current (mc_sched M1) \<noteq> p"
    using next_in_elsewhere [of ps p "Suc (tick_count es)"] run_more(5) lt by simp
  then show ?case using st away_tick [OF aw] away_work [OF aw] by (cases "e = Line 0") auto
qed

text \<open>
  A tick takes the processor from \<open>p\<close>; everybody else gets a turn, with any other interrupts in
  between; the tick that ends the round gives it back, with the registers it had.
\<close>

lemma round_resumes:
  assumes ok: "machine_ok ps state M" and t1: "step ps state (M, c) (Line 0) (M1, c1)"
    and r: "run ps state (M1, c1) es (M2, c2)" and n: "tick_count es + 2 = length ps"
    and t2: "step ps state (M2, c2) (Line 0) (M3, c3)"
  shows "sc_current (mc_sched M3) = sc_current (mc_sched M)"
    and "k < SIZEOF_STATE \<Longrightarrow> frame (mc_mem M3) state k = frame (mc_mem M) state k"
proof -
  define p where "p = sc_current (mc_sched M)"
  have po: "procs_ok (mc_mem M) (mc_sched M) ps state" using ok by (simp add: machine_ok_def)
  then have p: "p \<in> set ps" and d: "distinct ps" by (simp_all add: procs_ok_def p_def)
  note s1 = step_runs [OF t1 ok]
  then have sw1: "switch_process state (mc_sched M, mc_mem M) = (mc_sched M1, mc_mem M1)" by simp
  have cur1: "sc_current (mc_sched M1) = next_in ps p" using switch_process_effect(1) [OF po sw1] by (simp add: p_def)
  have ok2: "machine_ok ps state M2" using run_ok [OF r s1(1)] .
  have aw: "away p ps state (mc_sched M1, mc_mem M1) (mc_sched M2, mc_mem M2)"
    using n by (intro run_away [OF r s1(1) p cur1]) simp
  have cur2: "sc_current (mc_sched M2) = (next_in ps ^^ Suc (tick_count es)) p"
    using run_current [OF r s1(1)] cur1 by (simp add: funpow_swap1)
  then have other: "sc_current (mc_sched M2) \<noteq> p" using next_in_elsewhere [OF d p, of "Suc (tick_count es)"] n by simp
  have sw2: "switch_process state (mc_sched M2, mc_mem M2) = (mc_sched M3, mc_mem M3)"
    using step_runs(4) [OF t2 ok2] by simp
  have po2: "procs_ok (mc_mem M2) (mc_sched M2) ps state" using ok2 by (simp add: machine_ok_def)
  have "sc_current (mc_sched M3) = (next_in ps ^^ length ps) p"
    using switch_process_effect(1) [OF po2 sw2] cur2 n [symmetric] by simp
  then have cur3: "sc_current (mc_sched M3) = p" using next_in_round [OF d p] by simp
  then show "sc_current (mc_sched M3) = sc_current (mc_sched M)" by (simp add: p_def)
  show "frame (mc_mem M3) state k = frame (mc_mem M) state k" if k: "k < SIZEOF_STATE"
    using switch_restores [OF po sw1 aw [unfolded p_def] other [unfolded p_def] sw2 cur3 [unfolded p_def] k] .
qed

section \<open>Runs go on\<close>

text \<open>Whatever has happened, the handler of the next interrupt returns: a hardware interrupt or a system call.\<close>

lemma step_exists:
  assumes ok: "machine_ok ps state M"
  shows "n < 16 \<Longrightarrow> load32 (mc_mem M) (state + ST_INT) = of_nat n \<Longrightarrow>
      \<exists>s. step ps state (M, c) (Line n) s"
    and "load32 (mc_mem M) (state + ST_INT) = 0x80 \<Longrightarrow> load32 (mc_mem M) (state + ST_EAX) \<in> first_entry \<Longrightarrow>
      \<exists>s. step ps state (M, c) Trap s"
proof -
  assume n: "n < 16" "load32 (mc_mem M) (state + ST_INT) = of_nat n"
  obtain M' where "irq_handler state M = Inr M'" "\<exists>ws. po_writes (se_ports (mc_serial M')) = po_writes (se_ports (mc_serial M)) @ ws"
    by (rule irq_runs [OF ok n])
  with n show "\<exists>s. step ps state (M, c) (Line n) s" using step_line by blast
next
  assume t: "load32 (mc_mem M) (state + ST_INT) = 0x80" "load32 (mc_mem M) (state + ST_EAX) \<in> first_entry"
  have "serial_ok (mc_serial M)" using ok by (simp add: machine_ok_def)
  from isr_syscall [OF line_ok_start [OF this] t] obtain ks s where
    r: "isr_handler state M = Inr (M\<lparr>mc_mem := store32 (state + ST_EAX) 0 (mc_mem M), mc_kstack := ks, mc_serial := s\<rparr>)"
    and "line_ok (se_ports (mc_serial M)) s" by blast
  then obtain ws where "po_writes (se_ports s) = po_writes (se_ports (mc_serial M)) @ ws"
    by (auto simp: line_ok_def com_writes_def)
  then have "step ps state (M, c) Trap (M\<lparr>mc_mem := store32 (state + ST_EAX) 0 (mc_mem M), mc_kstack := ks,
      mc_serial := s\<rparr>, pics_run ws c)" by (intro step_trap [OF r]) simp
  then show "\<exists>s. step ps state (M, c) Trap s" ..
qed

text \<open>The exceptions and system calls \<open>isr_handler\<close> comes back from; it never waits for ever.\<close>

definition trap_returns :: "u32 \<Rightarrow> u32 \<Rightarrow> bool" where
  "trap_returns int_num eax \<longleftrightarrow> int_num \<noteq> 13 \<and> int_num \<noteq> 14 \<and> (int_num = 0x80 \<longrightarrow> eax \<in> first_entry)"

lemma trap_outcome:
  assumes ok: "machine_ok ps state M"
  shows "(\<exists>s. step ps state (M, c) Trap s) \<longleftrightarrow>
      trap_returns (load32 (mc_mem M) (state + ST_INT)) (load32 (mc_mem M) (state + ST_EAX))"
    and "isr_handler state M \<noteq> Inl Waiting"
proof -
  let ?int = "load32 (mc_mem M) (state + ST_INT)" and ?eax = "load32 (mc_mem M) (state + ST_EAX)"
  have so: "serial_ok (mc_serial M)" using ok by (simp add: machine_ok_def)
  note stops = isr_fault_halts [OF line_ok_start [OF so], of state ?int, OF refl]
    isr_syscall_unchecked [OF line_ok_start [OF so], of state]
  have fault: "\<not> trap_returns ?int ?eax \<Longrightarrow> \<exists>e. isr_handler state M = Inl e \<and> e \<noteq> Waiting"
    using stops by (auto simp: trap_returns_def)
  have other: "isr_handler state M = Inr M" if "?int \<noteq> 0x80" "trap_returns ?int ?eax"
    using that by (simp add: isr_handler_def trap_returns_def Let_def)
  have call: "\<exists>s. step ps state (M, c) Trap s" if "?int = 0x80" "trap_returns ?int ?eax"
    using step_exists(2) [OF ok that(1)] that by (simp add: trap_returns_def)
  have same: "step ps state (M, c) Trap (M, pics_run [] c)" if "?int \<noteq> 0x80" "trap_returns ?int ?eax"
    using other [OF that] by (intro step_trap) simp_all
  have "trap_returns ?int ?eax" if "step ps state (M, c) Trap s" for s
  proof (rule ccontr)
    assume "\<not> trap_returns ?int ?eax"
    with fault obtain e where "isr_handler state M = Inl e" by blast
    with that show False by (auto elim!: step_trapE)
  qed
  then show "(\<exists>s. step ps state (M, c) Trap s) \<longleftrightarrow> trap_returns ?int ?eax"
    using call same by blast
  show "isr_handler state M \<noteq> Inl Waiting"
    using fault other call by (cases "trap_returns ?int ?eax"; cases "?int = 0x80") (auto elim!: step_trapE)
qed

lemma run_exists:
  assumes "machine_ok ps state M"
  shows "\<exists>es s. run ps state (M, c) es s \<and> tick_count es = n"
proof (induction n)
  case 0
  show ?case by (intro exI [of _ "[]"] exI [of _ "(M, c)"]) (simp add: run_none)
next
  case (Suc n)
  then obtain es M1 c1 where r: "run ps state (M, c) es (M1, c1)" "tick_count es = n" by auto
  have ok1: "machine_ok ps state M1" using run_ok [OF r(1) assms] .
  define M2 where "M2 = M1\<lparr>mc_mem := store32 (state + ST_INT) 0 (mc_mem M1)\<rparr>"
  have pk: "procs_kept ps (mc_mem M1) (store32 (state + ST_INT) 0 (mc_mem M1))"
    using ok1 by (intro frame_write_kept) (auto simp: machine_ok_def ST_INT_def SIZEOF_STATE_def)
  have r2: "run ps state (M, c) (es @ [Work]) (M2, c1)"
    unfolding M2_def using r(1) step_work [OF pk] by (rule run_more)
  have "machine_ok ps state M2" unfolding M2_def using ok1 pk by (rule machine_ok_mem)
  then obtain s where "step ps state (M2, c1) (Line 0) s" using step_exists(1) [of ps state M2 0 c1] by (auto simp: M2_def)
  with r2 have "run ps state (M, c) ((es @ [Work]) @ [Line 0]) s" by (rule run_more)
  moreover have "tick_count ((es @ [Work]) @ [Line 0]) = Suc n" using r(2) by simp
  ultimately show ?case by blast
qed

text \<open>Every process comes to run, with any interrupts in between.\<close>

lemma run_fair:
  assumes ok: "machine_ok ps state M" and q: "q \<in> set ps"
  obtains n where "n < length ps"
    "\<forall>c es M' c'. run ps state (M, c) es (M', c') \<longrightarrow> tick_count es = n \<longrightarrow> sc_current (mc_sched M') = q"
proof -
  have po: "procs_ok (mc_mem M) (mc_sched M) ps state" using ok by (simp add: machine_ok_def)
  obtain n where n: "n < length ps" "\<And>s. ticks ps state n (mc_sched M, mc_mem M) s \<Longrightarrow> sc_current (fst s) = q"
    using ticks_fair [OF po q] by blast
  show thesis
  proof (intro that [OF n(1)] allI impI)
    fix c es M' c' assume r: "run ps state (M, c) es (M', c')" and "tick_count es = n"
    then have "ticks ps state n (mc_sched M, mc_mem M) (mc_sched M', mc_mem M')" using run_ticks [OF r ok] by simp
    from n(2) [OF this] show "sc_current (mc_sched M') = q" by simp
  qed
qed

end
