(* ===== verification/Machines.thy ===== *)
theory Machines
  imports Samples Kmain Run
begin

text \<open>
  More concrete states, for the parts beside memory management: a serial line whose transmitter is
  always ready, two processes, a screen with the cursor on its last row, and a program of four bytes.
\<close>

section \<open>The empty directory\<close>

lemma sample_absent: "i < 1024 \<Longrightarrow> \<not> present (pde sample_mem sample_pd i)"
proof -
  assume i: "i < 1024"
  have "page_aligned sample_pd" by (simp add: page_aligned_def page_of_def sample_pd_def)
  moreover have "sample_mem x = 0" if "page_of x = sample_pd" for x
    using that by (cases "x = 0xC0000000") (auto simp: sample_mem_def page_of_def sample_pd_def)
  ultimately have "pde sample_mem sample_pd i = 0" unfolding pde_def using i by (intro load32_zero_page) auto
  then show ?thesis by simp
qed

lemma sample_free_frames: "card (free_frames sample_pmm sample_mem) = 6"
proof -
  have "i = 1 \<or> i = 2 \<or> i = 3 \<or> i = 4 \<or> i = 5 \<or> i = 6 \<or> i = 7"
    if i: "1 \<le> i" "i < 8" for i :: u32
  proof -
    have "unat i = 1 \<or> unat i = 2 \<or> unat i = 3 \<or> unat i = 4 \<or> unat i = 5 \<or> unat i = 6 \<or> unat i = 7"
      using i by (simp add: word_le_nat_alt word_less_nat_alt) arith
    then show ?thesis by (simp add: word_unat_eq_iff)
  qed
  then have "free_frames sample_pmm sample_mem = {2, 3, 4, 5, 6, 7}"
    using sample_used by (auto simp: free_frames_def sample_pmm_def word_le_nat_alt)
  then show ?thesis by simp
qed

text \<open>The block \<open>malloc (20)\<close> gives on the empty heap.\<close>

lemma sample_block:
  obtains ptr h bs b i where "kmalloc sample_pmm 20 sample_heap = Some (ptr, h)" "heap_inv sample_pmm h bs"
    "live (hp_mem h) bs = {(b, i)}" "b_power_size (hp_mem h) b = 32" "ptr = slot_addr b 32 i"
    "fst (allocate_frame sample_pmm (hp_mem h)) \<noteq> 0" "bits (b_bitmap (hp_mem h) b) (hp_mem h) = {i}"
proof -
  have "(20 :: u32) \<le> 2048" by simp
  from kmalloc_correct [OF sample_heap_inv this] sample_alloc_nonzero obtain ptr h bs b i
    where k: "kmalloc sample_pmm 20 sample_heap = Some (ptr, h)"
      and post: "malloc_post sample_pmm 20 sample_heap [] ptr h bs b i" by auto
  have p: "compute_power 20 = Some (2 ^ 5)" by (rule compute_power_some) simp_all
  have "\<not> frame_used sample_pmm 3 (hp_mem h)"
    using post sample_used [of 3] by (auto simp: malloc_post_def sample_alloc FRAME_SIZE_def)
  then have "fst (allocate_frame sample_pmm (hp_mem h)) \<noteq> 0"
    by (subst allocate_frame_zero_iff) (auto simp: pmm_wf_def sample_pmm_def intro!: exI [of _ 3])
  with k post p show thesis by (intro that [of ptr h bs b i]) (auto simp: malloc_post_def live_def)
qed

section \<open>Devices\<close>

definition sample_ports :: ports where
  "sample_ports = \<lparr>po_answers = (\<lambda>_ _. 0x20), po_reads = (\<lambda>_. 0), po_writes = []\<rparr>"

definition sample_serial :: serial where
  "sample_serial = \<lparr>se_init = True, se_ports = sample_ports\<rparr>"

lemma sample_fair: "fair sample_ports"
  by (auto simp: fair_def sample_ports_def)

lemma sample_serial_ok: "serial_ok sample_serial" "fair (se_ports sample_serial)" "serial_text sample_serial = []"
  by (simp_all add: serial_ok_def sample_serial_def sample_fair serial_text_def sent_def)
    (simp add: sample_ports_def)

definition sample_vga :: vga where
  "sample_vga = (init_vga \<lparr>vg_init = False, vg_color = 0, vg_x = 0, vg_y = 0, vg_width = 0, vg_height = 0,
     vg_screen = 0\<rparr>)\<lparr>vg_y := 24\<rparr>"

lemma sample_vga_ok: "vga_ok sample_vga" "vg_y sample_vga = 24" "vg_screen sample_vga = 0xC03FF000"
  by (simp_all add: vga_ok_def sample_vga_def init_vga_def set_color_def)

definition sample_keyboard :: keyboard where
  "sample_keyboard = \<lparr>kb_init = True, kb_idx = 0, kb_read = 0, kb_column = 0, kb_queue = (\<lambda>_. 0)\<rparr>"

section \<open>Two processes\<close>

definition proc_a :: u32 where "proc_a = 0xC0010000"
definition proc_b :: u32 where "proc_b = 0xC0010100"
definition proc_state :: u32 where "proc_state = 0xC0020000"

definition proc_mem :: memory where
  "proc_mem = store32 (proc_a + PR_NEXT) proc_b (\<lambda>_. 0)"

definition proc_sched :: sched where
  "proc_sched = \<lparr>sc_processes = proc_a, sc_current = proc_a, sc_init = True, sc_cr3 = 0\<rparr>"

lemma blocks_far: "n \<le> b - a \<Longrightarrow> k \<le> a - b \<Longrightarrow> \<not> (in_block a n x \<and> in_block b k x)" for a b n k x :: u32
proof (rule notI)
  assume le: "n \<le> b - a" "k \<le> a - b" and x: "in_block a n x \<and> in_block b k x"
  define d e where "d = x - a" and "e = b - a"
  have "d < e" using le x by (auto simp: d_def e_def in_block_def)
  then have "- e \<le> d - e" using unat_sub_if' [of 0 e]
    by (auto simp: word_le_nat_alt word_less_nat_alt unat_sub_if' split: if_splits)
  moreover have "d - e = x - b" "- e = a - b" by (simp_all add: d_def e_def)
  ultimately have "a - b \<le> x - b" by simp
  with le x show False by (auto simp: in_block_def)
qed

lemma proc_ok: "procs_ok proc_mem proc_sched [proc_a, proc_b] proc_state"
proof -
  have l: "load32 proc_mem (proc_a + PR_NEXT) = proc_b" by (simp add: proc_mem_def)
  have "load32 proc_mem (proc_b + PR_NEXT) = 0"
    by (simp add: proc_mem_def load_store32_other proc_a_def proc_b_def PR_NEXT_def) (simp add: load32_def)
  with l have pl: "plist proc_mem proc_a [proc_a, proc_b]" by (simp add: proc_a_def proc_b_def)
  have "apart72 proc_a proc_b" "apart72 proc_b proc_a"
    unfolding apart72_def by (intro allI blocks_far; simp add: proc_a_def proc_b_def SIZEOF_PROCESS_def)+
  moreover have "\<not> (in_block p SIZEOF_PROCESS x \<and> in_block proc_state SIZEOF_STATE x)" if "p \<in> {proc_a, proc_b}" for p x
    using that by (intro blocks_far)
      (auto simp: proc_a_def proc_b_def proc_state_def SIZEOF_PROCESS_def SIZEOF_STATE_def)
  moreover have "proc_a \<noteq> proc_b" by (simp add: proc_a_def proc_b_def)
  ultimately show ?thesis using pl by (auto simp: procs_ok_def proc_sched_def)
qed

lemma proc_next: "next_in [proc_a, proc_b] proc_a = proc_b" "next_in [proc_a, proc_b] proc_b = proc_a"
  by (simp_all add: next_in_def proc_a_def proc_b_def)

section \<open>A program in memory\<close>

text \<open>
  The program header lies in frame 2 at 0xC0002000 and asks for four bytes, at offset 0x100 of the
  file, to be loaded at 0x400000.
\<close>

definition file_page :: u32 where "file_page = 0xC0002000"

definition file_mem :: memory where
  "file_mem = (\<lambda>x. if page_of x = file_page
     then store32 (file_page + 16) 4 (store32 (file_page + 8) 0x400000
           (store32 (file_page + 4) 0x100 (store32 file_page 1 (\<lambda>_. 0)))) x
     else snd (allocate_frame sample_pmm sample_mem) x)"

lemma file_page_alloc: "P2V (fst (allocate_frame sample_pmm sample_mem)) = file_page"
  by (simp add: sample_alloc file_page_def P2V_def KERNEL_OFFSET_def FRAME_SIZE_def)

lemma file_apart: "bitmap_apart sample_pmm file_page"
  by (rule sample_bitmap_apart) (simp add: file_page_def)

lemma file_as_inv: "as_inv sample_pmm file_mem sample_pd"
  and file_kernel_data: "page_of x = file_page \<Longrightarrow> kernel_data sample_pmm file_mem sample_pd x"
proof -
  note ai = alloc_as_inv [OF sample_as_inv sample_alloc_nonzero, unfolded file_page_alloc]
  have same: "page_of x \<noteq> file_page \<Longrightarrow> file_mem x = snd (allocate_frame sample_pmm sample_mem) x" for x
    by (simp add: file_mem_def)
  note wo = write_outside_as_inv [OF ai(1,3) file_apart same]
  show "as_inv sample_pmm file_mem sample_pd" by (rule wo(1))
  show "kernel_data sample_pmm file_mem sample_pd x" if "page_of x = file_page"
    using that wo(2,3) ai(2,3) file_apart by (simp add: kernel_data_def outside_pd_def)
qed

lemma file_fields: "p_filesz file_mem file_page = 4" "p_offset file_mem file_page = 0x100"
    "p_vaddr file_mem file_page = 0x400000"
proof -
  let ?s = "store32 (file_page + 16) 4 (store32 (file_page + 8) 0x400000
           (store32 (file_page + 4) 0x100 (store32 file_page 1 (\<lambda>_. 0))))"
  have al: "page_aligned file_page" by (simp add: page_aligned_def page_of_def file_page_def)
  have eq: "load32 file_mem (file_page + k) = load32 ?s (file_page + k)" if "k = 4 \<or> k = 8 \<or> k = 16" for k
  proof (rule load32_cong)
    fix x assume x4: "x - (file_page + k) < 4"
    define d where "d = x - (file_page + k)"
    have d: "d < 4" and x: "x = file_page + (k + d)" using x4 by (simp_all add: d_def)
    have "k + d < 4096" using that d by (auto simp: word_less_nat_alt unat_word_ariths)
    with al have "page_of x = file_page" unfolding x by (intro page_of_offset)
    then show "file_mem x = ?s x" by (simp add: file_mem_def)
  qed
  show "p_filesz file_mem file_page = 4" "p_offset file_mem file_page = 0x100" "p_vaddr file_mem file_page = 0x400000"
    using eq [of 16] eq [of 4] eq [of 8]
    by (simp_all add: p_filesz_def p_offset_def p_vaddr_def load_store32_other)
qed

lemma file_free_frames: "5 \<le> card (free_frames sample_pmm file_mem)"
proof -
  have "frame_used sample_pmm i file_mem = frame_used sample_pmm i (snd (allocate_frame sample_pmm sample_mem))" for i
    by (rule frame_used_write_page [OF file_apart]) (simp add: file_mem_def)
  then have "free_frames sample_pmm file_mem = free_frames sample_pmm (snd (allocate_frame sample_pmm sample_mem))"
    by (rule free_frames_cong)
  then show ?thesis using alloc_free_frames(2) [OF sample_fa_inv, of 5] by (simp add: sample_free_frames)
qed

lemma file_frames: "fst (allocate_frame sample_pmm file_mem) \<noteq> 0"
    "fst (allocate_frame sample_pmm (snd (allocate_frame sample_pmm file_mem))) \<noteq> 0"
proof -
  have fa: "fa_inv (sample_pmm, t)" for t using sample_fa_inv by (simp add: fa_inv_def)
  show "fst (allocate_frame sample_pmm file_mem) \<noteq> 0"
    using alloc_free_frames(1) [OF fa, of 4] file_free_frames by simp
  show "fst (allocate_frame sample_pmm (snd (allocate_frame sample_pmm file_mem))) \<noteq> 0"
    using alloc_free_frames [OF fa, of 4 file_mem] alloc_free_frames(1) [OF fa, of 3] file_free_frames by simp
qed

section \<open>An interrupt\<close>

text \<open>The frame at \<open>proc_state\<close> for interrupt \<open>n\<close> with \<open>eax\<close> in the register, all else zero.\<close>

definition frame_mem :: "u32 \<Rightarrow> u32 \<Rightarrow> memory" where
  "frame_mem n eax = store32 (proc_state + ST_INT) n (store32 (proc_state + ST_EAX) eax (\<lambda>_. 0))"

definition sample_machine :: "memory \<Rightarrow> machine" where
  "sample_machine m = \<lparr>mc_mem = m, mc_sched = proc_sched, mc_serial = sample_serial,
     mc_keyboard = sample_keyboard, mc_pit = \<lparr>pt_init = True, pt_ticks = 0\<rparr>,
     mc_kstack = \<lparr>ks_cells = (\<lambda>_. 0), ks_idx = 0\<rparr>\<rparr>"

lemma sample_machine_simps [simp]:
  "mc_mem (sample_machine m) = m" "mc_serial (sample_machine m) = sample_serial"
  by (simp_all add: sample_machine_def)

lemma frame_mem_fields [simp]:
  "load32 (frame_mem n eax) (proc_state + ST_INT) = n" "load32 (frame_mem n eax) (proc_state + ST_EAX) = eax"
  by (simp_all add: frame_mem_def proc_state_def ST_INT_def ST_EAX_def load_store32_other)

text \<open>The two processes of \<open>proc_mem\<close>, whose first interrupt is a tick, with the controllers as \<open>PIC_new\<close> leaves them.\<close>

definition sample_pics :: "chip \<times> chip" where
  "sample_pics = (\<lparr>ch_expect = 0, ch_offset = 0x20, ch_cascade = 4, ch_mask = 0, ch_service = []\<rparr>,
     \<lparr>ch_expect = 0, ch_offset = 0x28, ch_cascade = 2, ch_mask = 0, ch_service = []\<rparr>)"

lemma sample_machine_ok: "machine_ok [proc_a, proc_b] proc_state (sample_machine proc_mem)"
  using proc_ok sample_serial_ok(1)
  by (simp add: machine_ok_def sample_machine_def sample_keyboard_def kb_inv_def KEYBOARD_QUEUE_SIZE_def)

lemma proc_mem_tick: "load32 (mc_mem (sample_machine proc_mem)) (proc_state + ST_INT) = 0"
  by (simp add: proc_mem_def load_store32_other proc_state_def proc_a_def ST_INT_def PR_NEXT_def) (simp add: load32_def)

section \<open>The kernel before it starts\<close>

definition sample_layout :: layout where
  "sample_layout = \<lparr>ly_kernel_start = 0xC0100000, ly_kernel_end = 0xC0110000, ly_tss = 0xC0105000,
     ly_gdt = 0xC0106000, ly_stack_top = 0xC0104000, ly_isr_table = (\<lambda>i. 0xC0101000 + 8 * i),
     ly_irq_table = (\<lambda>i. 0xC0102000 + 8 * i), ly_isr_128 = 0xC0103000, ly_sp = 0xC0103F00,
     ly_test_exec_one = 0, ly_test_exec_two = 0x100, ly_test_exec = 0x300\<rparr>"

definition sample_kernel :: kernel where
  "sample_kernel = \<lparr>kn_pmm = sample_pmm, kn_heap = sample_heap, kn_sched = \<lparr>sc_processes = 0, sc_current = 0,
     sc_init = False, sc_cr3 = update_cr3 sample_pd\<rparr>, kn_serial = sample_serial, kn_vga = sample_vga,
     kn_gdt = \<lparr>gs_gdt = gdt_static, gs_tss = zero_tss, gs_limit = 0, gs_base = 0\<rparr>, kn_idt = (\<lambda>_. zero_entry),
     kn_pic = False, kn_pit = \<lparr>pt_init = False, pt_ticks = 0\<rparr>,
     kn_keyboard = sample_keyboard\<lparr>kb_init := False\<rparr>\<rparr>"

text \<open>A directory at 0xC0001000 with one table, at 0xC0004000 for the window of the kernel.\<close>

abbreviation "window_pd \<equiv> (0xC0001000 :: u32)"

definition window_dir :: memory where
  "window_dir = store32 (entry window_pd 768) 0x4003 (\<lambda>_. 0)"

lemma aligned_literals [simp]: "page_aligned 0xC0001000" "page_aligned 0xC0002000" "page_aligned 0xC0003000" "page_aligned 0xC0004000"
    "page_aligned 0xC0000000"
  by (simp_all add: page_aligned_def page_of_def)

lemma window_pde:
  assumes "\<And>x. page_of x = window_pd \<Longrightarrow> m x = window_dir x" and "i < 1024"
  shows "pde m window_pd i = (if i = 768 then 0x4003 else 0)"
proof -
  have "pde m window_pd i = load32 window_dir (entry window_pd i)"
    unfolding pde_def using assms by (intro load32_entry_cong) auto
  then show ?thesis using assms(2) unfolding window_dir_def by (simp add: load32_store32_entry) (simp add: load32_def)
qed

lemma window_table:
  assumes "\<And>x. page_of x = window_pd \<Longrightarrow> m x = window_dir x" and "i < 1024"
  shows "present (pde m window_pd i) \<longleftrightarrow> i = 768"
    and "present (pde m window_pd i) \<Longrightarrow> table_of (pde m window_pd i) = 0xC0004000"
  using window_pde [OF assms]
  by (simp_all add: present_def table_of_def page_of_def P2V_def KERNEL_OFFSET_def split: if_splits)

lemma window_pd_wf: "(\<And>x. page_of x = window_pd \<Longrightarrow> m x = window_dir x) \<Longrightarrow> pd_wf m window_pd"
proof -
  assume dir: "\<And>x. page_of x = window_pd \<Longrightarrow> m x = window_dir x"
  have "P2V window_pd = window_pd" "(0xC0004000 :: u32) \<noteq> window_pd" by (simp_all add: P2V_def KERNEL_OFFSET_def)
  moreover have "page_aligned window_pd" by simp
  ultimately show ?thesis unfolding pd_wf_def using window_table [of m, OF dir] by metis
qed

text \<open>
  The kernel before \<open>init\<close> of the frames: such a directory, and the boot loader's map at 0xA000 with one region
  of 2 MiB, available from 0 on. The kernel ends at 0xC0110000.
\<close>

definition early_mem :: memory where
  "early_mem x = (if page_of x = window_pd then window_dir x
     else store32 0x9000 0x40 (store32 0x902C 24 (store32 0x9030 0xA000 (store32 0xC000A00C 0x200000 (store32 0xC000A014 1 (\<lambda>_. 0))))) x)"

abbreviation "early_pmm \<equiv> init_pmm early_mem 0x9000 0xC0110000"

lemma early_map: "mbd_mmap_length early_mem 0x9000 = 24" "mbd_mmap_addr early_mem 0x9000 = 0xA000"
    "drop_bit 6 (mbd_flags early_mem 0x9000) AND 1 \<noteq> 0" "mmap_entry early_mem 0x9000 0 = 0xC000A000"
    "mmap_addr_low early_mem 0xC000A000 = 0" "mmap_type early_mem 0xC000A000 = MULTIBOOT_MEMORY_AVAILABLE"
    "mmap_len early_mem 0xC000A000 = 0x200000"
  by (simp_all add: early_mem_def mbd_mmap_length_def mbd_mmap_addr_def mbd_flags_def mmap_type_def mmap_addr_low_def mmap_len_def
      mmap_entry_def MULTIBOOT_MEMORY_AVAILABLE_def P2V_def KERNEL_OFFSET_def load32_def store32_def page_of_def)

lemma early_pmm_eq: "early_pmm = \<lparr>pmm_nbFrames = 512, pmm_bm = \<lparr>bm_ptr = 0xC0110000, bm_size = 64\<rparr>\<rparr>"
proof -
  have "mmap_count early_mem 0x9000 = 1" by (simp add: mmap_count_def early_map)
  then have "mmap_total early_mem 0x9000 = 0x200000" by (simp add: mmap_total_def early_map)
  then show ?thesis by (simp add: init_pmm_def FRAME_SIZE_def)
qed

lemma early_pages: "bitmap_pages early_pmm = 1" "bitmap_page early_pmm 0 = 0xC0110000"
  by (simp_all add: bitmap_pages_def bitmap_page_def early_pmm_eq FRAME_SIZE_def)

lemma early_info: "\<forall>x \<in> boot_info early_mem 0x9000. init_spares early_mem window_pd early_pmm x"
proof
  fix x assume x: "x \<in> boot_info early_mem 0x9000"
  define d where "d = x - 0x9000"
  define e where "e = x - 0xC000A000"
  have c: "(x = 0x9000 + d \<and> d < 4096) \<or> (x = 0xC000A000 + e \<and> e < 4096)"
  proof -
    have "x - 0x902C < 8 \<longrightarrow> d < 4096" "x - 0xC000A004 < 4 \<longrightarrow> e < 4096" "x - 0xC000A014 < 4 \<longrightarrow> e < 4096"
      unfolding d_def e_def by unat_arith+
    then show ?thesis using x by (auto simp: boot_info_def in_block_def early_map P2V_def KERNEL_OFFSET_def d_def e_def)
  qed
  have "page_aligned 0x9000" "page_aligned 0xC000A000" "page_aligned 0xC0110000" by (simp_all add: page_aligned_def page_of_def)
  with c have p: "page_of x = 0x9000 \<or> page_of x = 0xC000A000" using page_of_offset by metis
  have "\<not> in_bitmap (pmm_bm early_pmm) x"
  proof
    assume "in_bitmap (pmm_bm early_pmm) x"
    then have "x - 0xC0110000 < 4096" by (simp add: in_bitmap_def in_block_def early_pmm_eq less_trans)
    then have "page_of x = 0xC0110000" using page_of_offset [of "0xC0110000" "x - 0xC0110000"] \<open>page_aligned 0xC0110000\<close> by simp
    with p show False by auto
  qed
  moreover have "table_of (pde early_mem window_pd 768) = 0xC0004000"
    using window_table [of early_mem 768] by (simp add: early_mem_def)
  ultimately show "init_spares early_mem window_pd early_pmm x"
    using p by (auto simp: init_spares_def early_pages pd_index_def dest!: word_less_1 [THEN iffD1])
qed

end
