(* ===== verification/Keeps.thy ===== *)
theory Keeps
  imports Space
begin

text \<open>
  What the operations on memory leave alone: the relation \<open>keeps\<close> between the memory before and after a
  step, its laws, and the operations of the frame allocator and of paging that satisfy it. The other
  parts use it to carry what they know about their own data across steps of the memory management.
\<close>

section \<open>What an operation leaves alone\<close>

text \<open>
  \<open>keeps P pd E m m'\<close>: the step from \<open>m\<close> to \<open>m'\<close> gives no frame back, keeps \<open>pd\<close> an address space, and
  leaves every byte of the kernel's data as it was, those in \<open>E\<close> excepted; a table that \<open>pd\<close> gains lies
  on a frame nobody owned.
\<close>

definition keeps :: "pmm \<Rightarrow> u32 \<Rightarrow> u32 set \<Rightarrow> memory \<Rightarrow> memory \<Rightarrow> bool" where
  "keeps P pd E m m' \<longleftrightarrow> as_inv P m' pd \<and> (\<forall>i. frame_used P i m \<longrightarrow> frame_used P i m') \<and>
     (\<forall>x. kernel_data P m pd x \<longrightarrow> kernel_data P m' pd x \<and> (x \<in> E \<or> m' x = m x)) \<and>
     (\<forall>j < 1024. present (pde m' pd j) \<longrightarrow> pde m' pd j = pde m pd j \<or> \<not> owned P m (table_of (pde m' pd j)))"

lemma keepsD:
  assumes "keeps P pd E m m'"
  shows "as_inv P m' pd" and "frame_used P i m \<Longrightarrow> frame_used P i m'" and "owned P m q \<Longrightarrow> owned P m' q"
    and "kernel_data P m pd x \<Longrightarrow> kernel_data P m' pd x"
    and "kernel_data P m pd x \<Longrightarrow> x \<notin> E \<Longrightarrow> m' x = m x"
    and "j < 1024 \<Longrightarrow> present (pde m' pd j) \<Longrightarrow> pde m' pd j = pde m pd j \<or> \<not> owned P m (table_of (pde m' pd j))"
proof -
  show used: "frame_used P i m \<Longrightarrow> frame_used P i m'" for i using assms by (simp add: keeps_def)
  show "owned P m q \<Longrightarrow> owned P m' q" using used by (rule owned_mono [rotated])
qed (use assms in \<open>simp_all add: keeps_def, blast\<close>)

lemma keeps_refl: "as_inv P m pd \<Longrightarrow> keeps P pd E m m"
  by (simp add: keeps_def)

lemma keeps_trans:
  assumes a: "keeps P pd E m m1" and b: "keeps P pd E m1 m2"
  shows "keeps P pd E m m2"
proof -
  have "kernel_data P m2 pd x \<and> (x \<in> E \<or> m2 x = m x)" if "kernel_data P m pd x" for x
    using keepsD(4,5) [OF a that] keepsD(4,5) [OF b keepsD(4) [OF a that]] by auto
  moreover have "pde m2 pd j = pde m pd j \<or> \<not> owned P m (table_of (pde m2 pd j))" if "j < 1024" "present (pde m2 pd j)" for j
    using keepsD(6) [OF b that] keepsD(6) [OF a that(1)] keepsD(3) [OF a] that(2) by auto
  ultimately show ?thesis using keepsD(1) [OF b] keepsD(2) [OF a] keepsD(2) [OF b] by (simp add: keeps_def)
qed

lemma keeps_mono: "keeps P pd E m m' \<Longrightarrow> E \<subseteq> F \<Longrightarrow> keeps P pd F m m'"
  unfolding keeps_def by blast

text \<open>An address space depends on the bytes of its directory, and only gains from frames in use.\<close>

lemma as_inv_cong:
  assumes inv: "as_inv P m pd" and dir: "\<And>x. page_of x = pd \<Longrightarrow> m' x = m x"
    and used: "\<And>i. frame_used P i m \<Longrightarrow> frame_used P i m'"
  shows "as_inv P m' pd" and "outside_pd m' pd q \<longleftrightarrow> outside_pd m pd q"
    and "j < 1024 \<Longrightarrow> pde m' pd j = pde m pd j"
proof -
  have al: "page_aligned pd" using inv by (simp add: as_inv_def pd_wf_def)
  show pde: "j < 1024 \<Longrightarrow> pde m' pd j = pde m pd j" for j
    unfolding pde_def using al by (intro load32_entry_cong dir)
  then show "outside_pd m' pd q \<longleftrightarrow> outside_pd m pd q" by (simp add: outside_pd_def)
  have "owned P m' q" if "owned P m q" for q using that used by (rule owned_mono)
  moreover have "free_apart P m'" using inv used by (auto simp: as_inv_def free_apart_def)
  ultimately show "as_inv P m' pd"
    using inv by (auto simp: as_inv_def fa_inv_def pd_wf_def tables_apart_def pde)
qed

lemma kernel_data_cong:
  assumes "as_inv P m pd" "\<And>x. page_of x = pd \<Longrightarrow> m' x = m x"
    and "\<And>i. frame_used P i m \<Longrightarrow> frame_used P i m'" and "kernel_data P m pd x"
  shows "kernel_data P m' pd x"
  using as_inv_cong(2) [OF assms(1-3), of "page_of x"] assms(3,4)
  by (auto simp: kernel_data_def elim: owned_mono)

text \<open>A step that leaves the directory alone.\<close>

lemma keeps_local:
  assumes inv: "as_inv P m pd" and dir: "\<And>x. page_of x = pd \<Longrightarrow> m' x = m x"
    and used: "\<And>i. frame_used P i m \<Longrightarrow> frame_used P i m'"
    and data: "\<And>x. kernel_data P m pd x \<Longrightarrow> x \<notin> E \<Longrightarrow> m' x = m x"
  shows "keeps P pd E m m'"
  using as_inv_cong(1,3) [OF inv dir used] kernel_data_cong [OF inv dir used] used data by (auto simp: keeps_def)

lemma kernel_data_page: "page_of x = page_of y \<Longrightarrow> kernel_data P m pd x = kernel_data P m pd y"
  by (simp add: kernel_data_def)

lemma keeps_bytes:
  assumes inv: "as_inv P m pd" and ch: "\<And>x. m' x \<noteq> m x \<Longrightarrow> x \<in> E \<and> kernel_data P m pd x"
  shows "keeps P pd E m m'"
proof -
  have dir: "m' x = m x" if "page_of x = pd" for x
    using ch [of x] that by (auto simp: kernel_data_def outside_pd_def)
  have "m x = m' x" if "in_bitmap (pmm_bm P) x" for x
  proof (rule ccontr)
    assume "m x \<noteq> m' x"
    then have "bitmap_apart P (page_of x)" using ch [of x] by (simp add: kernel_data_def)
    with that show False by (auto simp: bitmap_apart_def)
  qed
  then have used: "frame_used P i m = frame_used P i m'" for i by (rule frame_used_cong)
  then have used': "frame_used P i m \<Longrightarrow> frame_used P i m'" for i by blast
  show ?thesis by (rule keeps_local [OF inv dir used']) (use ch in blast)+
qed

lemma allocate_frame_used:
  assumes fa: "fa_inv (P, m)" and i: "frame_used P i m"
  shows "frame_used P i (snd (allocate_frame P m))"
proof (cases "fst (allocate_frame P m) = 0")
  case True
  with fa have "allocate_frame P m = (0, m)"
    by (intro allocate_frame_none) (auto simp: fa_inv_def allocate_frame_zero_iff)
  with i show ?thesis by simp
next
  case False
  from fa False obtain f where "snd (allocate_frame P m) = snd (set_bit (pmm_bm P) f m)" "f < pmm_nbFrames P" "1 \<le> f"
    by (rule allocated_frame) auto
  with fa i show ?thesis by (simp add: frame_used_set fa_inv_def)
qed

lemma keeps_alloc:
  assumes inv: "as_inv P m pd"
  shows "keeps P pd E m (snd (allocate_frame P m))"
proof -
  let ?m = "snd (allocate_frame P m)"
  have fa: "fa_inv (P, m)" and ap: "bitmap_apart P pd" using inv by (simp_all add: as_inv_def tables_apart_def)
  note used = allocate_frame_used [OF fa]
  have dir: "?m x = m x" if "page_of x = pd" for x using ap that by (intro allocate_frame_page) simp
  have "kernel_data P m pd x \<Longrightarrow> ?m x = m x" for x by (intro allocate_frame_page) (simp add: kernel_data_def)
  then show ?thesis by (intro keeps_local [OF inv dir used]) blast+
qed

text \<open>The frames \<open>map_page\<close> uses: one more when it adds a table, none otherwise.\<close>

lemma map_page_used:
  assumes inv: "as_inv P m pd" and room: "present (pde m pd (pd_index va)) \<or> fst (allocate_frame P m) \<noteq> 0"
  shows "frame_used P i (map_page P pd pa va flags m) =
    frame_used P i (if present (pde m pd (pd_index va)) then m else snd (allocate_frame P m))"
proof -
  let ?i = "pd_index va" and ?m1 = "with_table P pd va m"
  have pd: "P2V pd = pd" "page_aligned pd" and ap: "bitmap_apart P pd"
    using inv by (simp_all add: as_inv_def pd_wf_def tables_apart_def)
  have m1: "as_inv P ?m1 pd" "present (pde ?m1 pd ?i)"
    using with_table_ready(2) [OF as_inv_map_ready [OF inv room]] new_table_as_inv [OF inv, of ?i] inv room
    by (auto simp: with_table_def)
  have "frame_used P i (map_page P pd pa va flags m) = frame_used P i ?m1"
    using pte_store_as_inv(2) [OF m1(1) _ m1(2)] by (simp add: map_page_split [OF pd(1)])
  also have "\<dots> = frame_used P i (if present (pde m pd ?i) then m else snd (allocate_frame P m))"
  proof (cases "present (pde m pd ?i)")
    case False
    let ?q = "P2V (fst (allocate_frame P m))"
    have nz: "fst (allocate_frame P m) \<noteq> 0" using room False by simp
    obtain f where f: "fst (allocate_frame P m) = f * FRAME_SIZE" "1 \<le> f" "f < pmm_nbFrames P" "\<not> frame_used P f m"
      using inv nz by (auto simp: as_inv_def elim: allocated_frame)
    then have apq: "bitmap_apart P ?q" using inv by (auto simp: as_inv_def free_apart_def)
    have same: "new_table P pd ?i m x = snd (allocate_frame P m) x" if "page_of x \<noteq> ?q" "page_of x \<noteq> pd" for x
      using that pd by (simp add: new_table_def split_beta Let_def Page_index_def page_aligned_P2V store32_entry_outside memset_page)
    have "frame_used P i (new_table P pd ?i m) = frame_used P i (snd (allocate_frame P m))"
    proof (rule frame_used_cong)
      fix x assume "in_bitmap (pmm_bm P) x"
      with ap apq have "page_of x \<noteq> pd" "page_of x \<noteq> ?q" by (auto simp: bitmap_apart_def)
      then show "new_table P pd ?i m x = snd (allocate_frame P m) x" by (simp add: same)
    qed
    with False show ?thesis by (simp add: with_table_def)
  qed (simp add: with_table_def)
  finally show ?thesis .
qed

lemma map_page_tables:
  assumes inv: "as_inv P m pd" and room: "present (pde m pd (pd_index va)) \<or> fst (allocate_frame P m) \<noteq> 0"
    and j: "j < 1024"
  shows "pde (map_page P pd pa va flags m) pd j = pde m pd j \<or>
    \<not> owned P m (table_of (pde (map_page P pd pa va flags m) pd j))"
proof -
  let ?i = "pd_index va" and ?m1 = "with_table P pd va m" and ?q = "P2V (fst (allocate_frame P m))"
  have pd: "page_aligned pd" "P2V pd = pd" "bitmap_apart P pd"
    using inv by (simp_all add: as_inv_def pd_wf_def tables_apart_def)
  note wr = with_table_ready [OF as_inv_map_ready [OF inv room]]
  have "pde (map_page P pd pa va flags m) pd j = pde ?m1 pd j"
    using pd_wf_table [OF wr(1) _ wr(2)] pd j by (simp add: map_page_split pde_store_other)
  moreover have "pde ?m1 pd j = pde m pd j \<or> \<not> owned P m (table_of (pde ?m1 pd j))"
  proof (cases "present (pde m pd ?i)")
    case False
    with room have nz: "fst (allocate_frame P m) \<noteq> 0" by simp
    note ai = alloc_as_inv [OF inv nz]
    have q: "?q \<noteq> pd" "page_aligned ?q" using ai(3) by (simp_all add: outside_pd_def page_aligned_P2V)
    have "pde ?m1 pd j = (if j = ?i then PageEntry_new (V2P ?q) 7 else pde m pd j)"
      using False pd q j by (simp add: with_table_def new_table_pde)
    then show ?thesis using ai(4) [of ?q] q by (auto simp: table_of_PageEntry_new)
  qed (simp add: with_table_def)
  ultimately show ?thesis by simp
qed

lemma keeps_map_page:
  assumes inv: "as_inv P m pd" and room: "present (pde m pd (pd_index va)) \<or> fst (allocate_frame P m) \<noteq> 0"
  shows "keeps P pd E m (map_page P pd pa va flags m)"
proof -
  let ?m = "map_page P pd pa va flags m"
  have fa: "fa_inv (P, m)" using inv by (simp add: as_inv_def)
  have used: "frame_used P i m \<Longrightarrow> frame_used P i ?m" for i
    by (simp add: map_page_used [OF inv room] allocate_frame_used [OF fa])
  have pde: "pde ?m pd j = pde m pd j \<or> \<not> owned P m (table_of (pde ?m pd j))" if "j < 1024" for j
    by (rule map_page_tables [OF inv room that])
  have "kernel_data P ?m pd x \<and> ?m x = m x" if "kernel_data P m pd x" for x
    using that map_page_keeps [OF inv room, of "page_of x"] owned_mono [OF _ used]
    by (auto simp: kernel_data_def)
  with map_page_as_inv [OF inv room] used pde show ?thesis by (simp add: keeps_def)
qed

section \<open>Frames left\<close>

lemma map_page_free_frames:
  assumes inv: "as_inv P m pd" and n: "Suc n \<le> card (free_frames P m)"
  shows "n \<le> card (free_frames P (map_page P pd pa va flags m))"
    and "present (pde m pd (pd_index va)) \<or> fst (allocate_frame P m) \<noteq> 0"
proof -
  have fa: "fa_inv (P, m)" using inv by (simp add: as_inv_def)
  show room: "present (pde m pd (pd_index va)) \<or> fst (allocate_frame P m) \<noteq> 0"
    using alloc_free_frames(1) [OF fa n] by simp
  have "free_frames P (map_page P pd pa va flags m) =
      free_frames P (if present (pde m pd (pd_index va)) then m else snd (allocate_frame P m))"
    by (rule free_frames_cong) (rule map_page_used [OF inv room])
  with alloc_free_frames(2) [OF fa n] n show "n \<le> card (free_frames P (map_page P pd pa va flags m))" by simp
qed

end
