(* ===== verification/Program.thy ===== *)
theory Program
  imports Keeps
begin

text \<open>
  Loading a whole program (\<open>Elf32::load\<close>, src/src/loader/loader.cpp): when the file is in order and the
  frames suffice, the load returns, every segment is there to be read at its address in the address
  space of the process, and nothing of the kernel's data changes but the bytes of the magic number
  on the stack.
\<close>

section \<open>A program file\<close>

text \<open>A segment that can be loaded, and what loading it needs.\<close>

definition loadable :: "memory \<Rightarrow> u32 \<Rightarrow> bool" where
  "loadable m ph \<longleftrightarrow> p_type m ph = PT_LOAD \<and> p_filesz m ph \<noteq> 0"

definition segment_ok :: "pmm \<Rightarrow> u32 \<Rightarrow> u32 set \<Rightarrow> memory \<Rightarrow> u32 \<Rightarrow> u32 \<Rightarrow> bool" where
  "segment_ok P pd E m elf ph \<longleftrightarrow> (\<forall>j < 32. kernel_data P m pd (ph + j) \<and> ph + j \<notin> E) \<and>
     (loadable m ph \<longrightarrow> unat (p_vaddr m ph AND 0xFFF) + unat (p_filesz m ph) \<le> 4096 \<and>
       (\<forall>k < p_filesz m ph. kernel_data P m pd (elf + p_offset m ph + k) \<and> elf + p_offset m ph + k \<notin> E))"

text \<open>The file image of a segment is there to be read in the address space, on pages of the process' own.\<close>

definition segment_at :: "pmm \<Rightarrow> memory \<Rightarrow> u32 \<Rightarrow> u32 \<Rightarrow> u32 \<Rightarrow> memory \<Rightarrow> bool" where
  "segment_at P m0 pd elf ph m \<longleftrightarrow> (\<forall>k < p_filesz m0 ph. \<exists>pa. walk m (update_cr3 pd) (p_vaddr m0 ph + k) = Some pa \<and>
     m (P2V pa) = m0 (elf + p_offset m0 ph + k) \<and> kernel_data P m pd (P2V pa) \<and> \<not> owned P m0 (page_of (P2V pa)))"

lemma load_segment_done:
  assumes inv: "as_inv P m pd" and n: "n + 2 \<le> card (free_frames P m)"
    and ok: "segment_ok P pd F m elf ph" "loadable m ph"
  obtains m' where "load_segment P pd (update_cr3 pd) elf ph m = Some m'" "keeps P pd E m m'"
    "n \<le> card (free_frames P m')" "segment_at P m pd elf ph m'"
    "\<And>vb. page_of vb \<noteq> page_of (p_vaddr m ph) \<Longrightarrow> walk m' (update_cr3 pd) vb = walk m (update_cr3 pd) vb"
proof -
  let ?va = "p_vaddr m ph" and ?sz = "p_filesz m ph" and ?src = "elf + p_offset m ph"
    and ?fr = "fst (allocate_frame P m)" and ?m1 = "snd (allocate_frame P m)"
  define q where "q = P2V ?fr"
  define m2 where "m2 = map_page P pd ?fr ?va 7 ?m1"
  from ok have hdr: "\<And>j. j < 32 \<Longrightarrow> kernel_data P m pd (ph + j)"
    and src: "\<And>k. k < ?sz \<Longrightarrow> kernel_data P m pd (?src + k)"
    and fits: "unat (?va AND 0xFFF) + unat ?sz \<le> 4096" by (simp_all add: segment_ok_def)
  have fa: "fa_inv (P, m)" using inv by (simp add: as_inv_def)
  have nz: "?fr \<noteq> 0" and n1: "Suc n \<le> card (free_frames P ?m1)"
    using alloc_free_frames [OF fa, of "Suc n"] n by simp_all
  have inv1: "as_inv P ?m1 pd" and own1: "owned P ?m1 q" using alloc_as_inv [OF inv nz] by (simp_all add: q_def)
  have room1: "present (pde ?m1 pd (pd_index ?va)) \<or> fst (allocate_frame P ?m1) \<noteq> 0"
    and n2: "n \<le> card (free_frames P m2)" using map_page_free_frames [OF inv1 n1] by (simp_all add: m2_def)
  have room: "present (pde m pd (pd_index ?va)) \<or> fst (allocate_frame P ?m1) \<noteq> 0"
    using alloc_free_frames(1) [OF _ n1] fa by (simp add: fa_inv_def)
  note sm = segment_mapped [OF inv nz room, folded m2_def, folded q_def]
  have k2: "keeps P pd E' m m2" for E' unfolding m2_def
    by (rule keeps_trans [OF keeps_alloc [OF inv] keeps_map_page [OF inv1 room1]])
  obtain f where f: "?fr = f * FRAME_SIZE" "1 \<le> f" "f < pmm_nbFrames P" "\<not> frame_used P f m"
    using fa nz by (auto elim: allocated_frame)
  then have apq: "bitmap_apart P q" using inv by (auto simp: as_inv_def free_apart_def q_def)
  have al: "page_aligned q" using sm(3) by (simp add: q_def page_aligned_P2V)
  have "owned P m2 q" unfolding m2_def
    using own1 keepsD(3) [OF keeps_map_page [OF inv1 room1]] by blast
  with sm(2) apq have kq: "kernel_data P m2 pd x" if "page_of x = q" for x using that by (simp add: kernel_data_def)
  have tr: "walk m2 (update_cr3 pd) (?va + k) = Some (?fr OR ((?va AND 0xFFF) + k))" if "k < ?sz" for k
    using that fits by (intro sm(4)) (simp add: word_less_nat_alt)
  have bytes: "m2 (?src + k) = m (?src + k)" "page_of (?src + k) \<noteq> q" if "k < ?sz" for k
    using sm(6) [OF src [OF that]] by auto
  from copy_to_virt_page [OF sm(1) sm(2) [unfolded q_def] sm(3) tr fits bytes(2) [unfolded q_def]] obtain m' where
    m': "copy_to_virt (update_cr3 pd) ?va ?src ?sz m2 = Some m'" "\<And>x. page_of x \<noteq> q \<Longrightarrow> m' x = m2 x"
    "\<And>k. k < ?sz \<Longrightarrow> m' (P2V (?fr OR ((?va AND 0xFFF) + k))) = m2 (?src + k)" by (auto simp: q_def)
  have k3: "keeps P pd {x. page_of x = q} m2 m'" using keepsD(1) [OF k2] by (rule keeps_bytes) (use m'(2) kq in auto)
  have "keeps P pd E m m'"
    unfolding keeps_def
  proof (intro conjI allI impI)
    show "as_inv P m' pd" by (rule keepsD(1) [OF k3])
    show "frame_used P i m \<Longrightarrow> frame_used P i m'" for i using keepsD(2) [OF k2] keepsD(2) [OF k3] by blast
    fix x assume x: "kernel_data P m pd x"
    show "kernel_data P m' pd x" using keepsD(4) [OF k2 x] keepsD(4) [OF k3] by blast
    show "x \<in> E \<or> m' x = m x" using sm(6) [OF x] m'(2) [of x] by simp
  next
    fix j :: u32 assume j: "j < 1024" "present (pde m' pd j)"
    show "pde m' pd j = pde m pd j \<or> \<not> owned P m (table_of (pde m' pd j))"
      using keepsD(6) [OF k3 j] keepsD(6) [OF k2 j(1)] keepsD(3) [OF k2] j(2) by auto
  qed
  moreover have "load_segment P pd (update_cr3 pd) elf ph m = Some m'"
    using m'(1) by (simp add: load_segment_eq [OF inv nz room hdr] m2_def)
  moreover have w: "walk m' (update_cr3 pd) vb = walk m2 (update_cr3 pd) vb" for vb
    by (rule walk_outside [OF sm(1,2) m'(2)])
  moreover have "segment_at P m pd elf ph m'"
    unfolding segment_at_def
  proof (intro allI impI)
    fix k assume k: "k < ?sz"
    have lt: "(?va AND 0xFFF) + k < 4096"
    proof -
      have "unat (?va AND 0xFFF) + unat k < 4096" using k fits by (simp add: word_less_nat_alt)
      then show ?thesis by (simp add: word_less_nat_alt unat_word_ariths)
    qed
    have pq: "page_of (P2V (?fr OR ((?va AND 0xFFF) + k))) = q"
      unfolding P2V_offset [OF sm(3) lt] using al lt by (simp add: q_def [symmetric] page_of_offset)
    then have "\<not> owned P m (page_of (P2V (?fr OR ((?va AND 0xFFF) + k))))"
      using alloc_as_inv(4) [OF inv nz, of q] by (auto simp: q_def)
    moreover from pq have "kernel_data P m' pd (P2V (?fr OR ((?va AND 0xFFF) + k)))" using kq keepsD(4) [OF k3] by blast
    ultimately show "\<exists>pa. walk m' (update_cr3 pd) (?va + k) = Some pa \<and> m' (P2V pa) = m (?src + k) \<and>
        kernel_data P m' pd (P2V pa) \<and> \<not> owned P m (page_of (P2V pa))"
      using tr [OF k] m'(3) [OF k] bytes(1) [OF k] w by auto
  qed
  moreover have "n \<le> card (free_frames P m')"
  proof -
    have "free_frames P m' = free_frames P m2"
      by (rule free_frames_cong) (rule frame_used_write_page [OF apq m'(2)])
    with n2 show ?thesis by simp
  qed
  moreover have "walk m' (update_cr3 pd) vb = walk m (update_cr3 pd) vb" if "page_of vb \<noteq> page_of ?va" for vb
    using w sm(5) [OF that] by simp
  ultimately show thesis by (intro that [of m'])
qed

text \<open>The file looks the same from a state, or a directory, that has kept its bytes.\<close>

definition same_data :: "pmm \<Rightarrow> u32 set \<Rightarrow> u32 \<Rightarrow> memory \<Rightarrow> u32 \<Rightarrow> memory \<Rightarrow> bool" where
  "same_data P E pd m pd' m' \<longleftrightarrow> (\<forall>x. kernel_data P m pd x \<longrightarrow> kernel_data P m' pd' x \<and> (x \<notin> E \<longrightarrow> m' x = m x))"

lemma keeps_same_data: "keeps P pd E m m' \<Longrightarrow> same_data P E pd m pd m'"
  by (auto simp: keeps_def same_data_def)

lemma segment_ok_same:
  assumes ok: "segment_ok P pd E m elf ph" and k: "same_data P E pd m pd' m'"
  shows "segment_ok P pd' E m' elf ph" and "loadable m' ph = loadable m ph"
    and "p_vaddr m' ph = p_vaddr m ph" and "p_filesz m' ph = p_filesz m ph" and "p_offset m' ph = p_offset m ph"
    and "loadable m ph \<Longrightarrow> j < p_filesz m ph \<Longrightarrow> m' (elf + p_offset m ph + j) = m (elf + p_offset m ph + j)"
proof -
  have "m' (ph + j) = m (ph + j)" if "j < 32" for j
    using ok that k by (simp add: segment_ok_def same_data_def)
  note ld = load32_kernel_data [of m', OF this]
  show f: "p_vaddr m' ph = p_vaddr m ph" "p_filesz m' ph = p_filesz m ph" "p_offset m' ph = p_offset m ph"
    using ld [of 8] ld [of 16] ld [of 4] by (simp_all add: p_vaddr_def p_filesz_def p_offset_def)
  have "p_type m' ph = p_type m ph" using ld [of 0] by (simp add: p_type_def)
  then show l: "loadable m' ph = loadable m ph" by (simp add: loadable_def f)
  show "segment_ok P pd' E m' elf ph"
    using ok k by (simp add: segment_ok_def same_data_def l f)
  show "loadable m ph \<Longrightarrow> j < p_filesz m ph \<Longrightarrow> m' (elf + p_offset m ph + j) = m (elf + p_offset m ph + j)"
    using ok k by (simp add: segment_ok_def same_data_def)
qed

lemmas segment_ok_keeps = segment_ok_same [OF _ keeps_same_data]

text \<open>A loaded segment stays readable as long as its page keeps its translation.\<close>

lemma segment_at_keeps:
  assumes at: "segment_at P m0 pd elf ph m" and k: "keeps P pd E m m'"
    and E: "\<And>x. kernel_data P m pd x \<Longrightarrow> \<not> owned P m0 (page_of x) \<Longrightarrow> x \<notin> E"
    and w: "\<And>vb. page_of vb = page_of (p_vaddr m0 ph) \<Longrightarrow> walk m' (update_cr3 pd) vb = walk m (update_cr3 pd) vb"
    and fits: "unat (p_vaddr m0 ph AND 0xFFF) + unat (p_filesz m0 ph) \<le> 4096"
  shows "segment_at P m0 pd elf ph m'"
  unfolding segment_at_def
proof (intro allI impI)
  fix j assume j: "j < p_filesz m0 ph"
  with at obtain pa where pa: "walk m (update_cr3 pd) (p_vaddr m0 ph + j) = Some pa"
    "m (P2V pa) = m0 (elf + p_offset m0 ph + j)" "kernel_data P m pd (P2V pa)" "\<not> owned P m0 (page_of (P2V pa))" by (auto simp: segment_at_def)
  have "page_of (p_vaddr m0 ph + j) = page_of (p_vaddr m0 ph)"
    using page_offset(1) [of "p_vaddr m0 ph" j] fits j by (simp add: word_less_nat_alt)
  with w pa(1) have "walk m' (update_cr3 pd) (p_vaddr m0 ph + j) = Some pa" by simp
  with pa keepsD(4) [OF k pa(3)] keepsD(5) [OF k pa(3) E [OF pa(3,4)]] show "\<exists>pa. walk m' (update_cr3 pd) (p_vaddr m0 ph + j) = Some pa \<and>
      m' (P2V pa) = m0 (elf + p_offset m0 ph + j) \<and> kernel_data P m' pd (P2V pa) \<and> \<not> owned P m0 (page_of (P2V pa))" by simp
qed

text \<open>A program file: header and program headers are the kernel's data, outside \<open>E\<close>, every segment is
  in order, and no two of them share a page.\<close>

definition phdr :: "memory \<Rightarrow> u32 \<Rightarrow> u32 \<Rightarrow> u32" where
  "phdr m elf i = elf + e_phoff m elf + i * ucast (e_phentsize m elf)"

definition elf_ok :: "pmm \<Rightarrow> u32 \<Rightarrow> u32 set \<Rightarrow> memory \<Rightarrow> u32 \<Rightarrow> bool" where
  "elf_ok P pd E m elf \<longleftrightarrow> (\<forall>j < 52. kernel_data P m pd (elf + j) \<and> elf + j \<notin> E) \<and>
     (\<forall>i < ucast (e_phnum m elf). segment_ok P pd E m elf (phdr m elf i)) \<and>
     (\<forall>i < ucast (e_phnum m elf). \<forall>j < ucast (e_phnum m elf). i \<noteq> j \<longrightarrow> loadable m (phdr m elf i) \<longrightarrow>
        loadable m (phdr m elf j) \<longrightarrow> page_of (p_vaddr m (phdr m elf i)) \<noteq> page_of (p_vaddr m (phdr m elf j)))"

lemma load_phdr_done:
  assumes inv: "as_inv P m pd" and n: "n + 2 \<le> card (free_frames P m)" and ok: "segment_ok P pd E m elf ph"
    and fair: "fair (se_ports s)"
  obtains m' s' where "load_phdr P pd (update_cr3 pd) elf ph (m, s) = Some (m', s')" "keeps P pd {} m m'"
    "n \<le> card (free_frames P m')" "fair (se_ports s')" "loadable m ph \<longrightarrow> segment_at P m pd elf ph m'"
    "\<And>vb. loadable m ph \<longrightarrow> page_of vb \<noteq> page_of (p_vaddr m ph) \<Longrightarrow>
       walk m' (update_cr3 pd) vb = walk m (update_cr3 pd) vb"
proof -
  obtain s' where s': "serial_log (phdr_log m ph) s = Some s'" "fair (se_ports s')"
    using serial_log_returns [OF fair] by blast
  show thesis
  proof (cases "loadable m ph")
    case True
    from inv n ok True obtain m' where "load_segment P pd (update_cr3 pd) elf ph m = Some m'" "keeps P pd {} m m'"
      "n \<le> card (free_frames P m')" "segment_at P m pd elf ph m'"
      "\<And>vb. page_of vb \<noteq> page_of (p_vaddr m ph) \<Longrightarrow> walk m' (update_cr3 pd) vb = walk m (update_cr3 pd) vb"
      by (rule load_segment_done) blast
    with True s' show thesis by (intro that [of m' s']) (simp_all add: load_phdr_def loadable_def)
  next
    case False
    then have "load_phdr P pd (update_cr3 pd) elf ph (m, s) = Some (m, s')"
      using s'(1) by (auto simp: load_phdr_def loadable_def)
    with False s'(2) n show thesis by (intro that [of m s']) (simp_all add: keeps_refl [OF inv])
  qed
qed

lemma segment_at_earlier:
  assumes ok: "segment_ok P pd E m elf ph" and k: "keeps P pd E m t" and l: "loadable m ph"
    and at: "segment_at P t pd elf ph m'"
  shows "segment_at P m pd elf ph m'"
proof -
  note s = segment_ok_keeps [OF ok k]
  have "t (elf + p_offset m ph + j) = m (elf + p_offset m ph + j)" if "j < p_filesz m ph" for j
    using s(6) [OF l that] .
  with at keepsD(3) [OF k] show ?thesis unfolding segment_at_def s(3-5) by metis
qed

text \<open>The loop over the program headers.\<close>

lemma load_loop_done:
  fixes N :: u32
  assumes inv: "as_inv P m pd" and n: "n + 2 * unat N \<le> card (free_frames P m)" and fair: "fair (se_ports s)"
    and ok: "\<And>i. i < N \<Longrightarrow> segment_ok P pd E m elf (ph i)"
    and pages: "\<And>i j. i < N \<Longrightarrow> j < N \<Longrightarrow> i \<noteq> j \<Longrightarrow> loadable m (ph i) \<Longrightarrow> loadable m (ph j) \<Longrightarrow>
      page_of (p_vaddr m (ph i)) \<noteq> page_of (p_vaddr m (ph j))"
  obtains m' s' where
    "for_from 0 N (\<lambda>i r. case r of None \<Rightarrow> None | Some ms \<Rightarrow> load_phdr P pd (update_cr3 pd) elf (ph i) ms) (Some (m, s)) =
      Some (m', s')"
    "keeps P pd {} m m'" "n \<le> card (free_frames P m')" "fair (se_ports s')"
    "\<And>i. i < N \<Longrightarrow> loadable m (ph i) \<Longrightarrow> segment_at P m pd elf (ph i) m'"
    "\<And>vb. (\<And>i. i < N \<Longrightarrow> loadable m (ph i) \<Longrightarrow> page_of vb \<noteq> page_of (p_vaddr m (ph i))) \<Longrightarrow>
      walk m' (update_cr3 pd) vb = walk m (update_cr3 pd) vb"
proof -
  let ?f = "\<lambda>i r. case r of None \<Rightarrow> None | Some ms \<Rightarrow> load_phdr P pd (update_cr3 pd) elf (ph i) ms"
  define I where "I i r \<longleftrightarrow> (\<exists>t u. r = Some (t, u) \<and> keeps P pd {} m t \<and> fair (se_ports u) \<and>
      n + 2 * (unat N - unat i) \<le> card (free_frames P t) \<and>
      (\<forall>j < i. loadable m (ph j) \<longrightarrow> segment_at P m pd elf (ph j) t) \<and>
      (\<forall>vb. (\<forall>j < i. loadable m (ph j) \<longrightarrow> page_of vb \<noteq> page_of (p_vaddr m (ph j))) \<longrightarrow>
        walk t (update_cr3 pd) vb = walk m (update_cr3 pd) vb))" for i :: u32 and r :: "(memory \<times> serial) option"
  have "I N (for_from 0 N ?f (Some (m, s)))"
  proof (rule for_from_invariant0 [where P = I])
    show "I 0 (Some (m, s))" using keeps_refl [OF inv] fair n by (simp add: I_def)
    fix j r assume j: "j < N" and "I j r"
    then obtain t u where r: "r = Some (t, u)" and k: "keeps P pd {} m t" and u: "fair (se_ports u)"
      and c: "n + 2 * (unat N - unat j) \<le> card (free_frames P t)"
      and segs: "\<And>i. i < j \<Longrightarrow> loadable m (ph i) \<Longrightarrow> segment_at P m pd elf (ph i) t"
      and w: "\<And>vb. (\<And>i. i < j \<Longrightarrow> loadable m (ph i) \<Longrightarrow> page_of vb \<noteq> page_of (p_vaddr m (ph i))) \<Longrightarrow>
        walk t (update_cr3 pd) vb = walk m (update_cr3 pd) vb" unfolding I_def by blast
    have kE: "keeps P pd E m t" by (rule keeps_mono [OF k]) simp
    note same = segment_ok_keeps [OF ok [OF j] kE]
    have suc: "unat (j + 1) = Suc (unat j)" "\<And>i. i < j + 1 \<longleftrightarrow> i < j \<or> i = j"
      using j by (auto simp: unat_suc_less less_suc_split)
    have "(n + 2 * (unat N - unat (j + 1))) + 2 \<le> card (free_frames P t)"
      using c j by (simp add: suc word_less_nat_alt)
    from load_phdr_done [OF keepsD(1) [OF k] this same(1) u] obtain t' u' where
      t': "load_phdr P pd (update_cr3 pd) elf (ph j) (t, u) = Some (t', u')" "keeps P pd {} t t'"
      "n + 2 * (unat N - unat (j + 1)) \<le> card (free_frames P t')" "fair (se_ports u')"
      "loadable t (ph j) \<longrightarrow> segment_at P t pd elf (ph j) t'"
      "\<And>vb. loadable t (ph j) \<longrightarrow> page_of vb \<noteq> page_of (p_vaddr t (ph j)) \<Longrightarrow>
         walk t' (update_cr3 pd) vb = walk t (update_cr3 pd) vb" by blast
    have w': "walk t' (update_cr3 pd) vb = walk t (update_cr3 pd) vb"
      if "loadable m (ph j) \<Longrightarrow> page_of vb \<noteq> page_of (p_vaddr m (ph j))" for vb
      using that by (intro t'(6)) (simp add: same)
    have "segment_at P m pd elf (ph j) t'" if "loadable m (ph j)"
      using t'(5) segment_at_earlier [OF ok [OF j] kE that] that by (simp add: same)
    moreover have "segment_at P m pd elf (ph i) t'" if i: "i < j" "loadable m (ph i)" for i
    proof (rule segment_at_keeps [OF segs [OF i] t'(2)])
      have iN: "i < N" using i(1) j by (rule less_trans)
      show "unat (p_vaddr m (ph i) AND 0xFFF) + unat (p_filesz m (ph i)) \<le> 4096"
        using ok [OF iN] i(2) by (simp add: segment_ok_def)
      show "walk t' (update_cr3 pd) vb = walk t (update_cr3 pd) vb"
        if "page_of vb = page_of (p_vaddr m (ph i))" for vb
        using pages [OF iN j _ i(2)] i(1) that by (intro w') auto
    qed simp
    moreover have "walk t' (update_cr3 pd) vb = walk m (update_cr3 pd) vb"
      if "\<And>i. i < j + 1 \<Longrightarrow> loadable m (ph i) \<Longrightarrow> page_of vb \<noteq> page_of (p_vaddr m (ph i))" for vb
      using w' [of vb] w [of vb] that by (simp add: suc)
    ultimately show "I (j + 1) (?f j r)"
      using t'(1,3,4) keeps_trans [OF k t'(2)] unfolding I_def by (simp add: r suc(2)) blast
  qed
  with that show thesis unfolding I_def by auto
qed

lemma header_same:
  assumes "\<And>j. j < 52 \<Longrightarrow> m' (elf + j) = m (elf + j)"
  shows "e_entry m' elf = e_entry m elf" and "e_phoff m' elf = e_phoff m elf"
    and "e_phnum m' elf = e_phnum m elf" and "e_phentsize m' elf = e_phentsize m elf"
    and "phdr m' elf i = phdr m elf i"
proof -
  show "e_entry m' elf = e_entry m elf" and o: "e_phoff m' elf = e_phoff m elf"
    and "e_phnum m' elf = e_phnum m elf" and z: "e_phentsize m' elf = e_phentsize m elf"
    by (simp_all add: e_entry_def e_phoff_def e_phnum_def e_phentsize_def load32_def load16_def add.assoc assms)
  show "phdr m' elf i = phdr m elf i" by (simp add: phdr_def o z)
qed

text \<open>The magic number is compared with a copy on the stack, at \<open>sp\<close>.\<close>

definition magic_bytes :: "u32 \<Rightarrow> u32 set" where
  "magic_bytes sp = {x. in_block sp 4 x}"

lemma magic_keeps:
  assumes "as_inv P m pd" and "\<And>x. x \<in> magic_bytes sp \<Longrightarrow> kernel_data P m pd x"
  shows "keeps P pd (magic_bytes sp) m (store_magic sp m)"
proof (rule keeps_bytes [OF assms(1)])
  fix x assume "store_magic sp m x \<noteq> m x"
  then have "x = sp \<or> x = sp + 1 \<or> x = sp + 2 \<or> x = sp + 3" by (auto simp: store_magic_def split: if_splits)
  then have "x \<in> magic_bytes sp" by (auto simp: magic_bytes_def in_block_def)
  with assms(2) show "x \<in> magic_bytes sp \<and> kernel_data P m pd x" by blast
qed

lemma Elf32_load_done:
  fixes entry :: u32
  assumes inv: "as_inv P m pd" and stack: "\<And>x. x \<in> magic_bytes sp \<Longrightarrow> kernel_data P m pd x"
    and ok: "elf_ok P pd (magic_bytes sp) m elf" and good: "fst (verify_header sp elf m)"
    and n: "n + 2 * unat (e_phnum m elf) \<le> card (free_frames P m)" and fair: "fair (se_ports s)"
  obtains m' s' where "Elf32_load P pd (update_cr3 pd) sp elf (entry, m, s) = Some (e_entry m elf, m', s')"
    "keeps P pd (magic_bytes sp) m m'" "n \<le> card (free_frames P m')" "fair (se_ports s')"
    "\<And>i. i < ucast (e_phnum m elf) \<Longrightarrow> loadable m (phdr m elf i) \<Longrightarrow> segment_at P m pd elf (phdr m elf i) m'"
    "\<And>vb. (\<And>i. i < ucast (e_phnum m elf) \<Longrightarrow> loadable m (phdr m elf i) \<Longrightarrow>
        page_of vb \<noteq> page_of (p_vaddr m (phdr m elf i))) \<Longrightarrow>
      walk m' (update_cr3 pd) vb = walk m (update_cr3 pd) vb"
proof -
  let ?E = "magic_bytes sp" and ?N = "ucast (e_phnum m elf) :: u32"
  define m1 where "m1 = store_magic sp m"
  have k1: "keeps P pd ?E m m1" unfolding m1_def by (rule magic_keeps [OF inv stack])
  have hd: "m1 (elf + j) = m (elf + j)" if "j < 52" for j
    using ok that keepsD(5) [OF k1] by (simp add: elf_ok_def)
  note hs = header_same [where m' = m1 and m = m and elf = elf, OF hd]
  have seg: "segment_ok P pd ?E m elf (phdr m elf i)" if "i < ?N" for i
    using ok that by (simp add: elf_ok_def)
  note same = segment_ok_keeps [OF seg k1]
  have fr: "free_frames P m1 = free_frames P m"
  proof (rule free_frames_cong, rule frame_used_cong, rule ccontr)
    fix i x assume x: "in_bitmap (pmm_bm P) x" "m1 x \<noteq> m x"
    then have "x \<in> ?E" by (auto simp: m1_def store_magic_def magic_bytes_def in_block_def split: if_splits)
    with stack have "bitmap_apart P (page_of x)" by (auto simp: kernel_data_def)
    with x(1) show False by (auto simp: bitmap_apart_def)
  qed
  have N: "unat ?N = unat (e_phnum m elf)" by (simp add: unsigned_ucast_eq take_bit_nat_eq_self less_le_trans [OF unsigned_less])
  have ok1: "segment_ok P pd ?E m1 elf (phdr m elf i)" if "i < ?N" for i using same(1) [OF that] .
  have pages1: "page_of (p_vaddr m1 (phdr m elf i)) \<noteq> page_of (p_vaddr m1 (phdr m elf j))"
    if "i < ?N" "j < ?N" "i \<noteq> j" "loadable m1 (phdr m elf i)" "loadable m1 (phdr m elf j)" for i j
    using ok that by (simp add: same elf_ok_def)
  have "n + 2 * unat ?N \<le> card (free_frames P m1)" using n by (simp add: fr N)
  from load_loop_done [where ph = "phdr m elf", OF keepsD(1) [OF k1] this fair ok1 pages1] obtain m' s' where
    l: "for_from 0 ?N (\<lambda>i r. case r of None \<Rightarrow> None | Some ms \<Rightarrow> load_phdr P pd (update_cr3 pd) elf (phdr m elf i) ms)
        (Some (m1, s)) = Some (m', s')"
      "keeps P pd {} m1 m'" "n \<le> card (free_frames P m')" "fair (se_ports s')"
      "\<And>i. i < ?N \<Longrightarrow> loadable m1 (phdr m elf i) \<Longrightarrow> segment_at P m1 pd elf (phdr m elf i) m'"
      "\<And>vb. (\<And>i. i < ?N \<Longrightarrow> loadable m1 (phdr m elf i) \<Longrightarrow> page_of vb \<noteq> page_of (p_vaddr m1 (phdr m elf i))) \<Longrightarrow>
        walk m' (update_cr3 pd) vb = walk m1 (update_cr3 pd) vb" by blast
  have k: "keeps P pd ?E m m'" by (rule keeps_trans [OF k1 keeps_mono [OF l(2)]]) simp
  have hd': "m' (elf + j) = m (elf + j)" if "j < 52" for j
    using ok that keepsD(5) [OF k] by (simp add: elf_ok_def)
  have "verify_header sp elf m = (True, m1)" using good by (simp add: verify_header_def Let_def m1_def)
  then have load: "Elf32_load P pd (update_cr3 pd) sp elf (entry, m, s) = Some (e_entry m elf, m', s')"
    using l(1) [unfolded phdr_def] header_same(1) [where m' = m' and m = m and elf = elf, OF hd'] by (simp add: Elf32_load_def Let_def hs)
  have segs: "segment_at P m pd elf (phdr m elf i) m'" if "i < ?N" "loadable m (phdr m elf i)" for i
    using l(5) [OF that(1)] that segment_at_earlier [OF seg [OF that(1)] k1 that(2)] same(2) [OF that(1)] by simp
  have walks: "walk m' (update_cr3 pd) vb = walk m (update_cr3 pd) vb"
    if "\<And>i. i < ?N \<Longrightarrow> loadable m (phdr m elf i) \<Longrightarrow> page_of vb \<noteq> page_of (p_vaddr m (phdr m elf i))" for vb
  proof -
    have "walk m' (update_cr3 pd) vb = walk m1 (update_cr3 pd) vb" using that by (intro l(6)) (simp add: same)
    also have "\<dots> = walk m (update_cr3 pd) vb"
    proof (rule walk_cong)
      show "pd_wf m pd" using inv by (simp add: as_inv_def)
      have far: "m1 x = m x" if "\<not> kernel_data P m pd x" for x
        using stack [of x] that by (auto simp: m1_def store_magic_def magic_bytes_def in_block_def)
      show "m1 x = m x" if "page_of x = pd" for x
        using that by (intro far) (auto simp: kernel_data_def outside_pd_def)
      show "m1 x = m x" if "i < 1024" "present (pde m pd i)" "page_of x = table_of (pde m pd i)" for x i
        using that by (intro far) (auto simp: kernel_data_def outside_pd_def)
    qed
    finally show ?thesis .
  qed
  show thesis by (rule that [OF load k l(3,4) segs walks])
qed

end
