(* ===== verification/World.thy ===== *)
theory World
  imports Process Program
begin

text \<open>
  The heap and the address spaces side by side: what \<open>process_space\<close> leaves of the kernel's memory, the
  heap as part of the kernel's data (\<open>kernel_inv\<close>), the path from the kernel's address space to a
  loaded program, and the process objects as live blocks of the heap (\<open>world\<close>).
\<close>

section \<open>The new address space\<close>

text \<open>What is new in \<open>pd\<close> compared with \<open>kpd\<close>, the directory itself included, lies on frames nobody owned.\<close>

definition fresh_space :: "pmm \<Rightarrow> memory \<Rightarrow> u32 \<Rightarrow> memory \<Rightarrow> u32 \<Rightarrow> bool" where
  "fresh_space P m kpd m' pd \<longleftrightarrow> \<not> owned P m pd \<and>
     (\<forall>j < 1024. present (pde m' pd j) \<longrightarrow> pde m' pd j = pde m kpd j \<or> \<not> owned P m (table_of (pde m' pd j)))"

lemma fresh_space_keeps:
  assumes f: "fresh_space P m kpd m1 pd" and k: "keeps P pd E m1 m2" and own: "\<And>q. owned P m q \<Longrightarrow> owned P m1 q"
  shows "fresh_space P m kpd m2 pd"
proof -
  have "pde m2 pd j = pde m kpd j \<or> \<not> owned P m (table_of (pde m2 pd j))" if "j < 1024" "present (pde m2 pd j)" for j
    using keepsD(6) [OF k that] f own that by (auto simp: fresh_space_def)
  with f show ?thesis by (simp add: fresh_space_def)
qed

lemma process_space_done:
  assumes inv: "as_inv P m kpd" and abs: "\<not> present (pde m kpd (pd_index 0xBFFF0000))"
    and free: "n + 4 \<le> card (free_frames P m)" and ps: "process_space P kpd m = (pd, stack_ptr, kernel_ptr, m')"
  shows "as_inv P m' kpd" and "n \<le> card (free_frames P m')" and "frame_used P i m \<Longrightarrow> frame_used P i m'"
    and "same_data P {} kpd m pd m'" and "same_data P {} kpd m kpd m'"
    and "page_of x = kpd \<Longrightarrow> kernel_data P m' pd x" and "page_of x = kpd \<Longrightarrow> m' x = m x"
    and "fresh_space P m kpd m' pd"
proof -
  define m1 where "m1 = snd (Page_copy P kpd m)"
  define m2 where "m2 = snd (allocate_frame P m1)"
  define m3 where "m3 = snd (allocate_frame P m2)"
  define m4 where "m4 = map_page P pd stack_ptr 0xBFFF0000 7 m3"
  have r: "pd = fst (Page_copy P kpd m)" "m' = map_page P pd (stack_ptr + 0x1000) 0xBFFF1000 7 m4"
    using ps by (auto simp: process_space_def split_beta Let_def m1_def m2_def m3_def m4_def)
  have fa: "fa_inv (P, t)" for t using inv by (simp add: as_inv_def fa_inv_def)
  have n0: "fst (allocate_frame P m) \<noteq> 0" "n + 3 \<le> card (free_frames P (snd (allocate_frame P m)))"
    using alloc_free_frames [OF fa, of "n + 3" m] free by simp_all
  then have c1: "Suc (n + 2) \<le> card (free_frames P m1)" using Page_copy_free_frames [OF inv n0(1)] by (simp add: m1_def)
  have c2: "Suc (n + 1) \<le> card (free_frames P m2)" using alloc_free_frames(2) [OF fa c1] by (simp add: m2_def)
  have c3: "Suc n \<le> card (free_frames P m3)" using alloc_free_frames(2) [OF fa c2] by (simp add: m3_def)
  note pc = Page_copy_as_inv [OF inv n0(1), folded m1_def r(1)]
  have k2: "keeps P pd {} m1 m2" unfolding m2_def by (rule keeps_alloc [OF pc(2)])
  have k3: "keeps P pd {} m1 m3"
    using k2 keeps_alloc [OF keepsD(1) [OF k2], of "{}", folded m3_def] by (rule keeps_trans)
  note inv3 = keepsD(1) [OF k3]
  note mf = map_page_free_frames(1) [OF inv3 c3, where pa = stack_ptr and flags = 7 and va = "0xBFFF0000", folded m4_def]
    map_page_free_frames(2) [OF inv3 c3, where va = "0xBFFF0000"]
  have k4: "keeps P pd {} m1 m4"
    using k3 keeps_map_page [OF inv3 mf(2), of "{}" stack_ptr 7, folded m4_def] by (rule keeps_trans)
  note inv4 = keepsD(1) [OF k4]
  have abs3: "\<not> present (pde m3 pd (pd_index 0xBFFF0000))"
  proof -
    have ap: "bitmap_apart P pd" "page_aligned pd" using pc(2) by (simp_all add: as_inv_def tables_apart_def pd_wf_def)
    then have "pde m3 pd j = pde m1 pd j" if "j < 1024" for j
      unfolding pde_def m3_def m2_def using that
      by (intro load32_entry_cong) (simp_all add: allocate_frame_page)
    with abs pc(4) show ?thesis by simp
  qed
  have pr4: "present (pde m4 pd (pd_index 0xBFFF1000))"
    using map_page_new_table(1) [OF inv3 abs3, where pa = stack_ptr and flags = 7, folded m4_def] mf(2) abs3
    by (simp add: stack_indices)
  have room4: "present (pde m4 pd (pd_index 0xBFFF1000)) \<or> fst (allocate_frame P m4) \<noteq> 0" using pr4 by simp
  have k5: "keeps P pd {} m1 m'"
    unfolding r(2) using k4 keeps_map_page [OF inv4 room4] by (rule keeps_trans)
  have "free_frames P m' = free_frames P m4"
    unfolding r(2) by (rule free_frames_cong) (simp add: map_page_used [OF inv4 room4] pr4)
  with mf(1) show "n \<le> card (free_frames P m')" by simp
  have used1: "frame_used P i m \<Longrightarrow> frame_used P i m1" for i
    using allocate_frame_used [OF fa] Page_copy_used [OF inv n0(1)] by (simp add: m1_def)
  then show "frame_used P i m \<Longrightarrow> frame_used P i m'" for i using keepsD(2) [OF k5] by blast
  have "fresh_space P m kpd m1 pd" using pc(4,6) by (auto simp: fresh_space_def)
  then show "fresh_space P m kpd m' pd" using k5 by (rule fresh_space_keeps) (use pc(6) in blast)
  have d1: "kernel_data P m1 pd x \<and> m1 x = m x" if x: "kernel_data P m kpd x" for x
  proof -
    have "page_of x \<noteq> pd" using pc(6) x by (auto simp: kernel_data_def)
    moreover have "bitmap_apart P (page_of x)" using x by (simp add: kernel_data_def)
    ultimately have "m1 x = m x" using Page_copy_outside [OF inv n0(1)] by (simp add: m1_def r(1))
    moreover have "outside_pd m1 pd (page_of x)"
      using x \<open>page_of x \<noteq> pd\<close> pc(4) by (auto simp: kernel_data_def outside_pd_def)
    ultimately show ?thesis using x pc(6) by (auto simp: kernel_data_def)
  qed
  with keepsD(4,5) [OF k5] have same: "kernel_data P m' pd x" "m' x = m x" if "kernel_data P m kpd x" for x
    using that by auto
  then show "same_data P {} kpd m pd m'" by (simp add: same_data_def)
  have kd: "kernel_data P m1 pd x" if "page_of x = kpd" for x
  proof -
    have "outside_pd m kpd pd" using pc(3,6) inv by (auto simp: outside_pd_def as_inv_def)
    then have "outside_pd m1 pd kpd" using inv pc(3,4) by (auto simp: outside_pd_def as_inv_def pd_wf_def)
    then show ?thesis using inv pc(6) that by (auto simp: kernel_data_def as_inv_def tables_apart_def)
  qed
  then show "page_of x = kpd \<Longrightarrow> kernel_data P m' pd x" for x using keepsD(4) [OF k5] by blast
  have dir: "m' x = m1 x" if "page_of x = kpd" for x using keepsD(5) [OF k5 kd [OF that]] by simp
  show "as_inv P m' kpd" by (rule as_inv_cong(1) [OF pc(1) dir keepsD(2) [OF k5]])
  have "m1 x = m x" if x: "page_of x = kpd" for x
  proof -
    have "bitmap_apart P (page_of x)" "page_of x \<noteq> pd" using kd [OF x] by (auto simp: kernel_data_def outside_pd_def)
    then show ?thesis using Page_copy_outside [OF inv n0(1)] by (simp add: m1_def r(1))
  qed
  with dir show "page_of x = kpd \<Longrightarrow> m' x = m x" for x by simp
  have "kernel_data P m' kpd x" if x: "kernel_data P m kpd x" for x
  proof (rule kernel_data_cong [OF pc(1) dir keepsD(2) [OF k5]])
    show "kernel_data P m1 kpd x" using x pc(5,6) by (auto simp: kernel_data_def outside_pd_def)
  qed
  with same show "same_data P {} kpd m kpd m'" by (simp add: same_data_def)
qed

section \<open>The heap among the kernel's data\<close>

text \<open>The heap and the current address space side by side, on different frames.\<close>

definition kernel_inv :: "pmm \<Rightarrow> heap \<Rightarrow> u32 list \<Rightarrow> u32 \<Rightarrow> bool" where
  "kernel_inv P h bs pd \<longleftrightarrow> heap_inv P h bs \<and> as_inv P (hp_mem h) pd \<and> (\<forall>b \<in> set bs. outside_pd (hp_mem h) pd b)"

lemma bucket_data: "kernel_inv P h bs pd \<Longrightarrow> page_of x \<in> set bs \<Longrightarrow> kernel_data P (hp_mem h) pd x"
  by (auto simp: kernel_inv_def heap_inv_def kernel_data_def)

lemma heap_keeps:
  assumes inv: "kernel_inv P h bs pd" and as: "as_inv P m' pd'" and d: "same_data P E pd (hp_mem h) pd' m'"
    and used: "\<And>i. frame_used P i (hp_mem h) \<Longrightarrow> frame_used P i m'" and E: "\<And>x. x \<in> E \<Longrightarrow> page_of x \<notin> set bs"
  shows "kernel_inv P (h\<lparr>hp_mem := m'\<rparr>) bs pd'" and "live m' bs = live (hp_mem h) bs"
    and "b \<in> set bs \<Longrightarrow> b_power_size m' b = b_power_size (hp_mem h) b"
    and "page_of x \<in> set bs \<Longrightarrow> m' x = hp_mem h x"
proof -
  let ?m = "hp_mem h"
  from inv have hi: "heap_inv P h bs" by (simp add: kernel_inv_def)
  have same: "m' x = ?m x" if "page_of x \<in> set bs" for x
    using bucket_data [OF inv that] d E that by (auto simp: same_data_def)
  then show "page_of x \<in> set bs \<Longrightarrow> m' x = ?m x" .
  have ok: "bucket_ok ?m b" if "b \<in> set bs" for b using hi that by (simp add: heap_inv_def)
  have meta: "agree_meta b ?m m'" if "b \<in> set bs" for b
    using ok [OF that] same that by (intro agree_meta_page) (auto simp: bucket_ok_def)
  note head = agree_meta_header [OF ok meta]
  show pw: "b_power_size m' b = b_power_size ?m b" if "b \<in> set bs" for b
    using header_fields(2) [OF head] that by blast
  have "chain m' (hp_buckets h) bs"
    using hi chain_cong [of bs m' ?m "hp_buckets h"] header_fields(1) [OF head] by (simp add: heap_inv_def)
  moreover have "bucket_ok m' b" if "b \<in> set bs" for b using ok that bucket_ok_cong [OF head] by blast
  moreover have "owned P m' b" if "b \<in> set bs" for b
    using hi that owned_mono [OF _ used] by (auto simp: heap_inv_def)
  moreover have "outside_pd m' pd' b" if "b \<in> set bs" for b
  proof -
    have "page_of b = b" using ok [OF that] by (simp add: bucket_ok_def page_aligned_def)
    with bucket_data [OF inv, of b] that d have "kernel_data P m' pd' b" by (auto simp: same_data_def)
    with \<open>page_of b = b\<close> show ?thesis by (simp add: kernel_data_def)
  qed
  ultimately show "kernel_inv P (h\<lparr>hp_mem := m'\<rparr>) bs pd'"
    using hi as by (auto simp: kernel_inv_def heap_inv_def as_inv_def)
  show "live m' bs = live ?m bs" using slot_live_cong [OF ok meta] by (auto simp: live_def)
qed

lemma kernel_inv_keeps:
  assumes "kernel_inv P h bs pd" "keeps P pd E (hp_mem h) m'" "\<And>x. x \<in> E \<Longrightarrow> page_of x \<notin> set bs"
  shows "kernel_inv P (h\<lparr>hp_mem := m'\<rparr>) bs pd"
  by (rule heap_keeps(1) [OF assms(1) keepsD(1) [OF assms(2)] keeps_same_data [OF assms(2)] keepsD(2) [OF assms(2)] assms(3)])

text \<open>The heap, in turn, only writes to its own buckets: what \<open>malloc\<close> leaves of everything else.\<close>

lemma heap_grows_keeps:
  assumes inv: "kernel_inv P h bs pd" and g: "heap_grows P (hp_mem h) bs m' bs'"
  shows "keeps P pd {x. page_of x \<in> set bs} (hp_mem h) m'" and "c \<in> set bs' \<Longrightarrow> outside_pd m' pd c"
    and "walk m' (update_cr3 pd) va = walk (hp_mem h) (update_cr3 pd) va"
proof -
  let ?m = "hp_mem h"
  from inv have as: "as_inv P ?m pd" and out: "\<And>b. b \<in> set bs \<Longrightarrow> outside_pd ?m pd b" by (simp_all add: kernel_inv_def)
  from g have used: "\<And>i. frame_used P i ?m \<Longrightarrow> frame_used P i m'"
    and bytes: "\<And>x. page_of x \<notin> set bs' \<Longrightarrow> bitmap_apart P (page_of x) \<Longrightarrow> m' x = ?m x"
    and fresh: "\<And>c. c \<in> set bs' \<Longrightarrow> c \<notin> set bs \<Longrightarrow> \<not> owned P ?m c" by (auto simp: heap_grows_def)
  have tab: "m' x = ?m x" if "owned P ?m (page_of x)" "bitmap_apart P (page_of x)" "page_of x \<notin> set bs" for x
    using that fresh by (intro bytes) auto
  have pd: "pd \<notin> set bs" using out by (auto simp: outside_pd_def)
  then have dir: "m' x = ?m x" if "page_of x = pd" for x
    using as that by (intro tab) (auto simp: as_inv_def tables_apart_def)
  note cong = as_inv_cong [OF as dir used]
  show "outside_pd m' pd c" if "c \<in> set bs'"
  proof (cases "c \<in> set bs")
    case False
    with that as fresh have "outside_pd ?m pd c" by (auto simp: outside_pd_def as_inv_def)
    with cong(2) show ?thesis by simp
  qed (use out cong(2) in simp)
  show "keeps P pd {x. page_of x \<in> set bs} ?m m'"
    by (rule keeps_local [OF as dir used]) (use tab in \<open>auto simp: kernel_data_def\<close>)
  show "walk m' (update_cr3 pd) va = walk ?m (update_cr3 pd) va"
  proof (rule walk_cong [OF _ dir])
    show "pd_wf ?m pd" using as by (simp add: as_inv_def)
    show "m' x = ?m x" if "i < 1024" "present (pde ?m pd i)" "page_of x = table_of (pde ?m pd i)" for x i
      using that as out by (intro tab) (auto simp: as_inv_def tables_apart_def outside_pd_def)
  qed
qed

lemma kmalloc_kernel_inv:
  assumes inv: "kernel_inv P h bs pd" and post: "malloc_post P sz h bs ptr h' bs' b i"
  shows "kernel_inv P h' bs' pd" and "keeps P pd {x. page_of x \<in> set bs} (hp_mem h) (hp_mem h')"
    and "walk (hp_mem h') (update_cr3 pd) va = walk (hp_mem h) (update_cr3 pd) va"
    and "c \<in> set bs' \<Longrightarrow> owned P (hp_mem h) c \<Longrightarrow> c \<in> set bs"
    and "page_of x = pd \<Longrightarrow> hp_mem h' x = hp_mem h x"
proof -
  from post have g: "heap_grows P (hp_mem h) bs (hp_mem h') bs'" and hi: "heap_inv P h' bs'"
    by (simp_all add: malloc_post_def)
  note hg = heap_grows_keeps [OF inv g]
  show "keeps P pd {x. page_of x \<in> set bs} (hp_mem h) (hp_mem h')" by (rule hg(1))
  then show "kernel_inv P h' bs' pd" using hi hg(2) by (simp add: kernel_inv_def keepsD(1))
  show "walk (hp_mem h') (update_cr3 pd) va = walk (hp_mem h) (update_cr3 pd) va" by (rule hg(3))
  show own: "c \<in> set bs' \<Longrightarrow> owned P (hp_mem h) c \<Longrightarrow> c \<in> set bs" for c using g by (auto simp: heap_grows_def)
  have as: "owned P (hp_mem h) pd" "bitmap_apart P pd" "pd \<notin> set bs"
    using inv by (auto simp: kernel_inv_def as_inv_def tables_apart_def outside_pd_def)
  then have "pd \<notin> set bs'" using own by blast
  with g as(2) show "page_of x = pd \<Longrightarrow> hp_mem h' x = hp_mem h x" by (auto simp: heap_grows_def)
qed

text \<open>Writes inside one slot.\<close>

lemma slot_write_kernel_inv:
  assumes inv: "kernel_inv P h bs pd" and l: "(b, i) \<in> live (hp_mem h) bs"
    and same: "\<And>x. \<not> in_slot (hp_mem h) b i x \<Longrightarrow> m' x = hp_mem h x"
  shows "kernel_inv P (h\<lparr>hp_mem := m'\<rparr>) bs pd" and "live m' bs = live (hp_mem h) bs"
    and "c \<in> set bs \<Longrightarrow> b_power_size m' c = b_power_size (hp_mem h) c"
    and "walk m' (update_cr3 pd) va = walk (hp_mem h) (update_cr3 pd) va"
proof -
  from inv have hi: "heap_inv P h bs" by (simp add: kernel_inv_def)
  from live_slot [OF hi l] have s: "b \<in> set bs" "bucket_ok (hp_mem h) b" "i < bm_bytes (b_power_size (hp_mem h) b)" by auto
  note sw = slot_write_meta [OF hi s(1,3) same]
  have other: "m' x = hp_mem h x" if "page_of x \<noteq> b" for x
    using same [of x] in_slot_offset(1) [OF s(2,3), of x] that by auto
  have out: "outside_pd (hp_mem h) pd b" and as: "as_inv P (hp_mem h) pd" using inv s(1) by (simp_all add: kernel_inv_def)
  have ap: "bitmap_apart P b" using hi s(1) by (simp add: heap_inv_def)
  note wo = write_outside_as_inv [OF as out ap other]
  have "outside_pd m' pd c = outside_pd (hp_mem h) pd c" for c by (simp add: outside_pd_def wo(3))
  then show "kernel_inv P (h\<lparr>hp_mem := m'\<rparr>) bs pd" using inv sw(1) wo(1) by (simp add: kernel_inv_def)
  show "live m' bs = live (hp_mem h) bs" by (rule sw(2))
  show "c \<in> set bs \<Longrightarrow> b_power_size m' c = b_power_size (hp_mem h) c" by (rule sw(3))
  show "walk m' (update_cr3 pd) va = walk (hp_mem h) (update_cr3 pd) va"
    using as out other by (intro walk_outside) (auto simp: as_inv_def)
qed

section \<open>A program in its address space\<close>

lemma same_data_trans:
  "same_data P E pd m pd1 m1 \<Longrightarrow> same_data P E pd1 m1 pd2 m2 \<Longrightarrow> same_data P E pd m pd2 m2"
  unfolding same_data_def by metis

lemma same_data_mono: "same_data P E pd m pd' m' \<Longrightarrow> E \<subseteq> F \<Longrightarrow> same_data P F pd m pd' m'"
  by (auto simp: same_data_def)

lemma elf_ok_same:
  assumes ok: "elf_ok P pd E m elf" and d: "same_data P E pd m pd' m'"
  shows "elf_ok P pd' E m' elf" and "e_entry m' elf = e_entry m elf" and "e_phnum m' elf = e_phnum m elf"
    and "phdr m' elf i = phdr m elf i" and "j < 52 \<Longrightarrow> m' (elf + j) = m (elf + j)"
proof -
  show hd: "m' (elf + j) = m (elf + j)" if "j < 52" for j
    using ok d that by (simp add: elf_ok_def same_data_def)
  note hs = header_same [where m' = m' and m = m and elf = elf, OF hd]
  show "e_entry m' elf = e_entry m elf" "e_phnum m' elf = e_phnum m elf" "phdr m' elf i = phdr m elf i" for i by (simp_all add: hs)
  have seg: "segment_ok P pd E m elf (phdr m elf i)" if "i < ucast (e_phnum m elf)" for i using ok that by (simp add: elf_ok_def)
  note so = segment_ok_same [OF seg d]
  show "elf_ok P pd' E m' elf" using ok d by (simp add: elf_ok_def hs so) (simp add: same_data_def)
qed

text \<open>The first four bytes of a file that is accepted.\<close>

definition elf_magic :: "memory \<Rightarrow> u32 \<Rightarrow> bool" where
  "elf_magic m elf \<longleftrightarrow> m elf = 0x7F \<and> m (elf + 1) = 0x45 \<and> m (elf + 2) = 0x4C \<and> m (elf + 3) = 0x46"

lemma verify_header_good:
  assumes "elf_ok P pd (magic_bytes sp) m elf" "elf_magic m elf"
  shows "fst (verify_header sp elf m)"
proof (subst verify_header_iff)
  show "\<not> in_block sp 4 (elf + k)" if "k < 4" for k
  proof -
    have "k < 52" using that by (auto elim: less_trans)
    with assms(1) show ?thesis by (simp add: elf_ok_def magic_bytes_def)
  qed
qed (use assms(2) in \<open>simp add: elf_magic_def\<close>)

lemma segment_at_same_data:
  assumes ok: "segment_ok P pd0 E m elf ph" and d: "same_data P E pd0 m pd1 t" and l: "loadable m ph"
    and own: "\<And>q. owned P m q \<Longrightarrow> owned P t q" and at: "segment_at P t pd elf ph m'"
  shows "segment_at P m pd elf ph m'"
proof -
  note s = segment_ok_same [OF ok d]
  have "t (elf + p_offset m ph + j) = m (elf + p_offset m ph + j)" if "j < p_filesz m ph" for j
    using s(6) [OF l that] .
  with at own show ?thesis unfolding segment_at_def s(3-5) by metis
qed

text \<open>From the kernel's address space to the loaded program.\<close>

lemma program_loaded:
  fixes entry :: u32
  assumes inv: "kernel_inv P h bs kpd" and abs: "\<not> present (pde (hp_mem h) kpd (pd_index 0xBFFF0000))"
    and n: "n + 4 + 2 * unat (e_phnum (hp_mem h) elf) \<le> card (free_frames P (hp_mem h))"
    and ps: "process_space P kpd (hp_mem h) = (pd, stack_ptr, kernel_ptr, m5)"
    and stack: "\<And>x. x \<in> magic_bytes sp \<Longrightarrow> kernel_data P (hp_mem h) kpd x \<and> page_of x \<notin> set bs"
    and ok: "elf_ok P kpd (magic_bytes sp) (hp_mem h) elf" and good: "elf_magic (hp_mem h) elf"
    and fair: "fair (se_ports s)"
  obtains m6 s' where "Elf32_load P pd (update_cr3 pd) sp elf (entry, m5, s) = Some (e_entry (hp_mem h) elf, m6, s')"
    "fair (se_ports s')" "n \<le> card (free_frames P m6)"
    "kernel_inv P (h\<lparr>hp_mem := m6\<rparr>) bs kpd" "kernel_inv P (h\<lparr>hp_mem := m6\<rparr>) bs pd"
    "same_data P (magic_bytes sp) kpd (hp_mem h) kpd m6" "\<And>i. frame_used P i (hp_mem h) \<Longrightarrow> frame_used P i m6"
    "\<And>x. page_of x = kpd \<Longrightarrow> m6 x = hp_mem h x" "fresh_space P (hp_mem h) kpd m6 pd"
    "live m6 bs = live (hp_mem h) bs" "\<And>b. b \<in> set bs \<Longrightarrow> b_power_size m6 b = b_power_size (hp_mem h) b"
    "\<And>x. page_of x \<in> set bs \<Longrightarrow> m6 x = hp_mem h x"
    "\<And>i. i < ucast (e_phnum (hp_mem h) elf) \<Longrightarrow> loadable (hp_mem h) (phdr (hp_mem h) elf i) \<Longrightarrow>
       segment_at P (hp_mem h) pd elf (phdr (hp_mem h) elf i) m6"
    "\<And>va. (\<And>i. i < ucast (e_phnum (hp_mem h) elf) \<Longrightarrow> loadable (hp_mem h) (phdr (hp_mem h) elf i) \<Longrightarrow>
         page_of va \<noteq> page_of (p_vaddr (hp_mem h) (phdr (hp_mem h) elf i))) \<Longrightarrow>
       walk m6 (update_cr3 pd) va = walk m5 (update_cr3 pd) va"
proof -
  let ?m = "hp_mem h" and ?E = "magic_bytes sp"
  have as: "as_inv P ?m kpd" using inv by (simp add: kernel_inv_def)
  have n': "(n + 2 * unat (e_phnum ?m elf)) + 4 \<le> card (free_frames P ?m)" using n by simp
  note sd = process_space_done [OF as abs n' ps]
  have free4: "4 \<le> card (free_frames P ?m)" using n by simp
  note pd = process_space_walk(1) [OF as abs free4 ps]
  have d5: "same_data P ?E kpd ?m pd m5" "same_data P ?E kpd ?m kpd m5"
    using sd(4,5) by (auto intro: same_data_mono)
  note es = elf_ok_same [OF ok d5(1)]
  have good5: "elf_magic m5 elf" using good es(5) [of 0] es(5) [of 1] es(5) [of 2] es(5) [of 3] by (simp add: elf_magic_def)
  have stack5: "kernel_data P m5 pd x" if "x \<in> ?E" for x using stack [OF that] d5(1) by (simp add: same_data_def)
  have n5: "n + 2 * unat (e_phnum m5 elf) \<le> card (free_frames P m5)" using sd(2) by (simp add: es(3))
  obtain m6 s' where
    l: "Elf32_load P pd (update_cr3 pd) sp elf (entry, m5, s) = Some (e_entry m5 elf, m6, s')"
      "keeps P pd ?E m5 m6" "n \<le> card (free_frames P m6)" "fair (se_ports s')"
      "\<And>i. i < ucast (e_phnum m5 elf) \<Longrightarrow> loadable m5 (phdr m5 elf i) \<Longrightarrow> segment_at P m5 pd elf (phdr m5 elf i) m6"
      "\<And>vb. (\<And>i. i < ucast (e_phnum m5 elf) \<Longrightarrow> loadable m5 (phdr m5 elf i) \<Longrightarrow>
          page_of vb \<noteq> page_of (p_vaddr m5 (phdr m5 elf i))) \<Longrightarrow> walk m6 (update_cr3 pd) vb = walk m5 (update_cr3 pd) vb"
    by (rule Elf32_load_done [OF pd stack5 es(1) verify_header_good [OF es(1) good5] n5 fair]) blast+
  have used: "frame_used P i ?m \<Longrightarrow> frame_used P i m6" for i using sd(3) keepsD(2) [OF l(2)] by blast
  have dir: "m6 x = m5 x" if "page_of x = kpd" for x
  proof -
    have "x \<notin> ?E" using stack that by (auto simp: kernel_data_def outside_pd_def)
    with keepsD(5) [OF l(2) sd(6) [OF that]] show ?thesis by simp
  qed
  have as6: "as_inv P m6 kpd" by (rule as_inv_cong(1) [OF sd(1) dir keepsD(2) [OF l(2)]])
  have d6: "same_data P ?E kpd ?m pd m6"
    using d5(1) keeps_same_data [OF l(2)] by (rule same_data_trans)
  have k6: "same_data P ?E kpd ?m kpd m6"
    unfolding same_data_def
  proof (intro allI impI)
    fix x assume x: "kernel_data P ?m kpd x"
    then have "kernel_data P m5 kpd x" using d5(2) by (simp add: same_data_def)
    then have "kernel_data P m6 kpd x" using kernel_data_cong [OF sd(1) dir keepsD(2) [OF l(2)]] by blast
    with x d6 show "kernel_data P m6 kpd x \<and> (x \<notin> ?E \<longrightarrow> m6 x = ?m x)" by (simp add: same_data_def)
  qed
  note hk = heap_keeps [OF inv as6 k6 used] and hp = heap_keeps(1) [OF inv keepsD(1) [OF l(2)] d6 used]
  have E: "\<And>x. x \<in> ?E \<Longrightarrow> page_of x \<notin> set bs" using stack by blast
  have seg: "segment_ok P kpd ?E ?m elf (phdr ?m elf i)" if "i < ucast (e_phnum ?m elf)" for i
    using ok that by (simp add: elf_ok_def)
  note so = segment_ok_same [OF seg d5(1)]
  have own: "owned P ?m q \<Longrightarrow> owned P m5 q" for q using owned_mono [OF _ sd(3)] .
  show thesis
  proof (rule that [of m6 s'])
    show "Elf32_load P pd (update_cr3 pd) sp elf (entry, m5, s) = Some (e_entry ?m elf, m6, s')" using l(1) by (simp add: es(2))
    show "segment_at P ?m pd elf (phdr ?m elf i) m6" if "i < ucast (e_phnum ?m elf)" "loadable ?m (phdr ?m elf i)" for i
      using that l(5) [of i] so(2) [OF that(1)]
      by (intro segment_at_same_data [OF seg [OF that(1)] d5(1) that(2) own]) (simp_all add: es)
    show "walk m6 (update_cr3 pd) va = walk m5 (update_cr3 pd) va"
      if "\<And>i. i < ucast (e_phnum ?m elf) \<Longrightarrow> loadable ?m (phdr ?m elf i) \<Longrightarrow> page_of va \<noteq> page_of (p_vaddr ?m (phdr ?m elf i))" for va
      using that by (intro l(6)) (simp add: es so)
    show "fresh_space P ?m kpd m6 pd" by (rule fresh_space_keeps [OF sd(8) l(2) own])
    show "m6 x = ?m x" if "page_of x = kpd" for x using dir [OF that] sd(7) [OF that] by simp
  qed (use l(3,4) hk hp E k6 used in blast)+
qed

section \<open>The object of a process\<close>

definition new_process :: "u32 \<Rightarrow> u32 \<Rightarrow> u32 \<Rightarrow> u32 \<Rightarrow> memory \<Rightarrow> memory" where
  "new_process p pd entry_point kstack m =
     store32 (p + PR_KSTACK) kstack (store32 p pd (init_regs p entry_point (memset p 0 SIZEOF_PROCESS m)))"

lemma field_outside:
  assumes "\<not> in_block p SIZEOF_PROCESS x" "k \<le> 68"
  shows "4 \<le> x - (p + k)"
proof -
  define d where "d = x - p"
  have d: "72 \<le> d" using assms(1) by (simp add: d_def in_block_def SIZEOF_PROCESS_def)
  have "x - (p + k) = d - k" by (simp add: d_def)
  moreover have "4 \<le> d - k" using d assms(2) by (simp add: word_le_nat_alt unat_sub_if')
  ultimately show ?thesis by (simp only:)
qed

lemma new_process_outside: "\<not> in_block p SIZEOF_PROCESS x \<Longrightarrow> new_process p pd e k m x = m x"
  using field_outside [of p x 0]
  by (simp add: new_process_def init_regs_def store32_other field_outside memset_apply add.assoc PR_KSTACK_def PR_REGS_def
      ST_EIP_def ST_CS_def ST_USER_SS_def ST_USER_ESP_def ST_EBP_def ST_EFLAGS_def)

lemma new_process_fields:
  "starts_at (new_process p pd e k m) p e" "load32 (new_process p pd e k m) p = pd"
  "load32 (new_process p pd e k m) (p + PR_NEXT) = 0"
proof -
  show "starts_at (new_process p pd e k m) p e" "load32 (new_process p pd e k m) p = pd"
    by (simp_all add: new_process_def init_regs_starts)
  have "load32 (memset p 0 SIZEOF_PROCESS m) (p + PR_NEXT) = 0"
    by (simp add: load32_def memset_apply in_block_def SIZEOF_PROCESS_def PR_NEXT_def add.assoc)
  then show "load32 (new_process p pd e k m) (p + PR_NEXT) = 0"
    by (simp add: new_process_def init_regs_def load_store32_other add.assoc PR_NEXT_def PR_KSTACK_def PR_REGS_def
      ST_EIP_def ST_CS_def ST_USER_SS_def ST_USER_ESP_def ST_EBP_def ST_EFLAGS_def)
qed

text \<open>A process is a live block of the heap, of the 128 bytes \<open>calloc\<close> gives for its 72.\<close>

definition process_block :: "memory \<Rightarrow> u32 list \<Rightarrow> u32 \<Rightarrow> bool" where
  "process_block m bs p \<longleftrightarrow> (\<exists>b i. (b, i) \<in> live m bs \<and> b_power_size m b = 128 \<and> p = slot_addr b 128 i)"

lemma in_process_slot:
  assumes "b_power_size m b = 128" "in_block (slot_addr b 128 i) SIZEOF_PROCESS x"
  shows "in_slot m b i x"
  using assms by (auto simp: in_slot_def in_block_def SIZEOF_PROCESS_def elim: less_le_trans)

lemma process_block_apart:
  assumes hi: "heap_inv P h bs" and p: "process_block (hp_mem h) bs p" and q: "process_block (hp_mem h) bs q" and ne: "p \<noteq> q"
  shows "apart72 p q"
  unfolding apart72_def
proof (intro allI notI)
  fix x assume x: "in_block p SIZEOF_PROCESS x \<and> in_block q SIZEOF_PROCESS x"
  from p q obtain b i c j where b: "(b, i) \<in> live (hp_mem h) bs" "b_power_size (hp_mem h) b = 128" "p = slot_addr b 128 i"
    and c: "(c, j) \<in> live (hp_mem h) bs" "b_power_size (hp_mem h) c = 128" "q = slot_addr c 128 j"
    by (auto simp: process_block_def)
  from x b c have "in_slot (hp_mem h) b i x" "in_slot (hp_mem h) c j x" by (auto intro: in_process_slot)
  with live_slot [OF hi b(1)] live_slot [OF hi c(1)] slots_disjoint [of "hp_mem h" b i c j x] have "b = c \<and> i = j" by blast
  with b c ne show False by simp
qed

lemma process_block_bytes:
  assumes hi: "heap_inv P h bs" and p: "process_block (hp_mem h) bs p" and x: "in_block p SIZEOF_PROCESS x"
  shows "page_of x \<in> set bs" and "p \<noteq> 0"
proof -
  from p obtain b i where b: "(b, i) \<in> live (hp_mem h) bs" "b_power_size (hp_mem h) b = 128" "p = slot_addr b 128 i"
    by (auto simp: process_block_def)
  note s = live_slot [OF hi b(1)]
  have "in_slot (hp_mem h) b i x" using in_process_slot b x by blast
  with s show "page_of x \<in> set bs" using in_slot_offset(1) by metis
  show "p \<noteq> 0" using kfree_slot_addr(3) [OF hi, of b i] s b by simp
qed

text \<open>The kernel with its processes: the heap and the kernel's address space apart, and the list \<open>ps\<close>.\<close>

definition world :: "pmm \<Rightarrow> heap \<Rightarrow> u32 list \<Rightarrow> u32 \<Rightarrow> sched \<Rightarrow> u32 list \<Rightarrow> bool" where
  "world P h bs kpd c ps \<longleftrightarrow> kernel_inv P h bs kpd \<and> plist (hp_mem h) (sc_processes c) ps \<and> distinct ps \<and>
     (\<forall>p \<in> set ps. process_block (hp_mem h) bs p)"

lemma plist_blocks:
  assumes pl: "plist m a ps" and same: "\<And>p x. p \<in> set ps \<Longrightarrow> in_block p SIZEOF_PROCESS x \<Longrightarrow> m' x = m x"
  shows "plist m' a ps"
  using pl
proof (rule plist_cong)
  show "load32 m' (p + PR_NEXT) = load32 m (p + PR_NEXT)" if "p \<in> set ps" for p
    by (rule load32_cong) (use that same next_in_process in blast)
qed

end
