(* ===== verification/Spawn.thy ===== *)
theory Spawn
  imports World
begin

text \<open>
  \<open>create_process\<close> from its call to its return: the object of the new process in the heap, its link
  in the list, and what it finds in its address space (\<open>process_at\<close>). \<open>create_process_done\<close> keeps the
  invariant \<open>world\<close>, so that it applies again to the next program.
\<close>

section \<open>Creating a process\<close>

lemma kcalloc_process:
  assumes inv: "kernel_inv P h bs pd" and nz: "fst (allocate_frame P (hp_mem h)) \<noteq> 0"
  obtains p h1 bs' b i where "kcalloc P 1 SIZEOF_PROCESS h = Some (p, h1\<lparr>hp_mem := memset p 0 SIZEOF_PROCESS (hp_mem h1)\<rparr>)"
    "malloc_post P SIZEOF_PROCESS h bs p h1 bs' b i" "b_power_size (hp_mem h1) b = 128" "p = slot_addr b 128 i"
    "(b, i) \<in> live (hp_mem h1) bs'" "p \<noteq> 0" "heap_inv P h1 bs'"
proof -
  have hi: "heap_inv P h bs" using inv by (simp add: kernel_inv_def)
  have "SIZEOF_PROCESS \<le> 2048" by (simp add: SIZEOF_PROCESS_def)
  from kmalloc_correct [OF hi this nz] obtain p h1 bs' b i
    where k: "kmalloc P SIZEOF_PROCESS h = Some (p, h1)" and post: "malloc_post P SIZEOF_PROCESS h bs p h1 bs' b i" by blast
  have "compute_power SIZEOF_PROCESS = Some (2 ^ 7)" by (rule compute_power_some) (simp_all add: SIZEOF_PROCESS_def)
  with post have pw: "b_power_size (hp_mem h1) b = 128" and p: "p = slot_addr b 128 i"
    and l: "(b, i) \<in> live (hp_mem h1) bs'" and hi1: "heap_inv P h1 bs'" by (auto simp: malloc_post_def)
  have "p \<noteq> 0" using kfree_slot_addr(3) [OF hi1, of b i] live_slot [OF hi1 l] pw p by simp
  moreover from this have "kcalloc P 1 SIZEOF_PROCESS h = Some (p, h1\<lparr>hp_mem := memset p 0 SIZEOF_PROCESS (hp_mem h1)\<rparr>)"
    using k by (simp add: kcalloc_eq)
  ultimately show thesis using that post pw p l hi1 by blast
qed

text \<open>What \<open>create_process\<close> computes, with the pieces named.\<close>

lemma create_process_eq:
  assumes "process_space P kpd (hp_mem h) = (pd, stack_ptr, kernel_ptr, m5)"
    and "Elf32_load P pd (update_cr3 pd) sp elf (entry0, m5, s) = Some (entry_point, m6, s')"
    and "kcalloc P 1 SIZEOF_PROCESS (h\<lparr>hp_mem := m6\<rparr>) = Some (p, h1\<lparr>hp_mem := memset p 0 SIZEOF_PROCESS (hp_mem h1)\<rparr>)"
  defines "m9 \<equiv> new_process p pd entry_point (P2V (kernel_ptr + 0x1000)) (hp_mem h1)"
  shows "create_process P sp elf kpd (entry0, c, h, s) =
    (if sc_processes c = 0
     then Some (entry_point, c\<lparr>sc_cr3 := update_cr3 kpd, sc_processes := p, sc_current := p\<rparr>, h1\<lparr>hp_mem := m9\<rparr>, s')
     else map_option (\<lambda>l. (entry_point, c\<lparr>sc_cr3 := update_cr3 kpd\<rparr>, h1\<lparr>hp_mem := store32 (l + PR_NEXT) p m9\<rparr>, s'))
            (last_process (sc_processes c) m9))"
  using assms(1-3) by (simp add: create_process_def m9_def new_process_def Let_def)

text \<open>The writes into the block of the new process.\<close>

lemma new_process_world:
  fixes pd e k :: u32
  assumes w: "world P h bs kpd c ps" and h6: "kernel_inv P (h\<lparr>hp_mem := m6\<rparr>) bs kpd"
    and live6: "live m6 bs = live (hp_mem h) bs" and pw6: "\<forall>b \<in> set bs. b_power_size m6 b = b_power_size (hp_mem h) b"
    and bytes6: "\<forall>x. page_of x \<in> set bs \<longrightarrow> m6 x = hp_mem h x"
    and post: "malloc_post P SIZEOF_PROCESS (h\<lparr>hp_mem := m6\<rparr>) bs p h1 bs' b i"
    and p: "b_power_size (hp_mem h1) b = 128" "p = slot_addr b 128 i" "(b, i) \<in> live (hp_mem h1) bs'"
  defines "m9 \<equiv> new_process p pd e k (hp_mem h1)"
  shows "kernel_inv P (h1\<lparr>hp_mem := m9\<rparr>) bs' kpd" and "plist m9 (sc_processes c) ps"
    and "q \<in> set (p # ps) \<Longrightarrow> process_block m9 bs' q" and "p \<notin> set ps"
    and "q \<in> set ps \<Longrightarrow> in_block q SIZEOF_PROCESS x \<Longrightarrow> m9 x = hp_mem h x"
    and "(d, j) \<in> live (hp_mem h) bs \<Longrightarrow> in_slot (hp_mem h) d j x \<Longrightarrow> m9 x = hp_mem h x"
    and "live m9 bs' = insert (b, i) (live (hp_mem h) bs)"
    and "d \<in> set bs \<Longrightarrow> b_power_size m9 d = b_power_size (hp_mem h) d"
    and "(d, j) \<in> live (hp_mem h) bs \<Longrightarrow> in_slot (hp_mem h) d j x \<Longrightarrow> \<not> in_block p SIZEOF_PROCESS x"
proof -
  let ?m = "hp_mem h" and ?m1 = "hp_mem h1"
  have hi: "heap_inv P h bs" and pl: "plist ?m (sc_processes c) ps" and pb: "\<And>q. q \<in> set ps \<Longrightarrow> process_block ?m bs q"
    using w by (simp_all add: world_def kernel_inv_def)
  have hi6: "heap_inv P (h\<lparr>hp_mem := m6\<rparr>) bs" using h6 by (simp add: kernel_inv_def)
  from post have hi1: "heap_inv P h1 bs'" and sub: "set bs \<subseteq> set bs'" and new: "(b, i) \<notin> live m6 bs"
    and live1: "live ?m1 bs' = insert (b, i) (live m6 bs)" and kept: "blocks_kept m6 ?m1 (live m6 bs)"
    and pw1: "\<And>c. c \<in> set bs \<Longrightarrow> b_power_size ?m1 c = b_power_size m6 c"
    by (simp_all add: malloc_post_def)
  note inv1 = kmalloc_kernel_inv(1) [OF h6 post]
  have out: "m9 x = ?m1 x" if "\<not> in_slot ?m1 b i x" for x
  proof -
    have "\<not> in_block p SIZEOF_PROCESS x" using that in_process_slot [OF p(1)] unfolding p(2) by blast
    then show ?thesis by (simp add: m9_def new_process_outside)
  qed
  have sw: "kernel_inv P (h1\<lparr>hp_mem := m9\<rparr>) bs' kpd" "live m9 bs' = live ?m1 bs'"
      "d \<in> set bs' \<Longrightarrow> b_power_size m9 d = b_power_size ?m1 d" for d
    by (rule slot_write_kernel_inv [OF inv1 p(3)]; (erule out | assumption))+
  show "kernel_inv P (h1\<lparr>hp_mem := m9\<rparr>) bs' kpd" by (rule sw(1))
  have slot: "\<exists>d j. (d, j) \<in> live ?m bs \<and> b_power_size m6 d = 128 \<and> (d, j) \<in> live ?m1 bs' \<and> b_power_size ?m1 d = 128 \<and>
      q = slot_addr d 128 j" if q: "q \<in> set ps" for q
  proof -
    obtain d j where dj: "(d, j) \<in> live ?m bs" "b_power_size ?m d = 128" "q = slot_addr d 128 j"
      using pb [OF q] by (auto simp: process_block_def)
    moreover have "d \<in> set bs" using live_slot [OF hi dj(1)] by blast
    ultimately show ?thesis using live1 live6 pw1 pw6 by (intro exI [of _ d] exI [of _ j]) simp
  qed
  have old: "process_block ?m1 bs' q" if "q \<in> set ps" for q
    using slot [OF that] unfolding process_block_def by blast
  have new1: "process_block ?m1 bs' p" using p by (auto simp: process_block_def)
  have blk: "process_block m9 bs' q" if blk1: "process_block ?m1 bs' q" for q
  proof -
    obtain d j where dj: "(d, j) \<in> live ?m1 bs'" "b_power_size ?m1 d = 128" "q = slot_addr d 128 j"
      using blk1 by (auto simp: process_block_def)
    have "d \<in> set bs'" using live_slot [OF hi1 dj(1)] by blast
    note pw9 = sw(3) [OF this]
    show ?thesis unfolding process_block_def using sw(2) pw9 dj by (intro exI [of _ d] exI [of _ j]) simp
  qed
  show "q \<in> set (p # ps) \<Longrightarrow> process_block m9 bs' q" for q using blk old new1 by auto
  have p_new: "p \<noteq> q" if q: "q \<in> set ps" for q
  proof
    assume "p = q"
    obtain d j where dj: "(d, j) \<in> live ?m bs" "(d, j) \<in> live ?m1 bs'" "b_power_size ?m1 d = 128" "q = slot_addr d 128 j"
      using slot [OF q] by blast
    have "in_block q SIZEOF_PROCESS q" by (simp add: in_block_def SIZEOF_PROCESS_def)
    then have "in_slot ?m1 b i q" "in_slot ?m1 d j q"
      using in_process_slot [OF p(1), of i q] in_process_slot [OF dj(3), of j q] \<open>p = q\<close> p(2) dj(4) by simp_all
    with live_slot [OF hi1 p(3)] live_slot [OF hi1 dj(2)] slots_disjoint [of ?m1 b i d j q] have "b = d \<and> i = j" by blast
    with new dj(1) live6 show False by simp
  qed
  then show "p \<notin> set ps" by blast
  show "live m9 bs' = insert (b, i) (live ?m bs)" using sw(2) live1 live6 by simp
  show "b_power_size m9 d = b_power_size ?m d" if "d \<in> set bs" for d using sw(3) [of d] sub that pw1 pw6 by auto
  have other: "?m1 x = ?m x \<and> \<not> in_slot ?m1 b i x" if dj: "(d, j) \<in> live ?m bs" and x: "in_slot ?m d j x" for d j x
  proof -
    have d: "d \<in> set bs" using live_slot [OF hi dj] by blast
    have x6: "in_slot m6 d j x" and x1: "in_slot ?m1 d j x" using x d pw6 pw1 by (simp_all add: in_slot_def)
    have "?m1 x = m6 x" using blocks_keptD [OF kept, of d j x] dj live6 x6 by simp
    moreover have "m6 x = ?m x" using bytes6 in_slot_offset(1) [of ?m d j x] live_slot [OF hi dj] x by auto
    moreover have "\<not> in_slot ?m1 b i x"
    proof
      assume "in_slot ?m1 b i x"
      moreover have "(d, j) \<in> live ?m1 bs'" using live1 live6 dj by simp
      ultimately have "b = d \<and> i = j"
        using live_slot [OF hi1 p(3)] live_slot [OF hi1] slots_disjoint [of ?m1 b i d j x] x1 by blast
      with new dj live6 show False by simp
    qed
    ultimately show ?thesis by simp
  qed
  then show slots: "(d, j) \<in> live ?m bs \<Longrightarrow> in_slot ?m d j x \<Longrightarrow> m9 x = ?m x" for d j x using out by metis
  show "(d, j) \<in> live ?m bs \<Longrightarrow> in_slot ?m d j x \<Longrightarrow> \<not> in_block p SIZEOF_PROCESS x" for d j x
    using other in_process_slot [OF p(1)] unfolding p(2) by blast
  show bytes: "m9 x = ?m x" if q: "q \<in> set ps" and x: "in_block q SIZEOF_PROCESS x" for q x
  proof -
    obtain d j where "(d, j) \<in> live ?m bs" "b_power_size ?m d = 128" "q = slot_addr d 128 j"
      using pb [OF q] by (auto simp: process_block_def)
    then show ?thesis using slots in_process_slot x by blast
  qed
  show "plist m9 (sc_processes c) ps" using bytes by (rule plist_blocks [OF pl])
qed

section \<open>Linking the process into the list\<close>

text \<open>Writes to the heap's own pages, seen from another address space.\<close>

lemma bucket_writes:
  assumes inv: "kernel_inv P h bs pd" and hi: "heap_inv P (h\<lparr>hp_mem := m'\<rparr>) bs"
    and same0: "\<forall>x. page_of x \<notin> set bs \<longrightarrow> m' x = hp_mem h x"
  shows "kernel_inv P (h\<lparr>hp_mem := m'\<rparr>) bs pd" and "keeps P pd {x. page_of x \<in> set bs} (hp_mem h) m'"
    and "walk m' (update_cr3 pd) va = walk (hp_mem h) (update_cr3 pd) va"
    and "frame_used P i m' = frame_used P i (hp_mem h)"
proof -
  let ?m = "hp_mem h"
  note same = same0 [rule_format]
  have "bitmap_apart P b" if "b \<in> set bs" for b using inv that by (simp add: kernel_inv_def heap_inv_def)
  then have "m' x = ?m x" if "in_bitmap (pmm_bm P) x" for x
    using that by (intro same) (auto simp: bitmap_apart_def)
  then show "frame_used P i m' = frame_used P i ?m" by (intro frame_used_cong)
  have as: "as_inv P ?m pd" and out: "\<And>b. b \<in> set bs \<Longrightarrow> outside_pd ?m pd b" using inv by (simp_all add: kernel_inv_def)
  have ch: "x \<in> {x. page_of x \<in> set bs} \<and> kernel_data P ?m pd x" if "m' x \<noteq> ?m x" for x
    using same [of x] bucket_data [OF inv, of x] that by auto
  show k: "keeps P pd {x. page_of x \<in> set bs} ?m m'" by (rule keeps_bytes [OF as ch])
  have "pd \<notin> set bs" using out by (auto simp: outside_pd_def)
  then have dir: "m' x = ?m x" if "page_of x = pd" for x using that same by simp
  have "outside_pd m' pd b" if "b \<in> set bs" for b
    using out [OF that] as_inv_cong(2) [OF as dir keepsD(2) [OF k]] by simp
  then show "kernel_inv P (h\<lparr>hp_mem := m'\<rparr>) bs pd" using hi keepsD(1) [OF k] by (simp add: kernel_inv_def)
  show "walk m' (update_cr3 pd) va = walk ?m (update_cr3 pd) va"
  proof (rule walk_cong [OF _ dir])
    show "pd_wf ?m pd" using as by (simp add: as_inv_def)
    show "m' x = ?m x" if "i < 1024" "present (pde ?m pd i)" "page_of x = table_of (pde ?m pd i)" for x i
      using that out by (intro same) (auto simp: outside_pd_def)
  qed
qed

lemma link_process:
  assumes inv: "kernel_inv P h bs kpd" and pl: "plist (hp_mem h) a ps" and d: "distinct (p # ps)" and ne: "ps \<noteq> []"
    and pb: "\<And>q. q \<in> set (p # ps) \<Longrightarrow> process_block (hp_mem h) bs q" and n0: "load32 (hp_mem h) (p + PR_NEXT) = 0"
  defines "m' \<equiv> store32 (List.last ps + PR_NEXT) p (hp_mem h)"
  shows "last_process a (hp_mem h) = Some (List.last ps)" and "plist m' a (ps @ [p])"
    and "kernel_inv P (h\<lparr>hp_mem := m'\<rparr>) bs kpd" and "q \<in> set (p # ps) \<Longrightarrow> process_block m' bs q"
    and "q \<in> set (p # ps) \<Longrightarrow> in_block q SIZEOF_PROCESS x \<Longrightarrow> 4 \<le> x - (q + PR_NEXT) \<Longrightarrow> m' x = hp_mem h x"
    and "page_of x \<notin> set bs \<Longrightarrow> m' x = hp_mem h x"
    and "\<forall>q \<in> set ps. \<not> in_block q SIZEOF_PROCESS x \<Longrightarrow> m' x = hp_mem h x"
    and "live m' bs = live (hp_mem h) bs" and "c \<in> set bs \<Longrightarrow> b_power_size m' c = b_power_size (hp_mem h) c"
proof -
  let ?m = "hp_mem h" and ?l = "List.last ps"
  have hi: "heap_inv P h bs" using inv by (simp add: kernel_inv_def)
  have l: "?l \<in> set ps" "process_block ?m bs ?l" using ne pb by simp_all
  have ap: "apart72 q r" if "q \<in> set (p # ps)" "r \<in> set (p # ps)" "q \<noteq> r" for q r
    using process_block_apart [OF hi pb [OF that(1)] pb [OF that(2)] that(3)] .
  have p0: "p \<noteq> 0" using process_block_bytes(2) [OF hi, of p p] pb [of p] by (simp add: in_block_def SIZEOF_PROCESS_def)
  from last_process_append [OF pl ne p0 n0 _ _ ap] d
  show "last_process a ?m = Some ?l" "plist m' a (ps @ [p])" by (auto simp: m'_def)
  obtain b i where b: "(b, i) \<in> live ?m bs" "b_power_size ?m b = 128" "?l = slot_addr b 128 i"
    using l(2) by (auto simp: process_block_def)
  have far: "\<not> x - (?l + PR_NEXT) < 4" if "\<not> in_block ?l SIZEOF_PROCESS x" for x
    using that next_in_process by blast
  have out: "m' x = ?m x" if "\<not> in_block ?l SIZEOF_PROCESS x" for x
    using far [OF that] by (simp add: m'_def store32_other not_less)
  have slot: "m' x = ?m x" if "\<not> in_slot ?m b i x" for x
    using that in_process_slot [OF b(2), of i x] by (intro out) (auto simp: b(3))
  have sw: "kernel_inv P (h\<lparr>hp_mem := m'\<rparr>) bs kpd" "live m' bs = live ?m bs"
      "c \<in> set bs \<Longrightarrow> b_power_size m' c = b_power_size ?m c" for c
    by (rule slot_write_kernel_inv [OF inv b(1)]; (erule slot | assumption))+
  show "kernel_inv P (h\<lparr>hp_mem := m'\<rparr>) bs kpd" by (rule sw(1))
  show "live m' bs = live ?m bs" "c \<in> set bs \<Longrightarrow> b_power_size m' c = b_power_size ?m c" for c by (rule sw; assumption?)+
  show "m' x = ?m x" if "\<forall>q \<in> set ps. \<not> in_block q SIZEOF_PROCESS x" for x using that l(1) by (intro out) blast
  show "process_block m' bs q" if q: "q \<in> set (p # ps)" for q
  proof -
    obtain d j where dj: "(d, j) \<in> live ?m bs" "b_power_size ?m d = 128" "q = slot_addr d 128 j"
      using pb [OF q] by (auto simp: process_block_def)
    have "d \<in> set bs" using live_slot [OF hi dj(1)] by blast
    with sw(2,3) dj show ?thesis unfolding process_block_def by (intro exI [of _ d] exI [of _ j]) simp
  qed
  show "m' x = ?m x" if "q \<in> set (p # ps)" "in_block q SIZEOF_PROCESS x" "4 \<le> x - (q + PR_NEXT)" for q x
  proof (cases "q = ?l")
    case True
    with that(3) show ?thesis by (simp add: m'_def store32_other)
  next
    case False
    with ap [OF that(1), of ?l] l(1) that(2) show ?thesis by (intro out) (auto simp: apart72_def)
  qed
  show "m' x = ?m x" if "page_of x \<notin> set bs" for x
    using that process_block_bytes(1) [OF hi l(2)] by (intro out) blast
qed

text \<open>The same for the first process, which only becomes the list.\<close>

definition linked :: "u32 list \<Rightarrow> u32 \<Rightarrow> memory \<Rightarrow> memory" where
  "linked ps p m = (if ps = [] then m else store32 (List.last ps + PR_NEXT) p m)"

lemma linked_world:
  assumes inv: "kernel_inv P h bs kpd" and pl: "plist (hp_mem h) a ps" and d: "distinct (p # ps)"
    and pb: "\<forall>q \<in> set (p # ps). process_block (hp_mem h) bs q" and n0: "load32 (hp_mem h) (p + PR_NEXT) = 0"
  defines "m' \<equiv> linked ps p (hp_mem h)"
  shows "kernel_inv P (h\<lparr>hp_mem := m'\<rparr>) bs kpd" and "plist m' (if ps = [] then p else a) (ps @ [p])"
    and "q \<in> set (p # ps) \<Longrightarrow> process_block m' bs q"
    and "q \<in> set (p # ps) \<Longrightarrow> in_block q SIZEOF_PROCESS x \<Longrightarrow> 4 \<le> x - (q + PR_NEXT) \<Longrightarrow> m' x = hp_mem h x"
    and "page_of x \<notin> set bs \<Longrightarrow> m' x = hp_mem h x"
    and "\<forall>q \<in> set ps. \<not> in_block q SIZEOF_PROCESS x \<Longrightarrow> m' x = hp_mem h x"
    and "live m' bs = live (hp_mem h) bs" and "c \<in> set bs \<Longrightarrow> b_power_size m' c = b_power_size (hp_mem h) c"
proof -
  have hi: "heap_inv P h bs" using inv by (simp add: kernel_inv_def)
  have p0: "p \<noteq> 0" using process_block_bytes(2) [OF hi, of p p] pb by (simp add: in_block_def SIZEOF_PROCESS_def)
  note lp = link_process [OF inv pl d _ pb [rule_format] n0]
  show "kernel_inv P (h\<lparr>hp_mem := m'\<rparr>) bs kpd" "plist m' (if ps = [] then p else a) (ps @ [p])"
    "q \<in> set (p # ps) \<Longrightarrow> process_block m' bs q"
    "q \<in> set (p # ps) \<Longrightarrow> in_block q SIZEOF_PROCESS x \<Longrightarrow> 4 \<le> x - (q + PR_NEXT) \<Longrightarrow> m' x = hp_mem h x"
    "page_of x \<notin> set bs \<Longrightarrow> m' x = hp_mem h x"
    using lp(2-6) inv p0 n0 pb by (cases "ps = []"; simp add: m'_def linked_def)+
  show "\<forall>q \<in> set ps. \<not> in_block q SIZEOF_PROCESS x \<Longrightarrow> m' x = hp_mem h x"
    using lp(7) by (cases "ps = []"; simp add: m'_def linked_def)
  show "live m' bs = live (hp_mem h) bs" "c \<in> set bs \<Longrightarrow> b_power_size m' c = b_power_size (hp_mem h) c"
    using lp(8,9) by (cases "ps = []"; simp add: m'_def linked_def)+
qed

section \<open>\<open>create_process\<close> makes a process\<close>

text \<open>The fields of a process beside its link.\<close>

lemma process_field:
  assumes "x - (p + k) < 4" "k \<le> 60"
  shows "in_block p SIZEOF_PROCESS x" and "4 \<le> x - (p + PR_NEXT)"
proof -
  define d where "d = x - (p + k)"
  have d: "unat d < 4" "unat k \<le> 60" using assms by (simp_all add: d_def word_less_nat_alt word_le_nat_alt)
  have x: "x - p = k + d" by (simp add: d_def)
  have kd: "unat (k + d) = unat k + unat d" using d by (simp add: unat_word_ariths)
  with x d show "in_block p SIZEOF_PROCESS x" by (simp add: in_block_def SIZEOF_PROCESS_def word_less_nat_alt)
  have "x - (p + PR_NEXT) = k + d - 64" using x by (simp add: PR_NEXT_def diff_diff_add [symmetric])
  moreover have "4 \<le> k + d - 64" using d kd by (simp add: word_le_nat_alt unat_sub_if')
  ultimately show "4 \<le> x - (p + PR_NEXT)" by (simp only:)
qed

lemma new_process_link:
  assumes same: "\<forall>x. in_block p SIZEOF_PROCESS x \<longrightarrow> 4 \<le> x - (p + PR_NEXT) \<longrightarrow> m' x = m x"
  shows "starts_at m p e \<Longrightarrow> starts_at m' p e" and "load32 m' p = load32 m p"
proof -
  have f: "load32 m' (p + k) = load32 m (p + k)" if "k \<le> 60" for k
    by (rule load32_cong) (use process_field that same in blast)
  show "load32 m' p = load32 m p" using f [of 0] by simp
  show "starts_at m p e \<Longrightarrow> starts_at m' p e"
    by (simp add: starts_at_def add.assoc f PR_REGS_def ST_EIP_def ST_CS_def ST_USER_SS_def ST_USER_ESP_def ST_EBP_def
        ST_EFLAGS_def)
qed

lemma saved_field:
  assumes "k < SIZEOF_STATE"
  shows "in_block q SIZEOF_PROCESS (q + PR_REGS + k)" and "4 \<le> q + PR_REGS + k - (q + PR_NEXT)"
proof -
  have "q + PR_REGS + k - (q + (PR_REGS + k)) < 4" by (simp add: add.assoc)
  moreover have "PR_REGS + k \<le> 60"
    using assms by (simp add: PR_REGS_def SIZEOF_STATE_def word_less_nat_alt word_le_nat_alt unat_word_ariths)
  ultimately show "in_block q SIZEOF_PROCESS (q + PR_REGS + k)" "4 \<le> q + PR_REGS + k - (q + PR_NEXT)"
    by (rule process_field)+
qed

lemma heap_mem_update [simp]: "hp_mem (h\<lparr>hp_mem := m\<rparr>) = m" "h\<lparr>hp_mem := m, hp_mem := m'\<rparr> = h\<lparr>hp_mem := m'\<rparr>"
  by simp_all

lemma malloc_free_frames:
  assumes fa: "fa_inv (P, hp_mem h)" and nz: "fst (allocate_frame P (hp_mem h)) \<noteq> 0"
    and post: "malloc_post P sz h bs ptr h' bs' b i" and n: "Suc n \<le> card (free_frames P (hp_mem h))"
  shows "n \<le> card (free_frames P (hp_mem h'))"
proof -
  obtain f where f: "fst (allocate_frame P (hp_mem h)) = f * FRAME_SIZE" "f < pmm_nbFrames P"
    using fa nz by (auto elim: allocated_frame)
  have "free_frames P (hp_mem h) - {f} \<subseteq> free_frames P (hp_mem h')"
  proof
    fix j assume j: "j \<in> free_frames P (hp_mem h) - {f}"
    then have "j < pmm_nbFrames P" by (simp add: free_frames_def)
    then have "P2V (j * FRAME_SIZE) \<noteq> P2V (f * FRAME_SIZE)"
      using j f(2) fa by (subst window_frame_inj) (auto simp: fa_inv_def intro: less_le_trans)
    then have "j * FRAME_SIZE \<noteq> fst (allocate_frame P (hp_mem h))" using f(1) by auto
    with j post show "j \<in> free_frames P (hp_mem h')" by (auto simp: free_frames_def malloc_post_def)
  qed
  then have "card (free_frames P (hp_mem h) - {f}) \<le> card (free_frames P (hp_mem h'))"
    by (rule card_mono [rotated]) (simp add: free_frames_def)
  moreover have "card (free_frames P (hp_mem h)) - 1 \<le> card (free_frames P (hp_mem h) - {f})"
    by (simp add: card_Diff_singleton_if)
  ultimately show ?thesis using n by simp
qed

text \<open>The heap's half: the new object filled in and linked, the old ones as they were.\<close>

lemma new_process_linked:
  fixes pd e k :: u32
  assumes w: "world P h bs kpd c ps" and h6: "kernel_inv P (h\<lparr>hp_mem := m6\<rparr>) bs kpd"
    and live6: "live m6 bs = live (hp_mem h) bs" and pw6: "\<forall>b \<in> set bs. b_power_size m6 b = b_power_size (hp_mem h) b"
    and bytes6: "\<forall>x. page_of x \<in> set bs \<longrightarrow> m6 x = hp_mem h x"
    and post: "malloc_post P SIZEOF_PROCESS (h\<lparr>hp_mem := m6\<rparr>) bs p h1 bs' b i"
    and blk: "b_power_size (hp_mem h1) b = 128" "p = slot_addr b 128 i" "(b, i) \<in> live (hp_mem h1) bs'"
  defines "m9 \<equiv> new_process p pd e k (hp_mem h1)"
  defines "m' \<equiv> linked ps p m9"
  shows "world P (h1\<lparr>hp_mem := m'\<rparr>) bs' kpd (c\<lparr>sc_processes := if ps = [] then p else sc_processes c\<rparr>) (ps @ [p])"
    and "ps \<noteq> [] \<Longrightarrow> last_process (sc_processes c) m9 = Some (List.last ps)" and "sc_processes c = 0 \<longleftrightarrow> ps = []"
    and "starts_at m' p e" and "load32 m' p = pd" and "q \<in> set ps \<Longrightarrow> load32 m' q = load32 (hp_mem h) q"
    and "q \<in> set ps \<Longrightarrow> r < SIZEOF_STATE \<Longrightarrow> saved m' q r = saved (hp_mem h) q r"
    and "\<forall>x. page_of x \<notin> set bs' \<longrightarrow> m' x = hp_mem h1 x"
    and "(d, j) \<in> live (hp_mem h) bs \<Longrightarrow> in_slot (hp_mem h) d j x \<Longrightarrow> \<forall>q \<in> set ps. \<not> in_block q SIZEOF_PROCESS x \<Longrightarrow>
      m' x = hp_mem h x"
    and "live m' bs' = insert (b, i) (live (hp_mem h) bs)"
    and "d \<in> set bs \<Longrightarrow> b_power_size m' d = b_power_size (hp_mem h) d"
    and "(d, j) \<in> live (hp_mem h) bs \<Longrightarrow> in_slot (hp_mem h) d j x \<Longrightarrow> \<not> in_block p SIZEOF_PROCESS x"
proof -
  let ?h9 = "h1\<lparr>hp_mem := m9\<rparr>"
  have pl: "plist (hp_mem h) (sc_processes c) ps" and dist: "distinct ps" using w by (simp_all add: world_def)
  note nw = new_process_world [OF w h6 live6 pw6 bytes6 post blk]
  note nw9 = nw(1,2,3,5,6,7,8) [where pd = pd and e = e and k = k, folded m9_def]
  show "(d, j) \<in> live (hp_mem h) bs \<Longrightarrow> in_slot (hp_mem h) d j x \<Longrightarrow> \<not> in_block p SIZEOF_PROCESS x" for d j x
    by (rule nw(9))
  have dist': "distinct (p # ps)" using nw(4) dist by simp
  note pf = new_process_fields [where p = p and pd = pd and e = e and k = k and m = "hp_mem h1", folded m9_def]
  have pb9: "\<forall>q \<in> set (p # ps). process_block m9 bs' q" using nw9(3) by blast
  note lw = linked_world [OF nw9(1), of "sc_processes c" ps p, unfolded heap_mem_update, OF nw9(2) dist' pb9 pf(3), folded m'_def]
  have sub: "set bs \<subseteq> set bs'" using post by (simp add: malloc_post_def)
  show "live m' bs' = insert (b, i) (live (hp_mem h) bs)" using lw(7) nw9(6) by simp
  show "d \<in> set bs \<Longrightarrow> b_power_size m' d = b_power_size (hp_mem h) d" for d using lw(8) [of d] nw9(7) [of d] sub by auto
  show "m' x = hp_mem h x" if "(d, j) \<in> live (hp_mem h) bs" "in_slot (hp_mem h) d j x" "\<forall>q \<in> set ps. \<not> in_block q SIZEOF_PROCESS x" for d j x
    using lw(6) [OF that(3)] nw9(5) [OF that(1,2)] by simp
  show "sc_processes c = 0 \<longleftrightarrow> ps = []" using pl plist_nonzero [OF pl] by (cases ps) auto
  show "last_process (sc_processes c) m9 = Some (List.last ps)" if "ps \<noteq> []"
    using link_process(1) [OF nw9(1), of "sc_processes c" ps p] nw9(2,3) dist' pf(3) that by simp
  show "world P (h1\<lparr>hp_mem := m'\<rparr>) bs' kpd (c\<lparr>sc_processes := if ps = [] then p else sc_processes c\<rparr>) (ps @ [p])"
    using lw(1-3) dist' by (auto simp: world_def)
  show "load32 m' p = pd" and "starts_at m' p e"
    using new_process_link [of p m' m9] lw(4) [of p] pf(1,2) by simp_all
  show "saved m' q r = saved (hp_mem h) q r" if "q \<in> set ps" "r < SIZEOF_STATE" for q r
    using lw(4) [of q] nw9(4) [of q] saved_field [OF that(2), of q] that(1) by (simp add: saved_def)
  show "load32 m' q = load32 (hp_mem h) q" if "q \<in> set ps" for q
  proof -
    have "load32 m' q = load32 m9 q" using new_process_link(2) [of q m' m9] lw(4) [of q] that by simp
    moreover have "load32 m9 (q + 0) = load32 (hp_mem h) (q + 0)"
      using nw9(4) [OF that] process_field(1) [of _ q 0] by (intro load32_cong) simp
    ultimately show ?thesis by simp
  qed
  have "process_block (hp_mem h1) bs' p" using blk by (auto simp: process_block_def)
  moreover have "heap_inv P h1 bs'" using post by (simp add: malloc_post_def)
  ultimately have "m9 x = hp_mem h1 x" if "page_of x \<notin> set bs'" for x
    using that process_block_bytes(1) unfolding m9_def by (intro new_process_outside) blast
  with lw(5) show "\<forall>x. page_of x \<notin> set bs' \<longrightarrow> m' x = hp_mem h1 x" by simp
qed

text \<open>The memory's half: the fresh bucket is on a frame nobody owned, so a loaded program stays as it is.\<close>

lemma heap_step:
  assumes inv: "kernel_inv P h bs pd" and post: "malloc_post P sz h bs ptr h1 bs' b i"
    and hi': "heap_inv P (h1\<lparr>hp_mem := m'\<rparr>) bs'" and same: "\<forall>x. page_of x \<notin> set bs' \<longrightarrow> m' x = hp_mem h1 x"
  shows "kernel_inv P (h1\<lparr>hp_mem := m'\<rparr>) bs' pd" and "keeps P pd {x. page_of x \<in> set bs'} (hp_mem h) m'"
    and "walk m' (update_cr3 pd) va = walk (hp_mem h) (update_cr3 pd) va"
    and "d \<in> set bs' \<Longrightarrow> owned P (hp_mem h) d \<Longrightarrow> d \<in> set bs" and "page_of x = pd \<Longrightarrow> m' x = hp_mem h x"
    and "frame_used P j m' = frame_used P j (hp_mem h1)"
proof -
  note km = kmalloc_kernel_inv [OF inv post]
  note bk = bucket_writes [OF km(1) hi' same]
  show "kernel_inv P (h1\<lparr>hp_mem := m'\<rparr>) bs' pd" by (rule bk(1))
  have "set bs \<subseteq> set bs'" using post by (simp add: malloc_post_def)
  then show "keeps P pd {x. page_of x \<in> set bs'} (hp_mem h) m'"
    by (intro keeps_trans [OF keeps_mono [OF km(2)] bk(2)]) auto
  show "walk m' (update_cr3 pd) va = walk (hp_mem h) (update_cr3 pd) va" using km(3) bk(3) by simp
  show own: "d \<in> set bs' \<Longrightarrow> owned P (hp_mem h) d \<Longrightarrow> d \<in> set bs" for d by (rule km(4))
  show "frame_used P j m' = frame_used P j (hp_mem h1)" by (rule bk(4))
  have "pd \<notin> set bs'" using own inv by (auto simp: as_inv_def tables_apart_def kernel_inv_def outside_pd_def)
  then show "page_of x = pd \<Longrightarrow> m' x = hp_mem h x" using same km(5) by simp
qed

lemma segment_at_heap:
  assumes inv: "kernel_inv P h bs pd" and owned: "\<forall>b \<in> set bs. owned P m0 b"
    and post: "malloc_post P sz h bs ptr h1 bs' b i"
    and hi': "heap_inv P (h1\<lparr>hp_mem := m'\<rparr>) bs'" and same: "\<forall>x. page_of x \<notin> set bs' \<longrightarrow> m' x = hp_mem h1 x"
    and at: "segment_at P m0 pd elf ph (hp_mem h)" and fits: "unat (p_vaddr m0 ph AND 0xFFF) + unat (p_filesz m0 ph) \<le> 4096"
  shows "segment_at P m0 pd elf ph m'"
proof -
  note hs = heap_step [OF inv post hi' same]
  show ?thesis
  proof (rule segment_at_keeps [OF at hs(2) _ hs(3) fits])
    show "x \<notin> {x. page_of x \<in> set bs'}" if "kernel_data P (hp_mem h) pd x" "\<not> owned P m0 (page_of x)" for x
      using that hs(4) [of "page_of x"] owned by (auto simp: kernel_data_def)
  qed
qed

text \<open>What a process is given: its entry point and directory, the two pages of its stack, its segments; all
  other addresses as the kernel sees them.\<close>

definition process_at :: "pmm \<Rightarrow> memory \<Rightarrow> u32 \<Rightarrow> u32 \<Rightarrow> memory \<Rightarrow> u32 \<Rightarrow> u32 \<Rightarrow> bool" where
  "process_at P m kpd elf m' p stack_ptr \<longleftrightarrow> starts_at m' p (e_entry m elf) \<and>
     (\<forall>i < ucast (e_phnum m elf). loadable m (phdr m elf i) \<longrightarrow> segment_at P m (load32 m' p) elf (phdr m elf i) m') \<and>
     (\<forall>va. (\<forall>i < ucast (e_phnum m elf). loadable m (phdr m elf i) \<longrightarrow>
          page_of va \<noteq> page_of (p_vaddr m (phdr m elf i))) \<longrightarrow>
        walk m' (update_cr3 (load32 m' p)) va =
          (if page_of va = 0xBFFF0000 then Some (stack_ptr OR (va AND 0xFFF))
           else if page_of va = 0xBFFF1000 then Some (stack_ptr + 0x1000 OR (va AND 0xFFF))
           else walk m (update_cr3 kpd) va))"

lemma create_process_done:
  fixes e :: u32
  assumes w: "world P h bs kpd c ps" and abs: "\<not> present (pde (hp_mem h) kpd (pd_index 0xBFFF0000))"
    and n: "n + 5 + 2 * unat (e_phnum (hp_mem h) elf) \<le> card (free_frames P (hp_mem h))"
    and stack: "\<And>x. x \<in> magic_bytes sp \<Longrightarrow> kernel_data P (hp_mem h) kpd x \<and> page_of x \<notin> set bs"
    and ok: "elf_ok P kpd (magic_bytes sp) (hp_mem h) elf" and good: "elf_magic (hp_mem h) elf"
    and fair: "fair (se_ports s)"
  obtains p h' bs' c' s' stack_ptr where
    "create_process P sp elf kpd (e, c, h, s) = Some (e_entry (hp_mem h) elf, c', h', s')"
    "world P h' bs' kpd c' (ps @ [p])" "process_at P (hp_mem h) kpd elf (hp_mem h') p stack_ptr"
    "kernel_inv P h' bs' (load32 (hp_mem h') p)"
    "c' = (if ps = [] then c\<lparr>sc_cr3 := update_cr3 kpd, sc_processes := p, sc_current := p\<rparr>
           else c\<lparr>sc_cr3 := update_cr3 kpd\<rparr>)"
    "\<And>q k. q \<in> set ps \<Longrightarrow> k < SIZEOF_STATE \<Longrightarrow> saved (hp_mem h') q k = saved (hp_mem h) q k"
    "\<And>q. q \<in> set ps \<Longrightarrow> load32 (hp_mem h') q = load32 (hp_mem h) q"
    "same_data P (magic_bytes sp \<union> {x. page_of x \<in> set bs}) kpd (hp_mem h) kpd (hp_mem h')"
    "n \<le> card (free_frames P (hp_mem h'))" "fair (se_ports s')" "set bs \<subseteq> set bs'"
    "\<And>b. b \<in> set bs' \<Longrightarrow> owned P (hp_mem h) b \<Longrightarrow> b \<in> set bs"
    "\<And>x. page_of x = kpd \<Longrightarrow> hp_mem h' x = hp_mem h x"
    "live (hp_mem h) bs \<subseteq> live (hp_mem h') bs'"
    "\<And>d. d \<in> set bs \<Longrightarrow> b_power_size (hp_mem h') d = b_power_size (hp_mem h) d"
    "\<And>d j x. (d, j) \<in> live (hp_mem h) bs \<Longrightarrow> in_slot (hp_mem h) d j x \<Longrightarrow>
       \<forall>q \<in> set ps. \<not> in_block q SIZEOF_PROCESS x \<Longrightarrow> hp_mem h' x = hp_mem h x"
    "\<And>d j x. (d, j) \<in> live (hp_mem h) bs \<Longrightarrow> in_slot (hp_mem h) d j x \<Longrightarrow> \<not> in_block p SIZEOF_PROCESS x"
    "fresh_space P (hp_mem h) kpd (hp_mem h') (load32 (hp_mem h') p)"
    "\<And>i k pa. i < ucast (e_phnum (hp_mem h) elf) \<Longrightarrow> loadable (hp_mem h) (phdr (hp_mem h) elf i) \<Longrightarrow>
       k < p_filesz (hp_mem h) (phdr (hp_mem h) elf i) \<Longrightarrow>
       walk (hp_mem h') (update_cr3 (load32 (hp_mem h') p)) (p_vaddr (hp_mem h) (phdr (hp_mem h) elf i) + k) = Some pa \<Longrightarrow>
       page_of (P2V pa) \<notin> set bs'"
proof -
  let ?m = "hp_mem h" and ?en = "e_entry (hp_mem h) elf"
  obtain pd stack_ptr kernel_ptr m5 where ps: "process_space P kpd ?m = (pd, stack_ptr, kernel_ptr, m5)"
    by (rule prod_cases4)
  have inv: "kernel_inv P h bs kpd" and pl: "plist ?m (sc_processes c) ps" and dist: "distinct ps"
    and pb: "\<And>q. q \<in> set ps \<Longrightarrow> process_block ?m bs q" using w by (simp_all add: world_def)
  have n': "Suc n + 4 + 2 * unat (e_phnum ?m elf) \<le> card (free_frames P ?m)" using n by simp
  obtain m6 s' where
    l: "Elf32_load P pd (update_cr3 pd) sp elf (e, m5, s) = Some (?en, m6, s')"
    and fair': "fair (se_ports s')" and n6: "Suc n \<le> card (free_frames P m6)"
    and h6: "kernel_inv P (h\<lparr>hp_mem := m6\<rparr>) bs kpd" and p6: "kernel_inv P (h\<lparr>hp_mem := m6\<rparr>) bs pd"
    and d6: "same_data P (magic_bytes sp) kpd ?m kpd m6" and u6: "\<And>i. frame_used P i ?m \<Longrightarrow> frame_used P i m6"
    and dir6: "\<And>x. page_of x = kpd \<Longrightarrow> m6 x = ?m x"
    and fs6: "fresh_space P ?m kpd m6 pd"
    and live6: "live m6 bs = live ?m bs" and pw6: "\<forall>b \<in> set bs. b_power_size m6 b = b_power_size ?m b"
    and bytes6: "\<forall>x. page_of x \<in> set bs \<longrightarrow> m6 x = ?m x"
    and seg6: "\<And>i. i < ucast (e_phnum ?m elf) \<Longrightarrow> loadable ?m (phdr ?m elf i) \<Longrightarrow>
       segment_at P ?m pd elf (phdr ?m elf i) m6"
    and w6: "\<And>va. (\<And>i. i < ucast (e_phnum ?m elf) \<Longrightarrow> loadable ?m (phdr ?m elf i) \<Longrightarrow>
         page_of va \<noteq> page_of (p_vaddr ?m (phdr ?m elf i))) \<Longrightarrow> walk m6 (update_cr3 pd) va = walk m5 (update_cr3 pd) va"
    by (rule program_loaded [OF inv abs n' ps stack ok good fair]) blast+
  have fa6: "fa_inv (P, m6)" using h6 by (simp add: kernel_inv_def heap_inv_def)
  have nz: "fst (allocate_frame P m6) \<noteq> 0" using alloc_free_frames(1) [OF fa6 n6] .
  let ?h6 = "h\<lparr>hp_mem := m6\<rparr>"
  obtain p h1 bs' b i where
    k: "kcalloc P 1 SIZEOF_PROCESS ?h6 = Some (p, h1\<lparr>hp_mem := memset p 0 SIZEOF_PROCESS (hp_mem h1)\<rparr>)"
    and post: "malloc_post P SIZEOF_PROCESS ?h6 bs p h1 bs' b i"
    and blk: "b_power_size (hp_mem h1) b = 128" "p = slot_addr b 128 i" "(b, i) \<in> live (hp_mem h1) bs'"
    by (rule kcalloc_process [OF h6]) (use nz in simp_all)
  define m9 where "m9 = new_process p pd ?en (P2V (kernel_ptr + 0x1000)) (hp_mem h1)"
  define m' where "m' = linked ps p m9"
  define c' where "c' = (if ps = [] then c\<lparr>sc_cr3 := update_cr3 kpd, sc_processes := p, sc_current := p\<rparr>
           else c\<lparr>sc_cr3 := update_cr3 kpd\<rparr>)"
  let ?h' = "h1\<lparr>hp_mem := m'\<rparr>"
  note nl0 = new_process_linked [OF w h6 live6 pw6 bytes6 post blk]
  note nl = nl0(1,2,4-11) [where pd = pd and e = ?en and k = "P2V (kernel_ptr + 0x1000)", folded m9_def, folded m'_def]
  have cp: "create_process P sp elf kpd (e, c, h, s) = Some (?en, c', ?h', s')"
    unfolding create_process_eq [OF ps l k, where c = c, folded m9_def] nl0(3)
    using nl(2) by (simp add: c'_def m'_def linked_def)
  have hi': "heap_inv P ?h' bs'" using nl(1) by (simp add: world_def kernel_inv_def)
  note hk = heap_step [OF h6 post hi' nl(7), unfolded heap_mem_update]
    and hp = heap_step [OF p6 post hi' nl(7), unfolded heap_mem_update]
  have own: "owned P ?m q \<Longrightarrow> owned P m6 q" for q using u6 by (rule owned_mono [rotated])
  have old: "b \<in> set bs" if "b \<in> set bs'" "owned P ?m b" for b using hk(4) [OF that(1)] own [OF that(2)] by simp
  have as: "as_inv P ?m kpd" and own_bs: "\<forall>b \<in> set bs. owned P ?m b"
    using inv by (simp_all add: kernel_inv_def heap_inv_def)
  have seg: "segment_at P ?m pd elf (phdr ?m elf i) m'" if i: "i < ucast (e_phnum ?m elf)" "loadable ?m (phdr ?m elf i)" for i
    using ok i seg6 [OF i] by (intro segment_at_heap [OF p6 own_bs post hi' nl(7)]) (simp_all add: elf_ok_def segment_ok_def)
  have wk: "walk m' (update_cr3 pd) va =
          (if page_of va = 0xBFFF0000 then Some (stack_ptr OR (va AND 0xFFF))
           else if page_of va = 0xBFFF1000 then Some (stack_ptr + 0x1000 OR (va AND 0xFFF))
           else walk ?m (update_cr3 kpd) va)"
    if "\<forall>i < ucast (e_phnum ?m elf). loadable ?m (phdr ?m elf i) \<longrightarrow> page_of va \<noteq> page_of (p_vaddr ?m (phdr ?m elf i))" for va
    using that hp(3) [of va] w6 [of va] process_space_walk(2) [OF as abs _ ps, of va] n by auto
  show thesis
  proof (rule that [OF cp])
    show "world P ?h' bs' kpd c' (ps @ [p])" using nl(1) by (auto simp: world_def c'_def)
    show "process_at P ?m kpd elf (hp_mem ?h') p stack_ptr" using nl(3,4) seg wk by (simp add: process_at_def)
    show "kernel_inv P ?h' bs' (load32 (hp_mem ?h') p)" using hp(1) nl(4) by simp
    show "same_data P (magic_bytes sp \<union> {x. page_of x \<in> set bs}) kpd ?m kpd (hp_mem ?h')"
      unfolding same_data_def heap_mem_update
    proof (intro allI impI)
      fix x assume x: "kernel_data P ?m kpd x"
      then have x6: "kernel_data P m6 kpd x" "x \<notin> magic_bytes sp \<longrightarrow> m6 x = ?m x" using d6 by (simp_all add: same_data_def)
      moreover have "page_of x \<notin> set bs \<longrightarrow> page_of x \<notin> set bs'" using old x by (auto simp: kernel_data_def)
      ultimately show "kernel_data P m' kpd x \<and> (x \<notin> magic_bytes sp \<union> {x. page_of x \<in> set bs} \<longrightarrow> m' x = ?m x)"
        using keepsD(4) [OF hk(2) x6(1)] keepsD(5) [OF hk(2) x6(1)] by auto
    qed
    have "n \<le> card (free_frames P (hp_mem h1))" using malloc_free_frames [OF _ _ post] fa6 nz n6 by simp
    moreover have "free_frames P m' = free_frames P (hp_mem h1)" by (rule free_frames_cong) (rule hk(6))
    ultimately show "n \<le> card (free_frames P (hp_mem ?h'))" by simp
    show "hp_mem ?h' x = ?m x" if "(d, j) \<in> live ?m bs" "in_slot ?m d j x" "\<forall>q \<in> set ps. \<not> in_block q SIZEOF_PROCESS x" for d j x
      using nl(8) [OF that] by simp
    show "live ?m bs \<subseteq> live (hp_mem ?h') bs'" using nl(9) by auto
    show "\<not> in_block p SIZEOF_PROCESS x" if "(d, j) \<in> live ?m bs" "in_slot ?m d j x" for d j x using nl0(12) [OF that] .
    show "page_of (P2V pa) \<notin> set bs'"
      if "i < ucast (e_phnum ?m elf)" "loadable ?m (phdr ?m elf i)" "k < p_filesz ?m (phdr ?m elf i)"
        "walk (hp_mem ?h') (update_cr3 (load32 (hp_mem ?h') p)) (p_vaddr ?m (phdr ?m elf i) + k) = Some pa" for i k pa
      using seg6 [OF that(1,2)] that(3,4) hp(3,4) nl(4) own_bs by (auto simp: segment_at_def kernel_data_def)
    show "fresh_space P ?m kpd (hp_mem ?h') (load32 (hp_mem ?h') p)"
      using fresh_space_keeps [OF fs6 hp(2) own] nl(4) by simp
    show "hp_mem ?h' x = ?m x" if "page_of x = kpd" for x using hk(5) [OF that] dir6 [OF that] by simp
  qed (use fair' post old nl(5,6,10) in \<open>simp_all add: c'_def malloc_post_def\<close>)
qed

text \<open>The processes of the kernel are what the scheduler needs.\<close>

lemma world_procs_ok:
  assumes w: "world P h bs kpd c ps" and c: "sc_init c" "sc_current c \<in> set ps"
    and frame: "\<And>x. in_block state SIZEOF_STATE x \<Longrightarrow> page_of x \<notin> set bs"
  shows "procs_ok (hp_mem h) c ps state"
proof -
  have hi: "heap_inv P h bs" and pb: "\<And>q. q \<in> set ps \<Longrightarrow> process_block (hp_mem h) bs q"
    using w by (simp_all add: world_def kernel_inv_def)
  have "apart72 p q" if "p \<in> set ps" "q \<in> set ps" "p \<noteq> q" for p q
    using process_block_apart [OF hi pb [OF that(1)] pb [OF that(2)] that(3)] .
  moreover have "\<not> (in_block p SIZEOF_PROCESS x \<and> in_block state SIZEOF_STATE x)" if "p \<in> set ps" for p x
    using process_block_bytes(1) [OF hi pb [OF that]] frame by blast
  ultimately show ?thesis using w c by (simp add: procs_ok_def world_def)
qed

end
