(* ===== verification/Archive.thy ===== *)
theory Archive
  imports Spawn Tar
begin

text \<open>
  \<open>parse_tar\<close> as a whole. \<open>heap_ext\<close> says what a step of the heap keeps of the blocks and the data that are
  there; \<open>archive\<close> describes an archive in memory and \<open>tar_list\<close> the list that is built from it.
\<close>

section \<open>What steps of the heap keep\<close>

text \<open>
  From \<open>m\<close> with the buckets \<open>bs\<close> to \<open>m'\<close> with \<open>bs'\<close>: the blocks in use stay in use and keep their
  contents, and so do the directory and the kernel's data outside the heap, the bytes in \<open>E\<close> excepted; a
  bucket that is new lies on a frame nobody owned.
\<close>

definition heap_ext :: "pmm \<Rightarrow> u32 \<Rightarrow> u32 set \<Rightarrow> memory \<Rightarrow> u32 list \<Rightarrow> memory \<Rightarrow> u32 list \<Rightarrow> bool" where
  "heap_ext P pd E m bs m' bs' \<longleftrightarrow> set bs \<subseteq> set bs' \<and> live m bs \<subseteq> live m' bs' \<and>
     (\<forall>d \<in> set bs. b_power_size m' d = b_power_size m d) \<and>
     (\<forall>d j x. (d, j) \<in> live m bs \<longrightarrow> in_slot m d j x \<longrightarrow> x \<notin> E \<longrightarrow> m' x = m x) \<and>
     (\<forall>x. kernel_data P m pd x \<longrightarrow> kernel_data P m' pd x \<and>
        (page_of x \<notin> set bs \<longrightarrow> page_of x \<notin> set bs' \<and> (x \<notin> E \<longrightarrow> m' x = m x))) \<and>
     (\<forall>x. page_of x = pd \<longrightarrow> m' x = m x)"

lemma live_bucket: "(d, j) \<in> live m bs \<Longrightarrow> d \<in> set bs"
  by (auto simp: live_def)

lemma in_slot_cong: "b_power_size m' d = b_power_size m d \<Longrightarrow> in_slot m' d j x = in_slot m d j x"
  by (simp add: in_slot_def)

lemma heap_ext_data:
  assumes "heap_ext P pd E m bs m' bs'" and x: "kernel_data P m pd x"
  shows "kernel_data P m' pd x" and "page_of x \<notin> set bs \<Longrightarrow> page_of x \<notin> set bs'"
    and "page_of x \<notin> set bs \<Longrightarrow> x \<notin> E \<Longrightarrow> m' x = m x"
proof -
  have "kernel_data P m' pd x \<and> (page_of x \<notin> set bs \<longrightarrow> page_of x \<notin> set bs' \<and> (x \<notin> E \<longrightarrow> m' x = m x))"
    using assms by (simp add: heap_ext_def)
  then show "kernel_data P m' pd x" "page_of x \<notin> set bs \<Longrightarrow> page_of x \<notin> set bs'"
    "page_of x \<notin> set bs \<Longrightarrow> x \<notin> E \<Longrightarrow> m' x = m x" by simp_all
qed

lemma heap_ext_dir: "heap_ext P pd E m bs m' bs' \<Longrightarrow> page_of x = pd \<Longrightarrow> m' x = m x"
  by (simp add: heap_ext_def)

lemma heap_ext_live:
  assumes "heap_ext P pd E m bs m' bs'"
  shows "(d, j) \<in> live m bs \<Longrightarrow> (d, j) \<in> live m' bs'" and "d \<in> set bs \<Longrightarrow> d \<in> set bs'"
    and "d \<in> set bs \<Longrightarrow> b_power_size m' d = b_power_size m d"
    and "(d, j) \<in> live m bs \<Longrightarrow> in_slot m d j x \<Longrightarrow> x \<notin> E \<Longrightarrow> m' x = m x"
proof -
  have e: "set bs \<subseteq> set bs'" "live m bs \<subseteq> live m' bs'" "\<forall>d \<in> set bs. b_power_size m' d = b_power_size m d"
    "\<forall>d j x. (d, j) \<in> live m bs \<longrightarrow> in_slot m d j x \<longrightarrow> x \<notin> E \<longrightarrow> m' x = m x"
    using assms unfolding heap_ext_def by - (elim conjE, assumption)+
  from e(2) show "(d, j) \<in> live m bs \<Longrightarrow> (d, j) \<in> live m' bs'" by (rule subsetD)
  from e(1) show "d \<in> set bs \<Longrightarrow> d \<in> set bs'" by (rule subsetD)
  from e(3) show "d \<in> set bs \<Longrightarrow> b_power_size m' d = b_power_size m d" by simp
  from e(4) show "(d, j) \<in> live m bs \<Longrightarrow> in_slot m d j x \<Longrightarrow> x \<notin> E \<Longrightarrow> m' x = m x" by simp
qed

lemma heap_extI:
  assumes "set bs \<subseteq> set bs'" "live m bs \<subseteq> live m' bs'" "\<And>d. d \<in> set bs \<Longrightarrow> b_power_size m' d = b_power_size m d"
    and "\<And>d j x. (d, j) \<in> live m bs \<Longrightarrow> in_slot m d j x \<Longrightarrow> x \<notin> E \<Longrightarrow> m' x = m x"
    and "\<And>x. kernel_data P m pd x \<Longrightarrow> kernel_data P m' pd x"
    and "\<And>x. kernel_data P m pd x \<Longrightarrow> page_of x \<notin> set bs \<Longrightarrow> page_of x \<notin> set bs'"
    and "\<And>x. kernel_data P m pd x \<Longrightarrow> page_of x \<notin> set bs \<Longrightarrow> x \<notin> E \<Longrightarrow> m' x = m x"
    and "\<And>x. page_of x = pd \<Longrightarrow> m' x = m x"
  shows "heap_ext P pd E m bs m' bs'"
  unfolding heap_ext_def using assms by (intro conjI ballI allI impI) simp_all

lemma heap_ext_refl: "heap_ext P pd E m bs m bs"
  by (simp add: heap_ext_def)

lemma heap_ext_trans:
  assumes a: "heap_ext P pd E m bs m1 bs1" and b: "heap_ext P pd E m1 bs1 m2 bs2"
  shows "heap_ext P pd E m bs m2 bs2"
proof -
  note la = heap_ext_live [OF a] and lb = heap_ext_live [OF b]
  show ?thesis
  proof (rule heap_extI)
    show "set bs \<subseteq> set bs2" by (rule subsetI) (rule lb(2) [OF la(2)])
    show "live m bs \<subseteq> live m2 bs2" by (rule subrelI) (rule lb(1) [OF la(1)])
    show "m2 x = m x" if "page_of x = pd" for x using heap_ext_dir [OF a that] heap_ext_dir [OF b that] by simp
    show "b_power_size m2 d = b_power_size m d" if "d \<in> set bs" for d using la(2,3) [OF that] lb(3) by simp
    show "m2 x = m x" if l: "(d, j) \<in> live m bs" and s: "in_slot m d j x" and x: "x \<notin> E" for d j x
    proof -
      have "in_slot m1 d j x" using in_slot_cong [OF la(3) [OF live_bucket [OF l]]] s by simp
      then show ?thesis using la(4) [OF l s x] lb(4) [OF la(1) [OF l] _ x] by simp
    qed
    fix x assume x: "kernel_data P m pd x"
    note da = heap_ext_data [OF a x]
    note db = heap_ext_data [OF b da(1)]
    show "kernel_data P m2 pd x" by (rule db(1))
    show "page_of x \<notin> set bs2" if "page_of x \<notin> set bs" using da(2) db(2) that by simp
    show "m2 x = m x" if "page_of x \<notin> set bs" "x \<notin> E" using da(2,3) db(3) that by simp
  qed
qed

lemma heap_ext_mono: "heap_ext P pd E m bs m' bs' \<Longrightarrow> E \<subseteq> F \<Longrightarrow> heap_ext P pd F m bs m' bs'"
  unfolding heap_ext_def by blast

lemma malloc_ext:
  assumes inv: "kernel_inv P h bs pd" and post: "malloc_post P sz h bs ptr h' bs' b i"
  shows "heap_ext P pd E (hp_mem h) bs (hp_mem h') bs'"
proof -
  let ?m = "hp_mem h" and ?m' = "hp_mem h'"
  note km = kmalloc_kernel_inv [OF inv post]
  show ?thesis
  proof (rule heap_extI)
    show "set bs \<subseteq> set bs'" "live ?m bs \<subseteq> live ?m' bs'" using post by (auto simp: malloc_post_def)
    show "?m' x = ?m x" if "page_of x = pd" for x by (rule km(5) [OF that])
    show "b_power_size ?m' d = b_power_size ?m d" if "d \<in> set bs" for d using post that by (simp add: malloc_post_def)
    show "?m' x = ?m x" if "(d, j) \<in> live ?m bs" "in_slot ?m d j x" for d j x
      using post blocks_keptD that unfolding malloc_post_def by blast
    fix x assume x: "kernel_data P ?m pd x"
    show "kernel_data P ?m' pd x" by (rule keepsD(4) [OF km(2) x])
    show "page_of x \<notin> set bs'" if "page_of x \<notin> set bs" using km(4) [of "page_of x"] x that by (auto simp: kernel_data_def)
    show "?m' x = ?m x" if "page_of x \<notin> set bs" using keepsD(5) [OF km(2) x] that by simp
  qed
qed

text \<open>Filling a block that is newer than \<open>m\<close>.\<close>

lemma slot_fill:
  assumes inv: "kernel_inv P h bs' pd" and l: "(b, i) \<in> live (hp_mem h) bs'" and new: "(b, i) \<notin> live m bs"
    and ext: "heap_ext P pd E m bs (hp_mem h) bs'"
    and same: "\<forall>x. \<not> in_slot (hp_mem h) b i x \<longrightarrow> m' x = hp_mem h x"
  shows "kernel_inv P (h\<lparr>hp_mem := m'\<rparr>) bs' pd" and "heap_ext P pd E m bs m' bs'"
    and "live m' bs' = live (hp_mem h) bs'" and "c \<in> set bs' \<Longrightarrow> b_power_size m' c = b_power_size (hp_mem h) c"
    and "frame_used P k m' = frame_used P k (hp_mem h)"
proof -
  let ?m = "hp_mem h"
  have hi: "heap_inv P h bs'" using inv by (simp add: kernel_inv_def)
  note s = live_slot [OF hi l]
  have sw: "kernel_inv P (h\<lparr>hp_mem := m'\<rparr>) bs' pd" "live m' bs' = live ?m bs'"
      "c \<in> set bs' \<Longrightarrow> b_power_size m' c = b_power_size ?m c" for c
    by (rule slot_write_kernel_inv [OF inv l]; use same in blast)+
  show "kernel_inv P (h\<lparr>hp_mem := m'\<rparr>) bs' pd" "live m' bs' = live ?m bs'" by (rule sw)+
  show pw: "c \<in> set bs' \<Longrightarrow> b_power_size m' c = b_power_size ?m c" for c by (rule sw(3))
  have out: "\<forall>x. page_of x \<notin> set bs' \<longrightarrow> m' x = ?m x" using same s in_slot_offset(1) [of ?m b i] by auto
  have hi': "heap_inv P (h\<lparr>hp_mem := m'\<rparr>) bs'" using sw(1) by (simp add: kernel_inv_def)
  note bw = bucket_writes [OF inv hi' out]
  show "frame_used P k m' = frame_used P k ?m" by (rule bw(4))
  note el = heap_ext_live [OF ext]
  show "heap_ext P pd E m bs m' bs'"
  proof (rule heap_extI)
    show "set bs \<subseteq> set bs'" by (rule subsetI) (rule el(2))
    show "live m bs \<subseteq> live m' bs'" unfolding sw(2) by (rule subrelI) (rule el(1))
    have "pd \<notin> set bs'" using inv by (auto simp: kernel_inv_def outside_pd_def)
    then show "m' x = m x" if "page_of x = pd" for x using heap_ext_dir [OF ext that] out that by simp
    show "b_power_size m' d = b_power_size m d" if "d \<in> set bs" for d using el(2,3) [OF that] sw(3) by simp
    show "m' x = m x" if dj: "(d, j) \<in> live m bs" and x: "in_slot m d j x" "x \<notin> E" for d j x
    proof -
      have x1: "in_slot ?m d j x" using in_slot_cong [OF el(3) [OF live_bucket [OF dj]]] x(1) by simp
      have "\<not> in_slot ?m b i x"
      proof
        assume "in_slot ?m b i x"
        then have "b = d \<and> i = j" using s live_slot [OF hi el(1) [OF dj]] slots_disjoint [of ?m b i d j x] x1 by blast
        with new dj show False by simp
      qed
      with same el(4) [OF dj x] show ?thesis by simp
    qed
    fix x assume x: "kernel_data P m pd x"
    note da = heap_ext_data [OF ext x]
    show "kernel_data P m' pd x" by (rule keepsD(4) [OF bw(2) da(1)])
    show "page_of x \<notin> set bs'" if "page_of x \<notin> set bs" using da(2) that by simp
    show "m' x = m x" if "page_of x \<notin> set bs" "x \<notin> E" using da(2,3) that out by simp
  qed
qed

section \<open>Blocks with contents\<close>

text \<open>A block in use of at least \<open>sz\<close> bytes, none of them in \<open>E\<close>.\<close>

definition block_at :: "memory \<Rightarrow> u32 list \<Rightarrow> u32 set \<Rightarrow> u32 \<Rightarrow> u32 \<Rightarrow> bool" where
  "block_at m bs E a sz \<longleftrightarrow> (\<exists>b i. (b, i) \<in> live m bs \<and> a = slot_addr b (b_power_size m b) i \<and>
     sz \<le> b_power_size m b \<and> (\<forall>x. in_slot m b i x \<longrightarrow> x \<notin> E))"

lemma block_at_ext:
  assumes ext: "heap_ext P pd E m bs m' bs'" and b: "block_at m bs E a sz"
  shows "block_at m' bs' E a sz" and "in_block a sz x \<Longrightarrow> m' x = m x"
proof -
  from b obtain b i where l: "(b, i) \<in> live m bs" and a: "a = slot_addr b (b_power_size m b) i" "sz \<le> b_power_size m b"
    and E: "\<And>x. in_slot m b i x \<Longrightarrow> x \<notin> E" by (auto simp: block_at_def)
  note el = heap_ext_live [OF ext]
  have pw: "b_power_size m' b = b_power_size m b" using el(3) [OF live_bucket [OF l]] .
  show "block_at m' bs' E a sz"
    unfolding block_at_def using el(1) [OF l] a E pw in_slot_cong [OF pw] by (intro exI [of _ b] exI [of _ i]) simp
  show "m' x = m x" if "in_block a sz x"
  proof -
    have "in_slot m b i x" using that a by (auto simp: in_slot_def in_block_def elim: less_le_trans)
    with el(4) [OF l] E show ?thesis by blast
  qed
qed

lemma block_at_bytes:
  assumes hi: "heap_inv P h bs" and b: "block_at (hp_mem h) bs E a sz" and x: "in_block a sz x"
  shows "page_of x \<in> set bs" and "x \<notin> E"
proof -
  from b obtain b i where l: "(b, i) \<in> live (hp_mem h) bs" and a: "a = slot_addr b (b_power_size (hp_mem h) b) i" "sz \<le> b_power_size (hp_mem h) b"
    and E: "\<And>x. in_slot (hp_mem h) b i x \<Longrightarrow> x \<notin> E" by (auto simp: block_at_def)
  have s: "in_slot (hp_mem h) b i x" using x a by (auto simp: in_slot_def in_block_def elim: less_le_trans)
  with live_slot [OF hi l] in_slot_offset(1) [of "hp_mem h" b i x] show "page_of x \<in> set bs" by auto
  from s E show "x \<notin> E" by blast
qed

lemma block_at_nonzero:
  assumes hi: "heap_inv P h bs" and b: "block_at (hp_mem h) bs E a sz"
  shows "a \<noteq> 0"
proof -
  from b obtain b i where l: "(b, i) \<in> live (hp_mem h) bs" and a: "a = slot_addr b (b_power_size (hp_mem h) b) i"
    by (auto simp: block_at_def)
  then show ?thesis using kfree_slot_addr(3) [OF hi, of b i] live_slot [OF hi l] by simp
qed

lemma block_at_mono: "block_at m bs E a sz \<Longrightarrow> k \<le> sz \<Longrightarrow> block_at m bs E a k"
  unfolding block_at_def using order_trans by blast

lemma block_at_more:
  assumes "block_at m bs E a sz" and "\<And>d j x. (d, j) \<in> live m bs \<Longrightarrow> in_slot m d j x \<Longrightarrow> x \<in> F \<Longrightarrow> x \<in> E"
  shows "block_at m bs F a sz"
  using assms unfolding block_at_def by blast

section \<open>An archive and its list\<close>

text \<open>
  The members of the archive at \<open>a\<close>, the first of them the \<open>i\<close>-th: the address of its header and its size.
  The archive lies among the kernel's data, outside the heap. The size is the octal number of the header,
  and the next header follows the data padded to blocks of 512 bytes. Member \<open>i\<close> has a name of more than \<open>i\<close>
  characters, because that is what the code tests for the end.
\<close>

fun archive :: "pmm \<Rightarrow> u32 \<Rightarrow> u32 list \<Rightarrow> memory \<Rightarrow> u32 \<Rightarrow> u32 \<Rightarrow> (u32 \<times> u32) list \<Rightarrow> bool" where
  "archive P pd bs m a i [] \<longleftrightarrow> m (a + i) = 0 \<and> kernel_data P m pd (a + i) \<and> page_of (a + i) \<notin> set bs"
| "archive P pd bs m a i ((ha, sz) # ms) \<longleftrightarrow> ha = a \<and> m (a + i) \<noteq> 0 \<and> i < 512 \<and> octal_field m (a + TAR_SIZE) (unat sz) \<and>
     sz \<le> 2048 \<and> (\<forall>k < 512 + sz. kernel_data P m pd (a + k) \<and> page_of (a + k) \<notin> set bs) \<and>
     archive P pd bs m (a + (1 + (sz + 511) div 512) * 512) (i + 1) ms"

text \<open>The code finds the size and the next header.\<close>

lemma next_member_ceil: "sz \<le> 2048 \<Longrightarrow> next_member a sz = a + (1 + (sz + 511) div 512) * 512"
proof -
  assume "sz \<le> 2048"
  then have n: "unat sz \<le> 2048" by (simp add: word_le_nat_alt)
  then have "unat ((sz + 511) div 512) = (unat sz + 511) div 512" by (simp add: unat_div_distrib unat_word_ariths)
  moreover have "unat (sz mod 512) = unat sz mod 512" "unat (sz div 512) = unat sz div 512"
    by (simp_all add: unat_mod_distrib unat_div_distrib)
  moreover have "sz mod 512 = 0 \<longleftrightarrow> unat (sz mod 512) = 0" by (simp add: unat_eq_0)
  ultimately have "(sz + 511) div 512 = sz div 512 + (if sz mod 512 = 0 then 0 else 1)"
    using n by (auto simp: word_unat_eq_iff unat_word_ariths ceil_512)
  then show ?thesis by (auto simp: next_member_def Let_def algebra_simps)
qed

lemma archive_member:
  assumes "archive P pd bs m a i ((ha, sz) # ms)"
  shows "getsize m (a + TAR_SIZE) = sz" and "archive P pd bs m (next_member a sz) (i + 1) ms"
proof -
  have sz: "octal_field m (a + TAR_SIZE) (unat sz)" "sz \<le> 2048" "archive P pd bs m (a + (1 + (sz + 511) div 512) * 512) (i + 1) ms"
    using assms by (simp_all only: archive.simps)
  show "getsize m (a + TAR_SIZE) = sz" using getsize_octal [OF sz(1)] unat_bound32 [of sz] by simp
  show "archive P pd bs m (next_member a sz) (i + 1) ms" using sz(3) next_member_ceil [OF sz(2)] by simp
qed

text \<open>The list \<open>parse_tar\<close> makes of members of \<open>m0\<close>: copies of header and contents in blocks of the heap.\<close>

fun tar_list :: "memory \<Rightarrow> memory \<Rightarrow> u32 list \<Rightarrow> u32 set \<Rightarrow> u32 \<Rightarrow> (u32 \<times> u32) list \<Rightarrow> bool" where
  "tar_list m0 m bs E t [] \<longleftrightarrow> t = 0"
| "tar_list m0 m bs E t ((ha, sz) # ms) \<longleftrightarrow> t \<noteq> 0 \<and> block_at m bs E t SIZEOF_TAR \<and>
     (\<forall>k < 157. m (t + k) = m0 (ha + k)) \<and> block_at m bs E (load32 m (t + TAR_DATA)) sz \<and>
     (\<forall>k < sz. m (load32 m (t + TAR_DATA) + k) = m0 (ha + 512 + k)) \<and>
     tar_list m0 m bs E (load32 m (t + TAR_NEXT)) ms"

lemma archive_ext:
  assumes ext: "heap_ext P pd {} m bs m' bs'" and ar: "archive P pd bs m a i ms"
  shows "archive P pd bs' m' a i ms"
  using ar
proof (induction ms arbitrary: a i)
  case Nil
  then show ?case using heap_ext_data [OF ext, of "a + i"] by simp
next
  case (Cons mem ms)
  obtain ha sz where mem: "mem = (ha, sz)" by (cases mem)
  have k: "kernel_data P m pd (a + k) \<and> page_of (a + k) \<notin> set bs" if "k < 512 + sz" for k
    using Cons.prems that by (simp add: mem)
  have "sz \<le> 2048" using Cons.prems unfolding mem archive.simps by (elim conjE)
  then have "unat sz \<le> 2048" by (simp add: word_le_nat_alt)
  then have sz: "512 \<le> 512 + sz" by (simp add: word_le_nat_alt unat_word_ariths)
  have b: "m' (a + k) = m (a + k) \<and> kernel_data P m' pd (a + k) \<and> page_of (a + k) \<notin> set bs'" if "k < 512 + sz" for k
    using heap_ext_data [OF ext, of "a + k"] k [OF that] by simp
  have "m' (a + TAR_SIZE + k) = m (a + TAR_SIZE + k)" if "k < 11" for k
  proof -
    have "TAR_SIZE + k < 512" using that by (simp add: TAR_SIZE_def word_less_nat_alt unat_word_ariths)
    then show ?thesis using b [of "TAR_SIZE + k"] sz by (simp add: add.assoc)
  qed
  moreover have "(of_nat k :: u32) < 11" if "k < 11" for k using that by (simp add: word_less_nat_alt unat_of_nat)
  ultimately have "octal_field m' (a + TAR_SIZE) n = octal_field m (a + TAR_SIZE) n" for n by (simp add: octal_field_def)
  then show ?case using Cons b sz by (auto simp: mem)
qed

lemma tar_list_ext:
  assumes ext: "heap_ext P pd E m bs m' bs'" and tl: "tar_list m0 m bs E t ms"
  shows "tar_list m0 m' bs' E t ms"
  using tl
proof (induction ms arbitrary: t)
  case (Cons mem ms)
  obtain ha sz where mem: "mem = (ha, sz)" by (cases mem)
  from Cons.prems have t: "block_at m bs E t SIZEOF_TAR" "block_at m bs E (load32 m (t + TAR_DATA)) sz" by (simp_all add: mem)
  have f: "m' (t + k) = m (t + k)" if "k < 168" for k
    using block_at_ext(2) [OF ext t(1), of "t + k"] that by (simp add: in_block_def SIZEOF_TAR_def)
  have "load32 m' (t + TAR_DATA) = load32 m (t + TAR_DATA)" "load32 m' (t + TAR_NEXT) = load32 m (t + TAR_NEXT)"
    by (simp_all add: load32_def TAR_DATA_def TAR_NEXT_def add.assoc f)
  moreover have "m' (load32 m (t + TAR_DATA) + k) = m (load32 m (t + TAR_DATA) + k)" if "k < sz" for k
    using block_at_ext(2) [OF ext t(2)] that by (simp add: in_block_def)
  moreover have "m' (t + k) = m (t + k)" if "k < 157" for k using that by (intro f) (simp add: less_trans)
  ultimately show ?case using Cons t block_at_ext(1) [OF ext] by (simp add: mem)
qed simp

section \<open>One member\<close>

text \<open>A block of the heap that \<open>m\<close> does not have yet.\<close>

definition fresh_block :: "memory \<Rightarrow> u32 list \<Rightarrow> memory \<Rightarrow> u32 list \<Rightarrow> u32 \<times> u32 \<Rightarrow> u32 \<Rightarrow> u32 \<Rightarrow> bool" where
  "fresh_block m bs m' bs' l a sz \<longleftrightarrow> l \<in> live m' bs' \<and> l \<notin> live m bs \<and>
     a = slot_addr (fst l) (b_power_size m' (fst l)) (snd l) \<and> sz \<le> b_power_size m' (fst l)"

lemma fresh_block_in_slot:
  "fresh_block m bs m' bs' l a sz \<Longrightarrow> in_block a sz x \<Longrightarrow> in_slot m' (fst l) (snd l) x"
  by (auto simp: fresh_block_def in_slot_def in_block_def elim: less_le_trans)

lemma fresh_block_at: "fresh_block m bs m' bs' l a sz \<Longrightarrow> block_at m' bs' {} a sz"
  by (cases l) (auto simp: fresh_block_def block_at_def)

lemma fresh_block_ext: "fresh_block m bs m1 bs1 l a sz \<Longrightarrow> heap_ext P pd E m1 bs1 m2 bs2 \<Longrightarrow> fresh_block m bs m2 bs2 l a sz"
  using heap_ext_live(1,3) [of P pd E m1 bs1 m2 bs2] live_bucket [of "fst l" "snd l" m1 bs1]
  by (cases l) (auto simp: fresh_block_def)

lemma fresh_block_before: "fresh_block m bs m' bs' l a sz \<Longrightarrow> heap_ext P pd E m0 bs0 m bs \<Longrightarrow> fresh_block m0 bs0 m' bs' l a sz"
  using heap_ext_live(1) [of P pd E m0 bs0 m bs] by (cases l) (auto simp: fresh_block_def)

lemma malloc_block:
  assumes inv: "kernel_inv P h bs pd" and sz: "sz \<le> 2048" and n: "Suc n \<le> card (free_frames P (hp_mem h))"
  obtains a h1 bs1 l where "kmalloc P sz h = Some (a, h1)" "kernel_inv P h1 bs1 pd" "heap_ext P pd {} (hp_mem h) bs (hp_mem h1) bs1"
    "fresh_block (hp_mem h) bs (hp_mem h1) bs1 l a sz" "n \<le> card (free_frames P (hp_mem h1))"
proof -
  have fa: "fa_inv (P, hp_mem h)" and hi: "heap_inv P h bs" using inv by (simp_all add: kernel_inv_def heap_inv_def)
  have nz: "fst (allocate_frame P (hp_mem h)) \<noteq> 0" using alloc_free_frames(1) [OF fa n] .
  from kmalloc_correct [OF hi sz nz] obtain a h1 bs1 b i
    where k: "kmalloc P sz h = Some (a, h1)" and post: "malloc_post P sz h bs a h1 bs1 b i" by blast
  show thesis
  proof (rule that [OF k])
    show "fresh_block (hp_mem h) bs (hp_mem h1) bs1 (b, i) a sz" using post by (simp add: fresh_block_def malloc_post_def)
  qed (rule kmalloc_kernel_inv(1) [OF inv post] malloc_ext [OF inv post] malloc_free_frames [OF fa nz post n])+
qed

lemma block_fill:
  assumes inv: "kernel_inv P h bs' pd" and ext: "heap_ext P pd {} m bs (hp_mem h) bs'"
    and b: "fresh_block m bs (hp_mem h) bs' l a sz"
    and same: "\<forall>x. \<not> in_block a sz x \<longrightarrow> m' x = hp_mem h x"
  shows "kernel_inv P (h\<lparr>hp_mem := m'\<rparr>) bs' pd" and "heap_ext P pd {} m bs m' bs'"
    and "fresh_block m bs (hp_mem h) bs' l2 a2 sz2 \<Longrightarrow> fresh_block m bs m' bs' l2 a2 sz2"
    and "free_frames P m' = free_frames P (hp_mem h)" and "page_of x \<notin> set bs' \<Longrightarrow> m' x = hp_mem h x"
    and "fresh_block m bs (hp_mem h) bs' l2 a2 sz2 \<Longrightarrow> l2 \<noteq> l \<Longrightarrow> in_block a2 sz2 x \<Longrightarrow> m' x = hp_mem h x"
proof -
  obtain d i where l: "l = (d, i)" by (cases l)
  have lv: "(d, i) \<in> live (hp_mem h) bs'" "(d, i) \<notin> live m bs" using b by (simp_all add: fresh_block_def l)
  have hi: "heap_inv P h bs'" using inv by (simp add: kernel_inv_def)
  note s = live_slot [OF hi lv(1)]
  have out: "\<forall>x. \<not> in_slot (hp_mem h) d i x \<longrightarrow> m' x = hp_mem h x"
    using same fresh_block_in_slot [OF b] by (auto simp: l)
  note sf = slot_fill [OF inv lv ext out]
  show "kernel_inv P (h\<lparr>hp_mem := m'\<rparr>) bs' pd" "heap_ext P pd {} m bs m' bs'" by (rule sf)+
  show "fresh_block m bs (hp_mem h) bs' l2 a2 sz2 \<Longrightarrow> fresh_block m bs m' bs' l2 a2 sz2"
    using sf(3,4) live_bucket [of "fst l2" "snd l2" "hp_mem h" bs'] by (cases l2) (auto simp: fresh_block_def)
  show "free_frames P m' = free_frames P (hp_mem h)" by (rule free_frames_cong) (rule sf(5))
  show "m' x = hp_mem h x" if "page_of x \<notin> set bs'"
    using that s in_slot_offset(1) [of "hp_mem h" d i x] by (intro out [rule_format]) auto
  show "m' x = hp_mem h x" if b2: "fresh_block m bs (hp_mem h) bs' l2 a2 sz2" and ne: "l2 \<noteq> l" and x: "in_block a2 sz2 x"
  proof -
    have "(fst l2, snd l2) \<in> live (hp_mem h) bs'" using b2 by (simp add: fresh_block_def)
    from live_slot [OF hi this] s have "\<not> in_slot (hp_mem h) d i x"
      using slots_disjoint [of "hp_mem h" "fst l2" "snd l2" d i x] fresh_block_in_slot [OF b2 x] ne l by (auto simp: prod_eq_iff)
    with out show ?thesis by blast
  qed
qed

lemma block_fill_mem:
  assumes "kernel_inv P (h\<lparr>hp_mem := m1\<rparr>) bs' pd" and "heap_ext P pd {} m bs m1 bs'"
    and "fresh_block m bs m1 bs' l a sz" and "\<forall>x. \<not> in_block a sz x \<longrightarrow> m' x = m1 x"
  shows "kernel_inv P (h\<lparr>hp_mem := m'\<rparr>) bs' pd" and "heap_ext P pd {} m bs m' bs'"
    and "fresh_block m bs m1 bs' l2 a2 sz2 \<Longrightarrow> fresh_block m bs m' bs' l2 a2 sz2"
    and "free_frames P m' = free_frames P m1" and "page_of x \<notin> set bs' \<Longrightarrow> m' x = m1 x"
    and "fresh_block m bs m1 bs' l2 a2 sz2 \<Longrightarrow> l2 \<noteq> l \<Longrightarrow> in_block a2 sz2 x \<Longrightarrow> m' x = m1 x"
  using block_fill [OF assms(1), of m bs l a sz m', unfolded heap_mem_update, OF assms(2-4)] by blast+

text \<open>Copying into a bucket from outside the heap.\<close>

lemma memcpy_bucket:
  assumes "sz \<noteq> 0 \<Longrightarrow> page_of dst \<in> set bs" and "\<And>k. k < sz \<Longrightarrow> page_of (src + k) \<notin> set bs"
  shows "memcpy dst src sz m x = (if in_block dst sz x then m (src + (x - dst)) else m x)"
proof (rule memcpy_apply)
  show "dst = src \<or> sz \<le> dst - src"
  proof (rule ccontr)
    assume ov: "\<not> (dst = src \<or> sz \<le> dst - src)"
    then have "sz \<noteq> 0" by auto
    from ov have "page_of (src + (dst - src)) \<notin> set bs" by (intro assms(2)) (simp add: not_le)
    with assms(1) [OF \<open>sz \<noteq> 0\<close>] show False by simp
  qed
qed

text \<open>The node with its copied header.\<close>

lemma tar_header_done:
  assumes inv: "kernel_inv P h bs pd" and n: "Suc n \<le> card (free_frames P (hp_mem h))"
    and src0: "\<forall>k < SIZEOF_TAR. kernel_data P (hp_mem h) pd (a + k) \<and> page_of (a + k) \<notin> set bs"
  obtains t h1 bs1 l m2 where "kmalloc P SIZEOF_TAR h = Some (t, h1)" "m2 = memcpy t a SIZEOF_TAR (hp_mem h1)"
    "kernel_inv P (h1\<lparr>hp_mem := m2\<rparr>) bs1 pd" "heap_ext P pd {} (hp_mem h) bs m2 bs1"
    "fresh_block (hp_mem h) bs m2 bs1 l t SIZEOF_TAR" "\<And>k. k < SIZEOF_TAR \<Longrightarrow> m2 (t + k) = hp_mem h (a + k)"
    "n \<le> card (free_frames P m2)"
proof -
  let ?m = "hp_mem h"
  note src = src0 [rule_format]
  have "SIZEOF_TAR \<le> 2048" by (simp add: SIZEOF_TAR_def)
  from malloc_block [OF inv this n] obtain t h1 bs1 l
    where k1: "kmalloc P SIZEOF_TAR h = Some (t, h1)" and inv1: "kernel_inv P h1 bs1 pd"
    and e1: "heap_ext P pd {} ?m bs (hp_mem h1) bs1" and b1: "fresh_block ?m bs (hp_mem h1) bs1 l t SIZEOF_TAR"
    and n1: "n \<le> card (free_frames P (hp_mem h1))" by blast
  have hi1: "heap_inv P h1 bs1" using inv1 by (simp add: kernel_inv_def)
  define m2 where "m2 = memcpy t a SIZEOF_TAR (hp_mem h1)"
  have m2: "m2 x = (if in_block t SIZEOF_TAR x then hp_mem h1 (a + (x - t)) else hp_mem h1 x)" for x
    unfolding m2_def
  proof (rule memcpy_bucket)
    show "page_of t \<in> set bs1" using block_at_bytes(1) [OF hi1 fresh_block_at [OF b1], of t] by (simp add: in_block_def SIZEOF_TAR_def)
    show "page_of (a + k) \<notin> set bs1" if "k < SIZEOF_TAR" for k using heap_ext_data(2) [OF e1] src [OF that] by blast
  qed
  then have "\<forall>x. \<not> in_block t SIZEOF_TAR x \<longrightarrow> m2 x = hp_mem h1 x" by simp
  note f2 = block_fill [OF inv1 e1 b1 this]
  have "m2 (t + k) = ?m (a + k)" if "k < SIZEOF_TAR" for k
    using m2 [of "t + k"] heap_ext_data(3) [OF e1, of "a + k"] src [OF that] that by (simp add: in_block_def)
  then show thesis using n1 f2(4) by (intro that [OF k1 m2_def f2(1,2) f2(3) [OF b1]]) simp_all
qed

text \<open>The contents and the fields.\<close>

definition tar_fields :: "u32 \<Rightarrow> u32 \<Rightarrow> u32 \<Rightarrow> u32 \<Rightarrow> u32 \<Rightarrow> memory \<Rightarrow> memory" where
  "tar_fields t d a sz out m = store32 (t + TAR_NEXT) out (store32 (t + TAR_NEXT) 0 (memcpy d (a + 512) sz (store32 (t + TAR_DATA) d m)))"

lemma tar_field_block: "x - (t + k) < 4 \<Longrightarrow> k \<le> 164 \<Longrightarrow> in_block t SIZEOF_TAR x"
proof -
  assume a: "x - (t + k) < 4" "k \<le> 164"
  define e where "e = x - (t + k)"
  have "x - t = k + e" by (simp add: e_def)
  moreover have "k + e < 168" using a by (simp add: e_def [symmetric] word_less_nat_alt word_le_nat_alt unat_word_ariths)
  ultimately show ?thesis by (simp add: in_block_def SIZEOF_TAR_def)
qed

lemma tar_field_far: "\<not> in_block t SIZEOF_TAR x \<Longrightarrow> k \<le> 164 \<Longrightarrow> 4 \<le> x - (t + k)"
  using tar_field_block not_less by blast

lemma tar_fields_done:
  assumes inv: "kernel_inv P h bs1 pd" and n: "Suc n \<le> card (free_frames P (hp_mem h))" and sz: "sz \<le> 2048"
    and ext: "heap_ext P pd {} m bs (hp_mem h) bs1" and t: "fresh_block m bs (hp_mem h) bs1 l t SIZEOF_TAR"
    and src0: "\<forall>k < sz. kernel_data P (hp_mem h) pd (a + 512 + k) \<and> page_of (a + 512 + k) \<notin> set bs1"
  obtains d h3 bs3 m7 where "kmalloc P sz h = Some (d, h3)" "m7 = tar_fields t d a sz out (hp_mem h3)"
    "kernel_inv P (h3\<lparr>hp_mem := m7\<rparr>) bs3 pd" "heap_ext P pd {} m bs m7 bs3"
    "block_at m7 bs3 {} t SIZEOF_TAR" "block_at m7 bs3 {} d sz" "\<And>k. k < 160 \<Longrightarrow> m7 (t + k) = hp_mem h (t + k)"
    "load32 m7 (t + TAR_DATA) = d" "load32 m7 (t + TAR_NEXT) = out"
    "\<And>k. k < sz \<Longrightarrow> m7 (d + k) = hp_mem h (a + 512 + k)" "n \<le> card (free_frames P m7)"
proof -
  let ?m2 = "hp_mem h"
  note src = src0 [rule_format]
  from malloc_block [OF inv sz n] obtain d h3 bs3 l3
    where k3: "kmalloc P sz h = Some (d, h3)" and inv3: "kernel_inv P h3 bs3 pd"
    and e3: "heap_ext P pd {} ?m2 bs1 (hp_mem h3) bs3" and b3: "fresh_block ?m2 bs1 (hp_mem h3) bs3 l3 d sz"
    and n3: "n \<le> card (free_frames P (hp_mem h3))" by blast
  have e: "heap_ext P pd {} m bs (hp_mem h3) bs3" using ext e3 by (rule heap_ext_trans)
  have t3: "fresh_block m bs (hp_mem h3) bs3 l t SIZEOF_TAR" using t e3 by (rule fresh_block_ext)
  have d3: "fresh_block m bs (hp_mem h3) bs3 l3 d sz" using b3 ext by (rule fresh_block_before)
  have ne: "l3 \<noteq> l" using b3 t by (auto simp: fresh_block_def)
  let ?m3 = "hp_mem h3"
  define m4 where "m4 = store32 (t + TAR_DATA) d ?m3"
  have s4: "\<forall>x. \<not> in_block t SIZEOF_TAR x \<longrightarrow> m4 x = ?m3 x"
    by (simp add: m4_def TAR_DATA_def store32_other tar_field_far)
  have inv3': "kernel_inv P (h3\<lparr>hp_mem := ?m3\<rparr>) bs3 pd" using inv3 by simp
  note f4 = block_fill_mem [OF inv3' e t3 s4]
  note t4 = f4(3) [OF t3] and d4 = f4(3) [OF d3]
  define m5 where "m5 = memcpy d (a + 512) sz m4"
  have src3: "page_of (a + 512 + k) \<notin> set bs3" "?m3 (a + 512 + k) = ?m2 (a + 512 + k)" if "k < sz" for k
    using heap_ext_data [OF e3, of "a + 512 + k"] src [OF that] by simp_all
  have m5: "m5 x = (if in_block d sz x then m4 (a + 512 + (x - d)) else m4 x)" for x
    unfolding m5_def
  proof (rule memcpy_bucket)
    have hi3: "heap_inv P h3 bs3" using inv3 by (simp add: kernel_inv_def)
    show "page_of d \<in> set bs3" if "sz \<noteq> 0"
      using block_at_bytes(1) [OF hi3 fresh_block_at [OF d3], of d] that by (simp add: in_block_def word_gt_0)
  qed (rule src3(1))
  then have s5: "\<forall>x. \<not> in_block d sz x \<longrightarrow> m5 x = m4 x" by simp
  note f5 = block_fill_mem [OF f4(1,2) d4 s5]
  note t5 = f5(3) [OF t4] and d5 = f5(3) [OF d4]
  define m7 where "m7 = store32 (t + TAR_NEXT) out (store32 (t + TAR_NEXT) 0 m5)"
  have s7: "\<forall>x. \<not> in_block t SIZEOF_TAR x \<longrightarrow> m7 x = m5 x"
    by (simp add: m7_def TAR_NEXT_def store32_other tar_field_far)
  note f7 = block_fill_mem [OF f5(1,2) t5 s7]
  have lo: "m7 (t + k) = m5 (t + k)" "m5 (t + k) = m4 (t + k)" if "k < 164" for k
  proof -
    have "4 \<le> k - 164" using that by (simp add: word_le_nat_alt word_less_nat_alt unat_sub_if')
    then show "m7 (t + k) = m5 (t + k)" by (simp add: m7_def TAR_NEXT_def store32_other)
    have "in_block t SIZEOF_TAR (t + k)" using that by (simp add: in_block_def SIZEOF_TAR_def less_trans)
    then show "m5 (t + k) = m4 (t + k)" using f5(6) [OF t4] ne by simp
  qed
  show thesis
  proof (rule that [OF k3 _ f7(1,2)])
    show "m7 = tar_fields t d a sz out (hp_mem h3)" by (simp add: m7_def m5_def m4_def tar_fields_def)
    show "block_at m7 bs3 {} t SIZEOF_TAR" "block_at m7 bs3 {} d sz"
      using fresh_block_at [OF f7(3) [OF t5]] fresh_block_at [OF f7(3) [OF d5]] .
    show "m7 (t + k) = ?m2 (t + k)" if "k < 160" for k
    proof -
      have "4 \<le> k - 160" using that by (simp add: word_le_nat_alt word_less_nat_alt unat_sub_if')
      then have "m4 (t + k) = ?m3 (t + k)" by (simp add: m4_def TAR_DATA_def store32_other)
      moreover have "in_block t SIZEOF_TAR (t + k)" using that by (simp add: in_block_def SIZEOF_TAR_def less_trans)
      moreover have "k < 164" using that by (rule less_trans) simp
      ultimately show ?thesis using lo [of k] block_at_ext(2) [OF e3 fresh_block_at [OF t]] by simp
    qed
    show "load32 m7 (t + TAR_DATA) = d"
    proof -
      have "load32 m7 (t + TAR_DATA) = load32 m4 (t + TAR_DATA)" using lo by (simp add: load32_def TAR_DATA_def add.assoc)
      then show ?thesis by (simp add: m4_def)
    qed
    show "load32 m7 (t + TAR_NEXT) = out" by (simp add: m7_def)
    show "m7 (d + k) = ?m2 (a + 512 + k)" if "k < sz" for k
      using f7(6) [OF d5 ne, of "d + k"] m5 [of "d + k"] f4(5) [OF src3(1) [OF that]] src3(2) [OF that] that
      by (simp add: in_block_def)
    show "n \<le> card (free_frames P m7)" using n3 f4(4) f5(4) f7(4) by simp
  qed
qed

lemma tar_round_done:
  assumes inv: "kernel_inv P h bs pd" and n: "n + 2 \<le> card (free_frames P (hp_mem h))"
    and sz: "getsize (hp_mem h) (a + TAR_SIZE) = sz" "sz \<le> 2048"
    and src: "\<And>k. k < 512 + sz \<Longrightarrow> kernel_data P (hp_mem h) pd (a + k) \<and> page_of (a + k) \<notin> set bs"
    and tl: "tar_list m0 (hp_mem h) bs {} out ms" and same: "\<And>k. k < 512 + sz \<Longrightarrow> m0 (a + k) = hp_mem h (a + k)"
  obtains t h' bs' where "tar_round P a out h = Some (sz, t, h')" "kernel_inv P h' bs' pd"
    "heap_ext P pd {} (hp_mem h) bs (hp_mem h') bs'" "tar_list m0 (hp_mem h') bs' {} t ((a, sz) # ms)"
    "n \<le> card (free_frames P (hp_mem h'))"
proof -
  let ?m = "hp_mem h"
  have small: "k < 512 \<Longrightarrow> k < 512 + sz" "k < sz \<Longrightarrow> 512 + k < 512 + sz" for k
    using sz(2) by (simp_all add: word_less_nat_alt word_le_nat_alt unat_word_ariths)
  have n2: "Suc (Suc n) \<le> card (free_frames P ?m)" using n by simp
  have src1: "\<forall>k < SIZEOF_TAR. kernel_data P ?m pd (a + k) \<and> page_of (a + k) \<notin> set bs"
    by (intro allI impI src small) (simp add: SIZEOF_TAR_def less_trans)
  obtain t h1 bs1 l m2 where
    k1: "kmalloc P SIZEOF_TAR h = Some (t, h1)" "m2 = memcpy t a SIZEOF_TAR (hp_mem h1)"
    and inv2: "kernel_inv P (h1\<lparr>hp_mem := m2\<rparr>) bs1 pd" and e2: "heap_ext P pd {} ?m bs m2 bs1"
    and t2: "fresh_block ?m bs m2 bs1 l t SIZEOF_TAR" and hd2: "\<And>k. k < SIZEOF_TAR \<Longrightarrow> m2 (t + k) = ?m (a + k)"
    and n2: "Suc n \<le> card (free_frames P m2)"
    by (rule tar_header_done [OF inv n2 src1]) (rule that; assumption)
  have d2: "kernel_data P m2 pd (a + 512 + k) \<and> page_of (a + 512 + k) \<notin> set bs1" "m2 (a + 512 + k) = m0 (a + 512 + k)"
    if "k < sz" for k
    using heap_ext_data [OF e2, of "a + 512 + k"] src [OF small(2) [OF that]] same [OF small(2) [OF that]] by (simp_all add: add.assoc)
  then have d2': "\<forall>k < sz. kernel_data P m2 pd (a + 512 + k) \<and> page_of (a + 512 + k) \<notin> set bs1" by blast
  obtain d h3 bs3 m7 where k3: "kmalloc P sz (h1\<lparr>hp_mem := m2\<rparr>) = Some (d, h3)" "m7 = tar_fields t d a sz out (hp_mem h3)"
    and inv7: "kernel_inv P (h3\<lparr>hp_mem := m7\<rparr>) bs3 pd" and e7: "heap_ext P pd {} ?m bs m7 bs3"
    and b7: "block_at m7 bs3 {} t SIZEOF_TAR" "block_at m7 bs3 {} d sz" and hd7: "\<And>k. k < 160 \<Longrightarrow> m7 (t + k) = m2 (t + k)"
    and f7: "load32 m7 (t + TAR_DATA) = d" "load32 m7 (t + TAR_NEXT) = out" and dt7: "\<And>k. k < sz \<Longrightarrow> m7 (d + k) = m2 (a + 512 + k)"
    and n7: "n \<le> card (free_frames P m7)"
    by (rule tar_fields_done [OF inv2, unfolded heap_mem_update, OF n2 sz(2) e2 t2 d2', of out]) (rule that; assumption)
  have hi: "heap_inv P (h3\<lparr>hp_mem := m7\<rparr>) bs3" using inv7 by (simp add: kernel_inv_def)
  have "t \<noteq> 0" using block_at_nonzero [OF hi] b7(1) by simp
  moreover have "m7 (t + k) = m0 (a + k)" if "k < 157" for k
  proof -
    have k: "k < 160" "k < SIZEOF_TAR" "k < 512" using that by (auto simp: SIZEOF_TAR_def elim: less_trans)
    show ?thesis using hd7 [OF k(1)] hd2 [OF k(2)] same [OF small(1) [OF k(3)]] by simp
  qed
  ultimately have tl7: "tar_list m0 m7 bs3 {} t ((a, sz) # ms)"
    using b7 f7 dt7 d2(2) tar_list_ext [OF e7 tl] by simp
  have r: "tar_round P a out h = Some (sz, t, h3\<lparr>hp_mem := m7\<rparr>)"
    using k1 k3 sz(1) by (simp add: tar_round_def Let_def tar_fields_def)
  show thesis by (rule that [OF r inv7, unfolded heap_mem_update, OF e7 tl7 n7])
qed

section \<open>The whole archive\<close>

lemma tar_loop_done:
  assumes "kernel_inv P h bs pd" and "archive P pd bs0 m0 a i ms" and "heap_ext P pd {} m0 bs0 (hp_mem h) bs"
    and "tar_list m0 (hp_mem h) bs {} out ms0" and "n + 2 * length ms \<le> card (free_frames P (hp_mem h))"
  shows "\<exists>t h' bs'. tar_loop P a i out h = Some (t, h') \<and> kernel_inv P h' bs' pd \<and>
    heap_ext P pd {} m0 bs0 (hp_mem h') bs' \<and> tar_list m0 (hp_mem h') bs' {} t (rev ms @ ms0) \<and>
    n \<le> card (free_frames P (hp_mem h'))"
  using assms
proof (induction ms arbitrary: h bs a i out ms0)
  case Nil
  have "archive P pd bs (hp_mem h) a i []" by (rule archive_ext [OF Nil.prems(3,2)])
  with Nil show ?case by (subst tar_loop.simps) auto
next
  case (Cons mem ms)
  let ?m = "hp_mem h"
  obtain ha sz where mem: "mem = (ha, sz)" by (cases mem)
  have ar: "archive P pd bs ?m a i ((ha, sz) # ms)" using archive_ext [OF Cons.prems(3,2)] by (simp only: mem)
  from ar archive_member(1) [OF ar] have one: "ha = a" "?m (a + i) \<noteq> 0" "getsize ?m (a + TAR_SIZE) = sz" "sz \<le> 2048"
    "\<And>k. k < 512 + sz \<Longrightarrow> kernel_data P ?m pd (a + k) \<and> page_of (a + k) \<notin> set bs" by auto
  have same: "m0 (a + k) = ?m (a + k)" if "k < 512 + sz" for k
    using Cons.prems(2) heap_ext_data(3) [OF Cons.prems(3), of "a + k"] that by (simp add: mem)
  have n: "(n + 2 * length ms) + 2 \<le> card (free_frames P ?m)" using Cons.prems(5) by simp
  obtain t h1 bs1 where r: "tar_round P a out h = Some (sz, t, h1)" and inv1: "kernel_inv P h1 bs1 pd"
    and e1: "heap_ext P pd {} ?m bs (hp_mem h1) bs1" and tl1: "tar_list m0 (hp_mem h1) bs1 {} t ((a, sz) # ms0)"
    and n1: "n + 2 * length ms \<le> card (free_frames P (hp_mem h1))"
    by (rule tar_round_done [OF Cons.prems(1) n one(3-5) Cons.prems(4) same]) (assumption | rule that; assumption)+
  have "archive P pd bs0 m0 (next_member a sz) (i + 1) ms" using archive_member(2) Cons.prems(2) mem by blast
  from Cons.IH [OF inv1 this heap_ext_trans [OF Cons.prems(3) e1] tl1 n1] obtain t' h' bs' where
    "tar_loop P (next_member a sz) (i + 1) t h1 = Some (t', h')" "kernel_inv P h' bs' pd"
    "heap_ext P pd {} m0 bs0 (hp_mem h') bs'" "tar_list m0 (hp_mem h') bs' {} t' (rev ms @ (a, sz) # ms0)"
    "n \<le> card (free_frames P (hp_mem h'))" by blast
  moreover have "tar_loop P a i out h = tar_loop P (next_member a sz) (i + 1) t h1"
    using one(2) r by (subst tar_loop.simps) simp
  ultimately show ?case using one(1) by (simp add: mem) blast
qed

text \<open>\<open>parse_tar\<close> returns the members, the last one first, each with its header and its contents.\<close>

lemma parse_tar_done:
  assumes "kernel_inv P h bs pd" and "archive P pd bs (hp_mem h) a 0 ms"
    and "n + 2 * length ms \<le> card (free_frames P (hp_mem h))"
  obtains t h' bs' where "parse_tar P a h = Some (t, h')" "kernel_inv P h' bs' pd"
    "heap_ext P pd {} (hp_mem h) bs (hp_mem h') bs'" "tar_list (hp_mem h) (hp_mem h') bs' {} t (rev ms)"
    "n \<le> card (free_frames P (hp_mem h'))"
  using tar_loop_done [OF assms(1,2) heap_ext_refl _ assms(3), of 0 "[]"] by (auto simp: parse_tar_def)

end
