(* ===== verification/Boot.thy ===== *)
theory Boot
  imports Archive Kmain
begin

text \<open>
  From the initial ramdisk to running programs: \<open>load_initrd\<close> over \<open>parse_tar\<close>, the loader and
  \<open>create_process\<close>. \<open>program_file\<close> is a file the loader accepts, \<open>program_image\<close> what it puts into the address
  space, and \<open>runs\<close> a process that has it there, on pages no later step of the kernel writes to.
\<close>

section \<open>Program files\<close>

text \<open>The bytes a program wants in its address space, and where.\<close>

definition program_image :: "memory \<Rightarrow> u32 \<Rightarrow> (u32 \<times> u8) set" where
  "program_image m elf = {(p_vaddr m (phdr m elf i) + k, m (elf + p_offset m (phdr m elf i) + k)) | i k.
     i < ucast (e_phnum m elf) \<and> loadable m (phdr m elf i) \<and> k < p_filesz m (phdr m elf i)}"

text \<open>A file of \<open>sz\<close> bytes at \<open>elf\<close>: nothing the loader reads lies outside.\<close>

definition program_file :: "pmm \<Rightarrow> u32 \<Rightarrow> memory \<Rightarrow> u32 \<Rightarrow> u32 \<Rightarrow> bool" where
  "program_file P pd m elf sz \<longleftrightarrow> elf_ok P pd (- {x. in_block elf sz x}) m elf \<and> elf_magic m elf"

text \<open>A copy of a file is the same file.\<close>

definition copied :: "memory \<Rightarrow> u32 \<Rightarrow> memory \<Rightarrow> u32 \<Rightarrow> u32 \<Rightarrow> bool" where
  "copied m s m' d sz \<longleftrightarrow> (\<forall>x < sz. m' (d + x) = m (s + x))"

lemma load32_copy:
  fixes s d :: u32
  assumes c: "copied m s m' d sz" and k: "\<And>j. j < 4 \<Longrightarrow> k + j < sz"
  shows "load32 m' (d + k) = load32 m (s + k)"
proof -
  have "m' (d + (k + j)) = m (s + (k + j))" if "j < 4" for j using c k [OF that] by (simp add: copied_def)
  from this [of 0] this [of 1] this [of 2] this [of 3] show ?thesis by (simp add: load32_def add.assoc)
qed

lemma phdr_copy:
  fixes s d off :: u32
  assumes c: "copied m s m' d sz" and off: "\<forall>j < 32. off + j < sz"
  shows "loadable m' (d + off) = loadable m (s + off)" and "p_vaddr m' (d + off) = p_vaddr m (s + off)"
    and "p_filesz m' (d + off) = p_filesz m (s + off)" and "p_offset m' (d + off) = p_offset m (s + off)"
proof -
  have l: "load32 m' (d + off + k) = load32 m (s + off + k)" if "k \<le> 28" for k
  proof -
    have "off + k + j < sz" if j: "j < 4" for j
    proof -
      have "k + j < 32" using j \<open>k \<le> 28\<close> by (simp add: word_less_nat_alt word_le_nat_alt unat_word_ariths)
      then show ?thesis using off [rule_format, of "k + j"] by (simp add: add.assoc)
    qed
    then show ?thesis using load32_copy [OF c, of "off + k"] by (simp add: add.assoc)
  qed
  show "loadable m' (d + off) = loadable m (s + off)" "p_vaddr m' (d + off) = p_vaddr m (s + off)"
    "p_filesz m' (d + off) = p_filesz m (s + off)" "p_offset m' (d + off) = p_offset m (s + off)"
    using l [of 0] by (simp_all add: loadable_def p_type_def p_vaddr_def p_filesz_def p_offset_def l)
qed

lemma program_file_copy:
  fixes s d :: u32
  assumes ok: "program_file P pd m s sz" and copy: "copied m s m' d sz"
    and data: "\<And>x. x < sz \<Longrightarrow> kernel_data P m' pd' (d + x)"
  shows "program_file P pd' m' d sz" and "e_entry m' d = e_entry m s" and "e_phnum m' d = e_phnum m s"
    and "program_image m' d = program_image m s"
    and "i < ucast (e_phnum m s) \<Longrightarrow> loadable m' (phdr m' d i) = loadable m (phdr m s i) \<and>
      p_vaddr m' (phdr m' d i) = p_vaddr m (phdr m s i)"
proof -
  have eo: "elf_ok P pd (- {x. in_block s sz x}) m s" and mg: "elf_magic m s" using ok by (simp_all add: program_file_def)
  have h: "j < sz" if "j < 52" for j using eo that by (simp add: elf_ok_def in_block_def)
  have b: "m' (d + j) = m (s + j)" if "j < 52" for j using copy h that by (simp add: copied_def)
  have w: "load32 m' (d + k) = load32 m (s + k)" if "k \<le> 48" for k
  proof (rule load32_copy [OF copy])
    show "k + j < sz" if "j < 4" for j
      using that \<open>k \<le> 48\<close> by (intro h) (simp add: word_less_nat_alt word_le_nat_alt unat_word_ariths)
  qed
  show en: "e_entry m' d = e_entry m s" and pn: "e_phnum m' d = e_phnum m s"
    using b by (simp_all add: e_entry_def e_phnum_def w load16_def add.assoc)
  define off where "off i = phdr m s i - s" for i
  have ps: "phdr m s i = s + off i" for i by (simp add: off_def)
  have "e_phoff m' d = e_phoff m s" "e_phentsize m' d = e_phentsize m s"
    using b by (simp_all add: e_phoff_def e_phentsize_def w load16_def add.assoc)
  then have pd: "phdr m' d i = d + off i" for i by (simp add: off_def phdr_def)
  have so: "segment_ok P pd (- {x. in_block s sz x}) m s (s + off i)" if "i < ucast (e_phnum m s)" for i
    using eo that by (simp add: elf_ok_def ps)
  have off: "\<forall>j < 32. off i + j < sz" if "i < ucast (e_phnum m s)" for i
    using so [OF that] by (simp add: segment_ok_def in_block_def add.assoc)
  note pc = phdr_copy [OF copy off]
  show fields: "i < ucast (e_phnum m s) \<Longrightarrow> loadable m' (phdr m' d i) = loadable m (phdr m s i) \<and>
      p_vaddr m' (phdr m' d i) = p_vaddr m (phdr m s i)" for i by (simp add: ps pd pc)
  have seg: "p_offset m (s + off i) + k < sz"
    if "i < ucast (e_phnum m s)" "loadable m (s + off i)" "k < p_filesz m (s + off i)" for i k
    using so [OF that(1)] that(2,3) by (simp add: segment_ok_def in_block_def add.assoc)
  show "program_image m' d = program_image m s"
    unfolding program_image_def pn ps pd using pc seg copy by (auto simp: add.assoc copied_def) metis+
  have "segment_ok P pd' (- {x. in_block d sz x}) m' d (d + off i)" if "i < ucast (e_phnum m s)" for i
    using so [OF that] off [OF that] seg [OF that] data
    by (auto simp: segment_ok_def pc [OF that] in_block_def add.assoc)
  moreover have "elf_magic m' d" using mg b [of 0] b [of 1] b [of 2] b [of 3] by (simp add: elf_magic_def)
  ultimately show "program_file P pd' m' d sz"
    using eo h data fields by (auto simp: program_file_def elf_ok_def pn pd ps in_block_def)
qed

section \<open>A program that is there to run\<close>

text \<open>A page no later step of the kernel writes to: owned, outside the kernel's directory and the heap.\<close>

definition safe_page :: "pmm \<Rightarrow> u32 \<Rightarrow> u32 list \<Rightarrow> u32 \<Rightarrow> memory \<Rightarrow> u32 \<Rightarrow> bool" where
  "safe_page P kpd bs sp m q \<longleftrightarrow> (\<forall>x. page_of x = q \<longrightarrow> kernel_data P m kpd x \<and> x \<notin> magic_bytes sp) \<and> q \<notin> set bs"

text \<open>
  Process \<open>p\<close> starts at \<open>e\<close> and finds the image \<open>img\<close> in its address space; its directory, the tables and
  the pages this rests on are safe.
\<close>

definition runs :: "pmm \<Rightarrow> u32 \<Rightarrow> u32 list \<Rightarrow> u32 \<Rightarrow> memory \<Rightarrow> u32 \<Rightarrow> (u32 \<times> u8) set \<Rightarrow> u32 \<Rightarrow> bool" where
  "runs P kpd bs sp m e img p \<longleftrightarrow> starts_at m p e \<and>
     (let pd = load32 m p in page_aligned pd \<and> P2V pd = pd \<and> safe_page P kpd bs sp m pd \<and>
       (\<forall>(va, b) \<in> img. safe_page P kpd bs sp m (table_of (pde m pd (pd_index va))) \<and>
          (\<exists>pa. walk m (update_cr3 pd) va = Some pa \<and> m (P2V pa) = b \<and> safe_page P kpd bs sp m (page_of (P2V pa)))))"

definition proc_bytes :: "u32 list \<Rightarrow> u32 set" where
  "proc_bytes ps = {x. \<exists>q \<in> set ps. in_block q SIZEOF_PROCESS x}"

lemma walk_cong_at:
  assumes al: "page_aligned pd" "P2V pd = pd" and dir: "\<And>x. page_of x = pd \<Longrightarrow> m' x = m x"
    and tab: "\<And>x. page_of x = table_of (pde m pd (pd_index va)) \<Longrightarrow> m' x = m x"
  shows "walk m' (update_cr3 pd) va = walk m (update_cr3 pd) va" and "pde m' pd (pd_index va) = pde m pd (pd_index va)"
proof -
  have pd: "P2V (page_of (update_cr3 pd)) = pd" using al by (rule cr3_of_directory)
  show pde: "pde m' pd (pd_index va) = pde m pd (pd_index va)"
    unfolding pde_def using al by (intro load32_entry_cong dir) auto
  have "load32 m' (entry (table_of (pde m pd (pd_index va))) (pt_index va)) =
      load32 m (entry (table_of (pde m pd (pd_index va))) (pt_index va))"
    by (intro load32_entry_cong tab) auto
  then show "walk m' (update_cr3 pd) va = walk m (update_cr3 pd) va" by (simp add: walk_pte_at pd pte_at_def pde Let_def)
qed

lemma safe_page_ext:
  assumes ext: "heap_ext P kpd E m bs m' bs'" and E: "\<And>x. x \<in> E \<Longrightarrow> x \<in> magic_bytes sp \<or> page_of x \<in> set bs"
    and q: "safe_page P kpd bs sp m q"
  shows "page_of x = q \<Longrightarrow> m' x = m x" and "page_aligned q \<Longrightarrow> safe_page P kpd bs' sp m' q"
proof -
  have x: "kernel_data P m' kpd x \<and> m' x = m x \<and> page_of x \<notin> set bs' \<and> x \<notin> magic_bytes sp" if "page_of x = q" for x
    using heap_ext_data [OF ext, of x] q E [of x] that by (auto simp: safe_page_def)
  then show "page_of x = q \<Longrightarrow> m' x = m x" for x by blast
  show "safe_page P kpd bs' sp m' q" if "page_aligned q"
    using x x [of q] that by (auto simp: safe_page_def page_aligned_def)
qed

lemma starts_at_saved:
  assumes "\<forall>k < SIZEOF_STATE. saved m' p k = saved m p k"
  shows "starts_at m' p e \<longleftrightarrow> starts_at m p e"
proof -
  have "load32 m' (p + PR_REGS + k) = load32 m (p + PR_REGS + k)" if "k \<le> 52" for k
  proof -
    have "m' (p + PR_REGS + (k + j)) = m (p + PR_REGS + (k + j))" if j: "j < 4" for j
    proof -
      have "k + j < SIZEOF_STATE"
        using j \<open>k \<le> 52\<close> by (simp add: SIZEOF_STATE_def word_less_nat_alt word_le_nat_alt unat_word_ariths)
      with assms show ?thesis by (simp add: saved_def)
    qed
    from this [of 0] this [of 1] this [of 2] this [of 3] show ?thesis by (simp add: load32_def add.assoc)
  qed
  then show ?thesis
    by (simp add: starts_at_def ST_EIP_def ST_CS_def ST_USER_SS_def ST_USER_ESP_def ST_EBP_def ST_EFLAGS_def)
qed

lemma runs_ext:
  assumes r: "runs P kpd bs sp m e img p" and ext: "heap_ext P kpd E m bs m' bs'"
    and E: "\<And>x. x \<in> E \<Longrightarrow> x \<in> magic_bytes sp \<or> page_of x \<in> set bs"
    and regs: "\<forall>k < SIZEOF_STATE. saved m' p k = saved m p k" and pd: "load32 m' p = load32 m p"
  shows "runs P kpd bs' sp m' e img p"
proof -
  let ?pd = "load32 m p"
  from r have st: "starts_at m p e" and al: "page_aligned ?pd" "P2V ?pd = ?pd" and sd: "safe_page P kpd bs sp m ?pd"
    and img: "\<And>va b. (va, b) \<in> img \<Longrightarrow> safe_page P kpd bs sp m (table_of (pde m ?pd (pd_index va))) \<and>
      (\<exists>pa. walk m (update_cr3 ?pd) va = Some pa \<and> m (P2V pa) = b \<and> safe_page P kpd bs sp m (page_of (P2V pa)))"
    by (auto simp: runs_def Let_def)
  note sp = safe_page_ext [OF ext E]
  have "safe_page P kpd bs' sp m' (table_of (pde m' ?pd (pd_index va))) \<and>
      (\<exists>pa. walk m' (update_cr3 ?pd) va = Some pa \<and> m' (P2V pa) = b \<and> safe_page P kpd bs' sp m' (page_of (P2V pa)))"
    if "(va, b) \<in> img" for va b
  proof -
    from img [OF that] obtain pa where t: "safe_page P kpd bs sp m (table_of (pde m ?pd (pd_index va)))"
      and pa: "walk m (update_cr3 ?pd) va = Some pa" "m (P2V pa) = b" "safe_page P kpd bs sp m (page_of (P2V pa))" by blast
    note w = walk_cong_at [OF al, of m' m va, OF sp(1) sp(1), OF _ sd _ _ t]
    show ?thesis using w sp(2) [OF _ t] sp(1) [OF _ pa(3)] sp(2) [OF _ pa(3)] pa by simp
  qed
  moreover have "starts_at m' p e" using st starts_at_saved [OF regs] by simp
  ultimately show ?thesis using al sp(2) [OF _ sd] by (auto simp: runs_def Let_def pd)
qed

section \<open>Creating a process once more\<close>

text \<open>What a step that creates a process needs of the kernel.\<close>

definition kernel_ready :: "pmm \<Rightarrow> u32 \<Rightarrow> heap \<Rightarrow> u32 list \<Rightarrow> u32 \<Rightarrow> sched \<Rightarrow> u32 list \<Rightarrow> bool" where
  "kernel_ready P sp h bs kpd c ps \<longleftrightarrow> world P h bs kpd c ps \<and> \<not> present (pde (hp_mem h) kpd (pd_index 0xBFFF0000)) \<and>
     (\<forall>x \<in> magic_bytes sp. kernel_data P (hp_mem h) kpd x \<and> page_of x \<notin> set bs)"

text \<open>The segments of a program lie where the kernel has no tables.\<close>

definition user_segments :: "u32 \<Rightarrow> memory \<Rightarrow> u32 \<Rightarrow> bool" where
  "user_segments kpd m elf \<longleftrightarrow> (\<forall>i < ucast (e_phnum m elf). loadable m (phdr m elf i) \<longrightarrow>
     \<not> present (pde m kpd (pd_index (p_vaddr m (phdr m elf i)))))"

lemma image_runs:
  assumes ki: "kernel_inv P h' bs' pd" and ki0: "as_inv P m kpd" and dir: "\<forall>x. page_of x = kpd \<longrightarrow> hp_mem h' x = m x"
    and fs: "fresh_space P m kpd (hp_mem h') pd" and E: "\<forall>x \<in> magic_bytes sp. owned P m (page_of x)"
  shows "safe_page P kpd bs' sp (hp_mem h') pd"
    and "kernel_data P (hp_mem h') pd x \<Longrightarrow> \<not> owned P m (page_of x) \<Longrightarrow> page_of x \<notin> set bs' \<Longrightarrow>
      safe_page P kpd bs' sp (hp_mem h') (page_of x)"
    and "\<not> present (pde m kpd (pd_index va)) \<Longrightarrow> present (pde (hp_mem h') pd (pd_index va)) \<Longrightarrow>
      safe_page P kpd bs' sp (hp_mem h') (table_of (pde (hp_mem h') pd (pd_index va)))"
proof -
  let ?m' = "hp_mem h'"
  have as: "as_inv P ?m' pd" and out: "\<And>b. b \<in> set bs' \<Longrightarrow> outside_pd ?m' pd b" using ki by (simp_all add: kernel_inv_def)
  have kal: "page_aligned kpd" "owned P m kpd" "\<And>j. j < 1024 \<Longrightarrow> present (pde m kpd j) \<Longrightarrow> owned P m (table_of (pde m kpd j))"
    using ki0 by (simp_all add: as_inv_def pd_wf_def)
  have kpde: "pde ?m' kpd j = pde m kpd j" if "j < 1024" for j
    unfolding pde_def using kal(1) that dir by (intro load32_entry_cong) auto
  have safe: "safe_page P kpd bs' sp ?m' q"
    if q: "\<not> owned P m q" "owned P ?m' q" "bitmap_apart P q" "q \<notin> set bs'" for q
  proof -
    have "outside_pd ?m' kpd q" using q(1) kal kpde by (auto simp: outside_pd_def)
    then show ?thesis using q E by (auto simp: safe_page_def kernel_data_def)
  qed
  show "safe_page P kpd bs' sp ?m' pd"
    using fs as out by (intro safe) (auto simp: fresh_space_def as_inv_def tables_apart_def outside_pd_def)
  show "safe_page P kpd bs' sp ?m' (page_of x)"
    if "kernel_data P ?m' pd x" "\<not> owned P m (page_of x)" "page_of x \<notin> set bs'"
    using that by (intro safe) (simp_all add: kernel_data_def)
  show "safe_page P kpd bs' sp ?m' (table_of (pde ?m' pd (pd_index va)))"
    if abs: "\<not> present (pde m kpd (pd_index va))" and pr: "present (pde ?m' pd (pd_index va))"
  proof (rule safe)
    have i: "pd_index va < 1024" by simp
    have "pde ?m' pd (pd_index va) = pde m kpd (pd_index va) \<or> \<not> owned P m (table_of (pde ?m' pd (pd_index va)))"
      using fs i pr unfolding fresh_space_def by blast
    with pr abs show "\<not> owned P m (table_of (pde ?m' pd (pd_index va)))" by auto
    show "owned P ?m' (table_of (pde ?m' pd (pd_index va)))" "bitmap_apart P (table_of (pde ?m' pd (pd_index va)))"
      using as i pr by (simp_all add: as_inv_def tables_apart_def)
    show "table_of (pde ?m' pd (pd_index va)) \<notin> set bs'" using out i pr unfolding outside_pd_def by blast
  qed
qed

lemma image_page:
  assumes "elf_ok P pd E m elf" "i < ucast (e_phnum m elf)" "loadable m (phdr m elf i)" "k < p_filesz m (phdr m elf i)"
  shows "pd_index (p_vaddr m (phdr m elf i) + k) = pd_index (p_vaddr m (phdr m elf i))"
proof -
  let ?va = "p_vaddr m (phdr m elf i)"
  have "unat (?va AND 0xFFF) + unat k < 4096" using assms by (auto simp: elf_ok_def segment_ok_def word_less_nat_alt)
  then have "page_of (?va + k) = page_of ?va" using page_offset by blast
  then show ?thesis by (metis pd_index_page_of)
qed


lemma elf_ok_antimono: "elf_ok P pd E m elf \<Longrightarrow> F \<subseteq> E \<Longrightarrow> elf_ok P pd F m elf"
  unfolding elf_ok_def segment_ok_def by blast

lemma process_runs:
  assumes at: "process_at P m kpd elf (hp_mem h') p stack_ptr" and ki: "kernel_inv P h' bs' (load32 (hp_mem h') p)"
    and as: "as_inv P m kpd" and dir: "\<forall>x. page_of x = kpd \<longrightarrow> hp_mem h' x = m x"
    and fs: "fresh_space P m kpd (hp_mem h') (load32 (hp_mem h') p)" and E: "\<forall>x \<in> magic_bytes sp. owned P m (page_of x)"
    and nb: "\<And>i k pa. i < ucast (e_phnum m elf) \<Longrightarrow> loadable m (phdr m elf i) \<Longrightarrow> k < p_filesz m (phdr m elf i) \<Longrightarrow>
       walk (hp_mem h') (update_cr3 (load32 (hp_mem h') p)) (p_vaddr m (phdr m elf i) + k) = Some pa \<Longrightarrow> page_of (P2V pa) \<notin> set bs'"
    and ok: "elf_ok P pd0 F m elf" and seg: "user_segments kpd m elf"
  shows "runs P kpd bs' sp (hp_mem h') (e_entry m elf) (program_image m elf) p"
proof -
  let ?m' = "hp_mem h'" and ?pd = "load32 (hp_mem h') p"
  note ir = image_runs [OF ki as dir fs E]
  have pd: "page_aligned ?pd" "P2V ?pd = ?pd" using ki by (simp_all add: kernel_inv_def as_inv_def pd_wf_def)
  have one: "safe_page P kpd bs' sp ?m' (table_of (pde ?m' ?pd (pd_index va))) \<and>
      (\<exists>pa. walk ?m' (update_cr3 ?pd) va = Some pa \<and> ?m' (P2V pa) = b \<and> safe_page P kpd bs' sp ?m' (page_of (P2V pa)))"
    if img: "(va, b) \<in> program_image m elf" for va b
  proof -
    from img obtain i k where i: "i < ucast (e_phnum m elf)" and l: "loadable m (phdr m elf i)" and k: "k < p_filesz m (phdr m elf i)"
      and va: "va = p_vaddr m (phdr m elf i) + k" and b: "b = m (elf + p_offset m (phdr m elf i) + k)" by (auto simp: program_image_def)
    have "segment_at P m ?pd elf (phdr m elf i) ?m'" using at i l by (simp add: process_at_def)
    with k obtain pa where pa: "walk ?m' (update_cr3 ?pd) va = Some pa" "?m' (P2V pa) = b"
      "kernel_data P ?m' ?pd (P2V pa)" "\<not> owned P m (page_of (P2V pa))" by (auto simp: segment_at_def va b)
    have "\<not> present (pde m kpd (pd_index va))" using seg i l image_page [OF ok i l k] by (simp add: user_segments_def va)
    moreover have "present (pde ?m' ?pd (pd_index va))"
      using pa(1) cr3_of_directory [OF pd] by (auto simp: walk_pte_at pte_at_def Let_def split: if_splits)
    moreover have "page_of (P2V pa) \<notin> set bs'" using nb [OF i l k] pa(1) by (simp add: va)
    ultimately show ?thesis using ir(2) [OF pa(3,4)] ir(3) pa(1,2) by blast
  qed
  show ?thesis using at pd ir(1) one by (auto simp: runs_def Let_def process_at_def)
qed

lemma create_process_runs:
  fixes e :: u32
  assumes rdy: "kernel_ready P sp h bs kpd c ps" and n: "n + 5 + 2 * unat (e_phnum (hp_mem h) elf) \<le> card (free_frames P (hp_mem h))"
    and prog: "program_file P kpd (hp_mem h) elf sz" and magic: "\<And>x. in_block elf sz x \<Longrightarrow> x \<notin> magic_bytes sp"
    and seg: "user_segments kpd (hp_mem h) elf" and fair: "fair (se_ports s)"
  obtains p h' bs' c' s' where
    "create_process P sp elf kpd (e, c, h, s) = Some (e_entry (hp_mem h) elf, c', h', s')"
    "kernel_ready P sp h' bs' kpd c' (ps @ [p])" "runs P kpd bs' sp (hp_mem h') (e_entry (hp_mem h) elf) (program_image (hp_mem h) elf) p"
    "heap_ext P kpd (magic_bytes sp \<union> proc_bytes ps) (hp_mem h) bs (hp_mem h') bs'"
    "\<And>d j x. (d, j) \<in> live (hp_mem h) bs \<Longrightarrow> in_slot (hp_mem h) d j x \<Longrightarrow> \<not> in_block p SIZEOF_PROCESS x"
    "\<And>q. q \<in> set ps \<Longrightarrow> load32 (hp_mem h') q = load32 (hp_mem h) q \<and>
       (\<forall>k < SIZEOF_STATE. saved (hp_mem h') q k = saved (hp_mem h) q k)"
    "n \<le> card (free_frames P (hp_mem h'))" "fair (se_ports s')" "sc_init c' = sc_init c"
    "sc_current c' = (if ps = [] then p else sc_current c)"
proof -
  let ?m = "hp_mem h"
  have w: "world P h bs kpd c ps" and abs: "\<not> present (pde ?m kpd (pd_index 0xBFFF0000))"
    and stack: "\<And>x. x \<in> magic_bytes sp \<Longrightarrow> kernel_data P ?m kpd x \<and> page_of x \<notin> set bs" using rdy by (simp_all add: kernel_ready_def)
  have ok: "elf_ok P kpd (magic_bytes sp) ?m elf" and good: "elf_magic ?m elf"
    using prog magic by (auto simp: program_file_def intro: elf_ok_antimono)
  obtain p h' bs' c' s' stack_ptr where
    cp: "create_process P sp elf kpd (e, c, h, s) = Some (e_entry ?m elf, c', h', s')"
    and w': "world P h' bs' kpd c' (ps @ [p])" and at: "process_at P ?m kpd elf (hp_mem h') p stack_ptr"
    and ki: "kernel_inv P h' bs' (load32 (hp_mem h') p)"
    and c': "c' = (if ps = [] then c\<lparr>sc_cr3 := update_cr3 kpd, sc_processes := p, sc_current := p\<rparr>
           else c\<lparr>sc_cr3 := update_cr3 kpd\<rparr>)"
    and sv: "\<And>q k. q \<in> set ps \<Longrightarrow> k < SIZEOF_STATE \<Longrightarrow> saved (hp_mem h') q k = saved ?m q k"
    and dirs: "\<And>q. q \<in> set ps \<Longrightarrow> load32 (hp_mem h') q = load32 ?m q"
    and sd: "same_data P (magic_bytes sp \<union> {x. page_of x \<in> set bs}) kpd ?m kpd (hp_mem h')"
    and n': "n \<le> card (free_frames P (hp_mem h'))" and fair': "fair (se_ports s')" and bs: "set bs \<subseteq> set bs'"
    and own: "\<And>b. b \<in> set bs' \<Longrightarrow> owned P ?m b \<Longrightarrow> b \<in> set bs"
    and dir: "\<And>x. page_of x = kpd \<Longrightarrow> hp_mem h' x = ?m x" and lv: "live ?m bs \<subseteq> live (hp_mem h') bs'"
    and pw: "\<And>d. d \<in> set bs \<Longrightarrow> b_power_size (hp_mem h') d = b_power_size ?m d"
    and slots: "\<And>d j x. (d, j) \<in> live ?m bs \<Longrightarrow> in_slot ?m d j x \<Longrightarrow>
       \<forall>q \<in> set ps. \<not> in_block q SIZEOF_PROCESS x \<Longrightarrow> hp_mem h' x = ?m x"
    and apart: "\<And>d j x. (d, j) \<in> live ?m bs \<Longrightarrow> in_slot ?m d j x \<Longrightarrow> \<not> in_block p SIZEOF_PROCESS x"
    and fs: "fresh_space P ?m kpd (hp_mem h') (load32 (hp_mem h') p)"
    and nb: "\<And>i k pa. i < ucast (e_phnum ?m elf) \<Longrightarrow> loadable ?m (phdr ?m elf i) \<Longrightarrow>
       k < p_filesz ?m (phdr ?m elf i) \<Longrightarrow>
       walk (hp_mem h') (update_cr3 (load32 (hp_mem h') p)) (p_vaddr ?m (phdr ?m elf i) + k) = Some pa \<Longrightarrow>
       page_of (P2V pa) \<notin> set bs'"
    by (rule create_process_done [OF w abs n stack ok good fair, of e]) (assumption | rule that; assumption)+
  have as: "as_inv P ?m kpd" using w by (simp add: world_def kernel_inv_def)
  have data: "kernel_data P (hp_mem h') kpd x \<and> (page_of x \<notin> set bs \<longrightarrow> page_of x \<notin> set bs' \<and> (x \<notin> magic_bytes sp \<longrightarrow> hp_mem h' x = ?m x))"
    if "kernel_data P ?m kpd x" for x
    using sd own [of "page_of x"] that by (auto simp: same_data_def kernel_data_def)
  show thesis
  proof (rule that [OF cp _ _ _ apart _ n' fair'])
    have "page_aligned kpd" using as by (simp add: as_inv_def pd_wf_def)
    then have "pde (hp_mem h') kpd (pd_index 0xBFFF0000) = pde ?m kpd (pd_index 0xBFFF0000)"
      unfolding pde_def by (intro load32_entry_cong dir) auto
    with w' abs stack data show "kernel_ready P sp h' bs' kpd c' (ps @ [p])" by (simp add: kernel_ready_def)
    show "runs P kpd bs' sp (hp_mem h') (e_entry ?m elf) (program_image ?m elf) p"
      by (rule process_runs [OF at ki as _ fs _ nb ok seg]) (use stack dir in \<open>auto simp: kernel_data_def\<close>)
    show "heap_ext P kpd (magic_bytes sp \<union> proc_bytes ps) ?m bs (hp_mem h') bs'"
      by (rule heap_extI) (use bs lv pw slots data dir in \<open>auto simp: proc_bytes_def\<close>)
  qed (use c' sv dirs in auto)
qed

end
