(* ===== verification/Initrd.thy ===== *)
theory Initrd
  imports Boot
begin

text \<open>
  \<open>load_initrd\<close> (src/src/main.cpp) as a whole: the state between two rounds of its loop (\<open>boot_state\<close>), one
  process (\<open>create_one_done\<close>), the two of a program, the loop over the list of the archive
  (\<open>initrd_loop_done\<close>, by induction on the archive), and the ramdisk from the window of the module to
  the running programs (\<open>load_initrd_done\<close>).
\<close>

section \<open>Strings that stay\<close>

definition string_ok :: "pmm \<Rightarrow> u32 \<Rightarrow> u32 list \<Rightarrow> u32 \<Rightarrow> memory \<Rightarrow> u32 \<Rightarrow> u8 list \<Rightarrow> bool" where
  "string_ok P kpd bs sp m a cs \<longleftrightarrow> cstring_at m a cs \<and> (\<forall>k \<le> length cs. kernel_data P m kpd (a + of_nat k) \<and>
     page_of (a + of_nat k) \<notin> set bs \<and> a + of_nat k \<notin> magic_bytes sp)"

lemma cstring_at_cong:
  "(\<And>k. k \<le> length cs \<Longrightarrow> m' (b + of_nat k) = m (a + of_nat k)) \<Longrightarrow> cstring_at m a cs \<Longrightarrow> cstring_at m' b cs"
proof (induction cs arbitrary: a b)
  case Nil
  then show ?case using Nil.prems(1) [of 0] by simp
next
  case (Cons c cs)
  have "cstring_at m' (b + 1) cs"
  proof (rule Cons.IH)
    show "m' (b + 1 + of_nat k) = m (a + 1 + of_nat k)" if "k \<le> length cs" for k
      using Cons.prems(1) [of "Suc k"] that by (simp add: add.assoc)
  qed (use Cons.prems in simp)
  then show ?case using Cons.prems Cons.prems(1) [of 0] by simp
qed

lemma string_ok_ext:
  assumes ext: "heap_ext P kpd E m bs m' bs'" and E: "\<And>x. x \<in> E \<Longrightarrow> x \<in> magic_bytes sp \<or> page_of x \<in> set bs"
    and s: "string_ok P kpd bs sp m a cs"
  shows "string_ok P kpd bs' sp m' a cs"
proof -
  have x: "m' (a + of_nat k) = m (a + of_nat k) \<and> kernel_data P m' kpd (a + of_nat k) \<and> page_of (a + of_nat k) \<notin> set bs'"
    if "k \<le> length cs" for k
    using heap_ext_data [OF ext, of "a + of_nat k"] s that E [of "a + of_nat k"] by (auto simp: string_ok_def)
  then have "cstring_at m' a cs" using s by (intro cstring_at_cong [of cs m' a m a]) (auto simp: string_ok_def)
  with x s show ?thesis by (simp add: string_ok_def)
qed

section \<open>The state of the boot\<close>

definition program_names :: "u8 list set" where
  "program_names = {lit ''test_exec_one'', lit ''test_exec_two'', lit ''test_exec''}"

definition names_ok :: "layout \<Rightarrow> u32 \<Rightarrow> u32 list \<Rightarrow> kernel \<Rightarrow> bool" where
  "names_ok L kpd bs K \<longleftrightarrow> string_ok (kn_pmm K) kpd bs (ly_sp L) (kn_mem K) (ly_test_exec_one L) (lit ''test_exec_one'') \<and>
     string_ok (kn_pmm K) kpd bs (ly_sp L) (kn_mem K) (ly_test_exec_two L) (lit ''test_exec_two'') \<and>
     string_ok (kn_pmm K) kpd bs (ly_sp L) (kn_mem K) (ly_test_exec L) (lit ''test_exec'')"

definition boot_state :: "layout \<Rightarrow> u32 \<Rightarrow> u32 list \<Rightarrow> u32 list \<Rightarrow> kernel \<Rightarrow> bool" where
  "boot_state L kpd bs ps K \<longleftrightarrow> kernel_ready (kn_pmm K) (ly_sp L) (kn_heap K) bs kpd (kn_sched K) ps \<and>
     fair (se_ports (kn_serial K)) \<and> names_ok L kpd bs K"

text \<open>What no step may touch of the blocks that were there before.\<close>

abbreviation busy :: "layout \<Rightarrow> u32 list \<Rightarrow> u32 set" where
  "busy L ps \<equiv> magic_bytes (ly_sp L) \<union> proc_bytes ps"

lemma busy_pages:
  assumes "boot_state L kpd bs ps K" "x \<in> busy L ps"
  shows "x \<in> magic_bytes (ly_sp L) \<or> page_of x \<in> set bs"
proof -
  have hi: "heap_inv (kn_pmm K) (kn_heap K) bs" and pb: "\<And>q. q \<in> set ps \<Longrightarrow> process_block (kn_mem K) bs q"
    using assms(1) by (simp_all add: boot_state_def kernel_ready_def world_def kernel_inv_def)
  then show ?thesis using assms(2) process_block_bytes(1) [OF hi pb] by (auto simp: proc_bytes_def)
qed

lemma names_ok_ext:
  assumes b: "boot_state L kpd bs ps K" and ext: "heap_ext (kn_pmm K) kpd (busy L ps) (kn_mem K) bs (kn_mem K') bs'"
    and P: "kn_pmm K' = kn_pmm K"
  shows "names_ok L kpd bs' K'"
  using b string_ok_ext [OF ext busy_pages [OF b]] by (simp add: boot_state_def names_ok_def P)

text \<open>The file of a program, its copy in a block of the heap included.\<close>

definition program_copy :: "layout \<Rightarrow> u32 list \<Rightarrow> u32 list \<Rightarrow> memory \<Rightarrow> u32 \<Rightarrow> u32 \<Rightarrow> memory \<Rightarrow> u32 \<Rightarrow> bool" where
  "program_copy L bs ps m0 s sz m d \<longleftrightarrow> copied m0 s m d sz \<and> block_at m bs (busy L ps) d sz"

definition bootable :: "pmm \<Rightarrow> u32 \<Rightarrow> memory \<Rightarrow> u32 \<Rightarrow> u32 \<Rightarrow> bool" where
  "bootable P kpd m0 s sz \<longleftrightarrow> program_file P kpd m0 s sz \<and> user_segments kpd m0 s"

lemma tar_list_more:
  assumes "tar_list m0 m bs E t ms" and "\<And>d j x. (d, j) \<in> live m bs \<Longrightarrow> in_slot m d j x \<Longrightarrow> x \<in> F \<Longrightarrow> x \<in> E"
  shows "tar_list m0 m bs F t ms"
  using assms(1) by (induction ms arbitrary: t) (auto intro: block_at_more [OF _ assms(2)])

section \<open>One process\<close>

lemma create_one_done:
  assumes b: "boot_state L kpd bs ps K" and prog: "bootable (kn_pmm K) kpd m0 s sz"
    and copy: "program_copy L bs ps m0 s sz (kn_mem K) d" and dir: "\<forall>x. page_of x = kpd \<longrightarrow> kn_mem K x = m0 x"
    and n: "n + 5 + 2 * unat (e_phnum m0 s) \<le> card (free_frames (kn_pmm K) (kn_mem K))"
  obtains p K' bs' where "create_one L kpd d (e, K) = Some (e_entry m0 s, K')" "boot_state L kpd bs' (ps @ [p]) K'"
    "kn_pmm K' = kn_pmm K" "runs (kn_pmm K) kpd bs' (ly_sp L) (kn_mem K') (e_entry m0 s) (program_image m0 s) p"
    "\<And>q e img. q \<in> set ps \<Longrightarrow> runs (kn_pmm K) kpd bs (ly_sp L) (kn_mem K) e img q \<Longrightarrow>
       runs (kn_pmm K) kpd bs' (ly_sp L) (kn_mem K') e img q"
    "\<And>m1 t ms. tar_list m1 (kn_mem K) bs (busy L ps) t ms \<Longrightarrow> tar_list m1 (kn_mem K') bs' (busy L (ps @ [p])) t ms"
    "program_copy L bs' (ps @ [p]) m0 s sz (kn_mem K') d" "\<forall>x. page_of x = kpd \<longrightarrow> kn_mem K' x = m0 x"
    "n \<le> card (free_frames (kn_pmm K') (kn_mem K'))"
proof -
  let ?P = "kn_pmm K" and ?m = "kn_mem K" and ?h = "kn_heap K" and ?c = "kn_sched K" and ?s = "kn_serial K"
  have rdy: "kernel_ready ?P (ly_sp L) ?h bs kpd ?c ps" and fair: "fair (se_ports ?s)" using b by (simp_all add: boot_state_def)
  have ki: "kernel_inv ?P ?h bs kpd" using rdy by (simp add: kernel_ready_def world_def)
  then have hi: "heap_inv ?P ?h bs" and al: "page_aligned kpd" by (simp_all add: kernel_inv_def as_inv_def pd_wf_def)
  have ba: "block_at ?m bs (busy L ps) d sz" and cp: "copied m0 s ?m d sz" using copy by (simp_all add: program_copy_def)
  have in_d: "kernel_data ?P ?m kpd x \<and> x \<notin> busy L ps" if "in_block d sz x" for x
    using bucket_data [OF ki block_at_bytes(1) [OF hi ba that]] block_at_bytes(2) [OF hi ba that] by simp
  have pf: "program_file ?P kpd m0 s sz" and us: "user_segments kpd m0 s" using prog by (simp_all add: bootable_def)
  have "kernel_data ?P ?m kpd (d + x)" if "x < sz" for x using in_d [of "d + x"] that by (simp add: in_block_def)
  note pc0 = program_file_copy [OF pf cp this]
  have pc: "program_file ?P kpd ?m d sz" "e_entry ?m d = e_entry m0 s" "e_phnum ?m d = e_phnum m0 s"
      "program_image ?m d = program_image m0 s" by (rule pc0; assumption)+
  have "pde ?m kpd j = pde m0 kpd j" if "j < 1024" for j
    unfolding pde_def using al that dir by (intro load32_entry_cong) auto
  then have us': "user_segments kpd ?m d" using us pc(3) pc0(5) by (simp add: user_segments_def)
  have n': "n + 5 + 2 * unat (e_phnum ?m d) \<le> card (free_frames ?P ?m)" using n pc(3) by simp
  have mg: "x \<notin> magic_bytes (ly_sp L)" if "in_block d sz x" for x using in_d [OF that] by simp
  obtain p h' bs' c' s' where
    k: "create_process ?P (ly_sp L) d kpd (e, ?c, ?h, ?s) = Some (e_entry ?m d, c', h', s')"
    and rdy': "kernel_ready ?P (ly_sp L) h' bs' kpd c' (ps @ [p])"
    and rn: "runs ?P kpd bs' (ly_sp L) (hp_mem h') (e_entry ?m d) (program_image ?m d) p"
    and ext: "heap_ext ?P kpd (busy L ps) ?m bs (hp_mem h') bs'"
    and apart: "\<And>a j x. (a, j) \<in> live ?m bs \<Longrightarrow> in_slot ?m a j x \<Longrightarrow> \<not> in_block p SIZEOF_PROCESS x"
    and old: "\<And>q. q \<in> set ps \<Longrightarrow> load32 (hp_mem h') q = load32 ?m q \<and>
       (\<forall>k < SIZEOF_STATE. saved (hp_mem h') q k = saved ?m q k)"
    and nf: "n \<le> card (free_frames ?P (hp_mem h'))" and fair': "fair (se_ports s')"
    and "sc_init c' = sc_init ?c" and "sc_current c' = (if ps = [] then p else sc_current ?c)"
    by (rule create_process_runs [OF rdy n' pc(1) mg us' fair, of e]) (assumption | rule that; assumption)+
  define K' where "K' = K\<lparr>kn_sched := c', kn_heap := h', kn_serial := s'\<rparr>"
  note E = busy_pages [OF b]
  have more: "x \<in> busy L ps" if "(a, j) \<in> live ?m bs" "in_slot ?m a j x" "x \<in> busy L (ps @ [p])" for a j x
    using apart [OF that(1,2)] that(3) by (auto simp: proc_bytes_def)
  have ext': "heap_ext ?P kpd (busy L (ps @ [p])) ?m bs (hp_mem h') bs'"
    using ext by (rule heap_ext_mono) (auto simp: proc_bytes_def)
  have mem: "kn_mem K' = hp_mem h'" "kn_pmm K' = ?P" by (simp_all add: K'_def)
  show thesis
  proof (rule that)
    show "create_one L kpd d (e, K) = Some (e_entry m0 s, K')" using k pc(2) by (simp add: create_one_def K'_def)
    show "boot_state L kpd bs' (ps @ [p]) K'"
      using rdy' fair' names_ok_ext [OF b, of K' bs'] ext by (simp add: boot_state_def K'_def)
    show "runs ?P kpd bs' (ly_sp L) (kn_mem K') (e_entry m0 s) (program_image m0 s) p" using rn pc(2,4) mem by simp
    show "runs ?P kpd bs' (ly_sp L) (kn_mem K') e img q" if "q \<in> set ps" "runs ?P kpd bs (ly_sp L) ?m e img q" for q e img
      unfolding mem using old [OF that(1)] by (intro runs_ext [OF that(2) ext E]) simp_all
    show "tar_list m1 (kn_mem K') bs' (busy L (ps @ [p])) t ms" if "tar_list m1 ?m bs (busy L ps) t ms" for m1 t ms
      unfolding mem using tar_list_more [OF that more] by (rule tar_list_ext [OF ext'])
    have ba': "block_at ?m bs (busy L (ps @ [p])) d sz" using ba more by (rule block_at_more)
    show "program_copy L bs' (ps @ [p]) m0 s sz (kn_mem K') d"
      using cp block_at_ext [OF ext' ba'] by (simp add: program_copy_def mem copied_def in_block_def)
    show "\<forall>x. page_of x = kpd \<longrightarrow> kn_mem K' x = m0 x" using dir heap_ext_dir [OF ext] mem by simp
  qed (use nf mem in simp_all)
qed

section \<open>All of them\<close>

text \<open>The files \<open>load_initrd\<close> makes processes of, in the order of the list: each program twice.\<close>

fun program_files :: "memory \<Rightarrow> (u32 \<times> u32) list \<Rightarrow> u32 list" where
  "program_files m0 [] = []"
| "program_files m0 ((ha, sz) # ms) =
     (if \<exists>cs \<in> program_names. cstring_at m0 ha cs then [ha + 512, ha + 512] else []) @ program_files m0 ms"

definition frames_for :: "memory \<Rightarrow> u32 list \<Rightarrow> nat" where
  "frames_for m0 fs = sum_list (map (\<lambda>s. 5 + 2 * unat (e_phnum m0 s)) fs)"

definition member_ok :: "pmm \<Rightarrow> u32 \<Rightarrow> memory \<Rightarrow> u32 \<times> u32 \<Rightarrow> bool" where
  "member_ok P kpd m0 = (\<lambda>(ha, sz). \<exists>cs. cstring_at m0 ha cs \<and> length cs < 100 \<and>
     (cs \<in> program_names \<longrightarrow> bootable P kpd m0 (ha + 512) sz))"

lemma cstring_at_unique: "cstring_at m a cs \<Longrightarrow> cstring_at m a ds \<Longrightarrow> cs = ds"
proof (induction cs arbitrary: a ds)
  case Nil
  then show ?case by (cases ds) auto
next
  case (Cons c cs)
  then show ?case by (cases ds) auto
qed

text \<open>The messages of a round.\<close>

lemma initrd_messages:
  assumes "fair (se_ports s)" and "cstring_at m t cs"
  obtains s1 n s2 s3 where "serial_log (lit ''File: '') s = Some s1" "serial_write_str m t s1 = Some (n, s2)"
    "serial_log (lit ''\<newline>'') s2 = Some s3" "fair (se_ports s3)"
proof -
  obtain s1 where 1: "serial_log (lit ''File: '') s = Some s1" "fair (se_ports s1)"
    using serial_log_returns [OF assms(1)] by blast
  obtain s2 where 2: "serial_log cs s1 = Some s2" "fair (se_ports s2)" using serial_log_returns [OF 1(2)] by blast
  obtain s3 where 3: "serial_log (lit ''\<newline>'') s2 = Some s3" "fair (se_ports s3)"
    using serial_log_returns [OF 2(2)] by blast
  have "serial_write_str m t s1 = Some (of_nat (length cs), s2)"
    using 2(1) write_str_cstring [OF assms(2), of serial_write_char s1] by (simp add: serial_write_str_def serial_log_def)
  with 1 3 show thesis using that by blast
qed

text \<open>Two processes of one program.\<close>

lemma create_two_done:
  assumes b: "boot_state L kpd bs ps K" and prog: "bootable (kn_pmm K) kpd m0 s sz"
    and copy: "program_copy L bs ps m0 s sz (kn_mem K) d" and dir: "\<forall>x. page_of x = kpd \<longrightarrow> kn_mem K x = m0 x"
    and tl: "tar_list m0 (kn_mem K) bs (busy L ps) t ms"
    and n: "n + frames_for m0 [s, s] \<le> card (free_frames (kn_pmm K) (kn_mem K))"
  obtains e p q K' bs' where "Option.bind (create_one L kpd d (e0, K)) (create_one L kpd d) = Some (e, K')"
    "boot_state L kpd bs' (ps @ [p, q]) K'" "kn_pmm K' = kn_pmm K"
    "\<forall>r \<in> {p, q}. runs (kn_pmm K) kpd bs' (ly_sp L) (kn_mem K') (e_entry m0 s) (program_image m0 s) r"
    "\<And>r e img. r \<in> set ps \<Longrightarrow> runs (kn_pmm K) kpd bs (ly_sp L) (kn_mem K) e img r \<Longrightarrow>
       runs (kn_pmm K) kpd bs' (ly_sp L) (kn_mem K') e img r"
    "tar_list m0 (kn_mem K') bs' (busy L (ps @ [p, q])) t ms" "\<forall>x. page_of x = kpd \<longrightarrow> kn_mem K' x = m0 x"
    "n \<le> card (free_frames (kn_pmm K') (kn_mem K'))"
proof -
  have n1: "(n + (5 + 2 * unat (e_phnum m0 s))) + 5 + 2 * unat (e_phnum m0 s) \<le> card (free_frames (kn_pmm K) (kn_mem K))"
    using n by (simp add: frames_for_def)
  show thesis
  proof (rule create_one_done [OF b prog copy dir n1, of e0])
    fix p K1 bs1
    assume c1: "create_one L kpd d (e0, K) = Some (e_entry m0 s, K1)" and b1: "boot_state L kpd bs1 (ps @ [p]) K1"
      and P1: "kn_pmm K1 = kn_pmm K" and r1: "runs (kn_pmm K) kpd bs1 (ly_sp L) (kn_mem K1) (e_entry m0 s) (program_image m0 s) p"
      and o1: "\<And>q e img. q \<in> set ps \<Longrightarrow> runs (kn_pmm K) kpd bs (ly_sp L) (kn_mem K) e img q \<Longrightarrow>
         runs (kn_pmm K) kpd bs1 (ly_sp L) (kn_mem K1) e img q"
      and t1: "\<And>m1 t ms. tar_list m1 (kn_mem K) bs (busy L ps) t ms \<Longrightarrow> tar_list m1 (kn_mem K1) bs1 (busy L (ps @ [p])) t ms"
      and copy1: "program_copy L bs1 (ps @ [p]) m0 s sz (kn_mem K1) d" and dir1: "\<forall>x. page_of x = kpd \<longrightarrow> kn_mem K1 x = m0 x"
      and n1: "n + (5 + 2 * unat (e_phnum m0 s)) \<le> card (free_frames (kn_pmm K1) (kn_mem K1))"
    have n2: "n + 5 + 2 * unat (e_phnum m0 s) \<le> card (free_frames (kn_pmm K1) (kn_mem K1))" using n1 by simp
    have prog1: "bootable (kn_pmm K1) kpd m0 s sz" using prog P1 by simp
    show thesis
    proof (rule create_one_done [OF b1 prog1 copy1 dir1 n2, of "e_entry m0 s"], goal_cases)
      case (1 q K2 bs2)
      then show ?thesis
        using c1 r1 o1 t1 [OF tl] P1 by (intro that [of "e_entry m0 s" K2 bs2 p q]) simp_all
    qed
  qed
qed

text \<open>The answer: all old processes still run, and the new ones run the programs of the list in its order.\<close>

definition started :: "layout \<Rightarrow> u32 \<Rightarrow> memory \<Rightarrow> u32 list \<Rightarrow> u32 list \<Rightarrow> kernel \<Rightarrow> u32 list \<Rightarrow> kernel \<Rightarrow> u32 list \<Rightarrow> bool" where
  "started L kpd m0 ps bs K fs K' ps' \<longleftrightarrow> kn_pmm K' = kn_pmm K \<and> (\<exists>bs'. boot_state L kpd bs' (ps @ ps') K' \<and>
     list_all2 (\<lambda>s p. runs (kn_pmm K) kpd bs' (ly_sp L) (kn_mem K') (e_entry m0 s) (program_image m0 s) p) fs ps' \<and>
     (\<forall>q e img. q \<in> set ps \<longrightarrow> runs (kn_pmm K) kpd bs (ly_sp L) (kn_mem K) e img q \<longrightarrow>
        runs (kn_pmm K) kpd bs' (ly_sp L) (kn_mem K') e img q))"

lemma boot_state_serial:
  "boot_state L kpd bs ps K \<Longrightarrow> fair (se_ports s) \<Longrightarrow> boot_state L kpd bs ps (K\<lparr>kn_serial := s\<rparr>)"
  by (simp add: boot_state_def names_ok_def)

lemma started_none: "boot_state L kpd bs ps K \<Longrightarrow> started L kpd m0 ps bs K [] K []"
  by (auto simp: started_def)

lemma node_name:
  assumes tl: "tar_list m0 m bs E t ((ha, sz) # ms)" and cs: "cstring_at m0 ha cs" "length cs < 100"
  shows "cstring_at m t cs"
proof (rule cstring_at_cong [OF _ cs(1)])
  fix k assume "k \<le> length cs"
  then have "(of_nat k :: u32) < 157" using cs(2) by (simp add: word_less_nat_alt unat_of_nat)
  then show "m (t + of_nat k) = m0 (ha + of_nat k)" using tl by simp
qed

lemma initrd_step:
  assumes "t \<noteq> 0" and "serial_log (lit ''File: '') (kn_serial K) = Some s1" "serial_write_str (kn_mem K) t s1 = Some (k, s2)"
    "serial_log (lit ''\<newline>'') s2 = Some s3" and "is_program L t (kn_mem K) = Some prog"
  shows "initrd_loop L kpd t K = Option.bind (if prog
        then map_option snd (Option.bind (create_one L kpd (load32 (kn_mem K) (t + TAR_DATA)) (0, K\<lparr>kn_serial := s3\<rparr>))
          (create_one L kpd (load32 (kn_mem K) (t + TAR_DATA)))) else Some (K\<lparr>kn_serial := s3\<rparr>))
      (\<lambda>K2. initrd_loop L kpd (load32 (kn_mem K2) (t + TAR_NEXT)) K2)"
  using assms by (subst initrd_loop.simps) (simp add: Let_def del: lit_simps)

lemma initrd_loop_done:
  assumes "boot_state L kpd bs ps K" and "tar_list m0 (kn_mem K) bs (busy L ps) t ms"
    and "\<forall>mem \<in> set ms. member_ok (kn_pmm K) kpd m0 mem" and "\<forall>x. page_of x = kpd \<longrightarrow> kn_mem K x = m0 x"
    and "n + frames_for m0 (program_files m0 ms) \<le> card (free_frames (kn_pmm K) (kn_mem K))"
  shows "\<exists>K' ps'. initrd_loop L kpd t K = Some K' \<and> started L kpd m0 ps bs K (program_files m0 ms) K' ps' \<and>
    n \<le> card (free_frames (kn_pmm K') (kn_mem K'))"
  using assms
proof (induction ms arbitrary: t K bs ps)
  case Nil
  then show ?case using started_none [OF Nil(1)] by (subst initrd_loop.simps) (auto simp: frames_for_def)
next
  case (Cons mem ms)
  obtain ha sz where mem: "mem = (ha, sz)" by (cases mem)
  note b = Cons.prems(1) and tl = Cons.prems(2) [unfolded mem]
  obtain cs where cs: "cstring_at m0 ha cs" "length cs < 100" "cs \<in> program_names \<Longrightarrow> bootable (kn_pmm K) kpd m0 (ha + 512) sz"
    using Cons.prems(3) by (auto simp: mem member_ok_def)
  have nm: "cstring_at (kn_mem K) t cs" by (rule node_name [OF tl cs(1,2)])
  have t: "t \<noteq> 0" using tl by simp
  obtain s1 k s2 s3 where lg: "serial_log (lit ''File: '') (kn_serial K) = Some s1" "serial_write_str (kn_mem K) t s1 = Some (k, s2)"
    "serial_log (lit ''\<newline>'') s2 = Some s3" "fair (se_ports s3)"
    by (rule initrd_messages [OF _ nm]) (use b in \<open>auto simp: boot_state_def\<close>)
  define K1 where "K1 = K\<lparr>kn_serial := s3\<rparr>"
  have K1: "kn_mem K1 = kn_mem K" "kn_pmm K1 = kn_pmm K" by (simp_all add: K1_def)
  have b1: "boot_state L kpd bs ps K1" unfolding K1_def using b lg(4) by (rule boot_state_serial)
  have ip: "is_program L t (kn_mem K) = Some (cs \<in> program_names)"
    using b nm unfolding program_names_def by (intro is_program_iff) (simp_all add: boot_state_def names_ok_def string_ok_def)
  have pf: "(\<exists>ds \<in> program_names. cstring_at m0 ha ds) \<longleftrightarrow> cs \<in> program_names" using cs(1) cstring_at_unique by blast
  let ?d = "load32 (kn_mem K) (t + TAR_DATA)"
  note step = initrd_step [OF t lg(1-3) ip, folded K1_def]
  show ?case
  proof (cases "cs \<in> program_names")
    case False
    have "tar_list m0 (kn_mem K1) bs (busy L ps) (load32 (kn_mem K1) (t + TAR_NEXT)) ms" using tl by (simp add: K1)
    from Cons.IH [OF b1 this] Cons.prems(3-5) obtain K' ps' where
      "initrd_loop L kpd (load32 (kn_mem K1) (t + TAR_NEXT)) K1 = Some K'"
      "started L kpd m0 ps bs K1 (program_files m0 ms) K' ps'" "n \<le> card (free_frames (kn_pmm K') (kn_mem K'))"
      by (auto simp: K1 mem pf False)
    then show ?thesis using step False by (auto simp: mem pf started_def K1)
  next
    case True
    have "block_at (kn_mem K) bs (busy L ps) ?d sz" "\<forall>k < sz. kn_mem K (?d + k) = m0 (ha + 512 + k)" using tl by simp_all
    then have copy: "program_copy L bs ps m0 (ha + 512) sz (kn_mem K1) ?d" by (simp add: program_copy_def copied_def K1)
    have dir1: "\<forall>x. page_of x = kpd \<longrightarrow> kn_mem K1 x = m0 x" and tl1: "tar_list m0 (kn_mem K1) bs (busy L ps) t ((ha, sz) # ms)"
      and prog: "bootable (kn_pmm K1) kpd m0 (ha + 512) sz" using Cons.prems(4) tl cs(3) True by (simp_all add: K1)
    have n: "(n + frames_for m0 (program_files m0 ms)) + frames_for m0 [ha + 512, ha + 512] \<le> card (free_frames (kn_pmm K1) (kn_mem K1))"
      using Cons.prems(5) by (simp add: mem pf True frames_for_def K1)
    show ?thesis
    proof (rule create_two_done [OF b1 prog copy dir1 tl1 n, of 0], goal_cases)
      case (1 e p q K2 bs2)
      note two = 1
      have "tar_list m0 (kn_mem K2) bs2 (busy L (ps @ [p, q])) (load32 (kn_mem K2) (t + TAR_NEXT)) ms" using two(6) by simp
      from Cons.IH [OF two(2) this _ two(7)] Cons.prems(3) two(3,8) obtain K' ps' where
        K': "initrd_loop L kpd (load32 (kn_mem K2) (t + TAR_NEXT)) K2 = Some K'"
        "started L kpd m0 (ps @ [p, q]) bs2 K2 (program_files m0 ms) K' ps'" "n \<le> card (free_frames (kn_pmm K') (kn_mem K'))"
        by (auto simp: K1)
      have "started L kpd m0 ps bs K (program_files m0 ((ha, sz) # ms)) K' ([p, q] @ ps')"
        using K'(2) two(3-5) by (auto simp: started_def pf True K1)
      moreover have "initrd_loop L kpd t K = Some K'" using step two(1) True K'(1) by simp
      ultimately show ?thesis unfolding mem using K'(3) by blast
    qed
  qed
qed

section \<open>The ramdisk as a whole\<close>

text \<open>Mapping a page of the window whose table is there.\<close>

lemma map_window:
  fixes pa flags :: u32
  assumes inv: "kernel_inv P h bs kpd" and pr: "present (pde (hp_mem h) kpd (pd_index va))"
  defines "m' \<equiv> map_page P kpd pa va flags (hp_mem h)"
  shows "kernel_inv P (h\<lparr>hp_mem := m'\<rparr>) bs kpd" and "heap_ext P kpd {} (hp_mem h) bs m' bs"
    and "free_frames P m' = free_frames P (hp_mem h)"
proof -
  let ?m = "hp_mem h"
  have as: "as_inv P ?m kpd" using inv by (simp add: kernel_inv_def)
  then have wf: "pd_wf ?m kpd" by (simp add: as_inv_def)
  have k: "keeps P kpd {} ?m m'" unfolding m'_def by (rule keeps_map_page [OF as]) (simp add: pr)
  note hk = heap_keeps [OF inv keepsD(1) [OF k] keeps_same_data [OF k] keepsD(2) [OF k]]
  show "kernel_inv P (h\<lparr>hp_mem := m'\<rparr>) bs kpd" by (rule hk(1)) simp_all
  have tab: "page_aligned (table_of (pde ?m kpd (pd_index va)))" "table_of (pde ?m kpd (pd_index va)) \<noteq> kpd"
    using pd_wf_table [OF wf _ pr] by simp_all
  have "m' = store32 (entry (table_of (pde ?m kpd (pd_index va))) (pt_index va)) (PageEntry_new pa (ucast flags)) ?m"
    using wf pr by (simp add: m'_def map_page_split with_table_def pd_wf_def)
  then have dir: "m' x = ?m x" if "page_of x = kpd" for x using that tab by (simp add: store32_entry_outside)
  have "live m' bs = live ?m bs" "\<And>b. b \<in> set bs \<Longrightarrow> b_power_size m' b = b_power_size ?m b"
    "\<And>x. page_of x \<in> set bs \<Longrightarrow> m' x = ?m x" by (rule hk; simp)+
  then show "heap_ext P kpd {} ?m bs m' bs"
  proof (intro heap_extI, goal_cases)
    case (4 d j x)
    have "heap_inv P h bs" using inv by (simp add: kernel_inv_def)
    then have "page_of x \<in> set bs" using live_slot [OF _ 4(4)] in_slot_offset(1) [of ?m d j x] 4(5) by auto
    with 4(3) show ?case by simp
  qed (use keepsD(4,5) [OF k] dir in simp_all)
  show "free_frames P m' = free_frames P ?m"
    unfolding m'_def using pr by (intro free_frames_cong) (simp add: map_page_used [OF as])
qed

lemma boot_state_ext:
  assumes b: "boot_state L kpd bs [] K" and ki: "kernel_inv (kn_pmm K) h' bs' kpd"
    and ext: "heap_ext (kn_pmm K) kpd {} (kn_mem K) bs (hp_mem h') bs'"
  shows "boot_state L kpd bs' [] (K\<lparr>kn_heap := h'\<rparr>)"
proof -
  let ?P = "kn_pmm K"
  have rdy: "kernel_ready ?P (ly_sp L) (kn_heap K) bs kpd (kn_sched K) []" using b by (simp add: boot_state_def)
  have al: "page_aligned kpd" using ki by (simp add: kernel_inv_def as_inv_def pd_wf_def)
  have "pde (hp_mem h') kpd (pd_index 0xBFFF0000) = pde (kn_mem K) kpd (pd_index 0xBFFF0000)"
    unfolding pde_def using al by (intro load32_entry_cong heap_ext_dir [OF ext]) auto
  moreover have "kernel_data ?P (hp_mem h') kpd x \<and> page_of x \<notin> set bs'" if "x \<in> magic_bytes (ly_sp L)" for x
    using rdy that heap_ext_data [OF ext, of x] by (simp add: kernel_ready_def)
  ultimately have "kernel_ready ?P (ly_sp L) h' bs' kpd (kn_sched K) []"
    using rdy ki by (simp add: kernel_ready_def world_def)
  moreover have "heap_ext ?P kpd (busy L []) (kn_mem K) bs (kn_mem (K\<lparr>kn_heap := h'\<rparr>)) bs'"
    using heap_ext_mono [OF ext, of "busy L []"] by simp
  ultimately show ?thesis using b names_ok_ext [OF b, of "K\<lparr>kn_heap := h'\<rparr>" bs'] by (simp add: boot_state_def)
qed

text \<open>Every program of the archive is started twice, the last member first.\<close>

lemma load_initrd_done:
  fixes mbd :: u32
  assumes b: "boot_state L kpd bs [] K" and pd: "get_current_pd (sc_cr3 (kn_sched K)) = kpd"
    and start: "start = P2V (mod_start (kn_mem K) (P2V (mbd_mods_addr (kn_mem K) mbd)))"
    and pr: "present (pde (kn_mem K) kpd (pd_index start))" "present (pde (kn_mem K) kpd (pd_index (start + 0x1000)))"
    and ar: "archive (kn_pmm K) kpd bs (kn_mem K) start 0 ms" and ok: "\<forall>mem \<in> set ms. member_ok (kn_pmm K) kpd (kn_mem K) mem"
    and n: "n + frames_for (kn_mem K) (program_files (kn_mem K) (rev ms)) + 2 * length ms \<le> card (free_frames (kn_pmm K) (kn_mem K))"
  shows "\<exists>K' ps'. load_initrd L mbd K = Some K' \<and>
    started L kpd (kn_mem K) [] bs K (program_files (kn_mem K) (rev ms)) K' ps' \<and> n \<le> card (free_frames (kn_pmm K') (kn_mem K'))"
proof -
  let ?P = "kn_pmm K" and ?m = "kn_mem K" and ?h = "kn_heap K"
  have ki: "kernel_inv ?P ?h bs kpd" using b by (simp add: boot_state_def kernel_ready_def world_def)
  then have al: "page_aligned kpd" by (simp add: kernel_inv_def as_inv_def pd_wf_def)
  define m1 where "m1 = map_page ?P kpd (V2P start) start 3 ?m"
  define m2 where "m2 = map_page ?P kpd (V2P (start + 0x1000)) (start + 0x1000) 3 m1"
  note w1 = map_window [OF ki pr(1), of "V2P start" 3, folded m1_def]
  have "pde m1 kpd (pd_index (start + 0x1000)) = pde ?m kpd (pd_index (start + 0x1000))"
    unfolding pde_def using al by (intro load32_entry_cong heap_ext_dir [OF w1(2)]) auto
  then have "present (pde (hp_mem (?h\<lparr>hp_mem := m1\<rparr>)) kpd (pd_index (start + 0x1000)))" using pr(2) by simp
  note w2 = map_window [OF w1(1) this, of "V2P (start + 0x1000)" 3, unfolded heap_mem_update, folded m2_def]
  have e2: "heap_ext ?P kpd {} ?m bs m2 bs" using w1(2) w2(2) by (rule heap_ext_trans)
  let ?h2 = "?h\<lparr>hp_mem := m2\<rparr>"
  have n2: "n + frames_for ?m (program_files ?m (rev ms)) + 2 * length ms \<le> card (free_frames ?P (hp_mem ?h2))"
    using n w1(3) w2(3) by simp
  from tar_loop_done [OF w2(1) ar _ _ n2, of 0 "[]"] e2 obtain t h3 bs3 where
    t: "tar_loop ?P start 0 0 ?h2 = Some (t, h3)" and ki3: "kernel_inv ?P h3 bs3 kpd"
    and e3: "heap_ext ?P kpd {} ?m bs (hp_mem h3) bs3" and tl: "tar_list ?m (hp_mem h3) bs3 {} t (rev ms)"
    and n3: "n + frames_for ?m (program_files ?m (rev ms)) \<le> card (free_frames ?P (hp_mem h3))" by auto
  define K3 where "K3 = K\<lparr>kn_heap := h3\<rparr>"
  have b3: "boot_state L kpd bs3 [] K3" unfolding K3_def by (rule boot_state_ext [OF b ki3 e3])
  have K3: "kn_mem K3 = hp_mem h3" "kn_pmm K3 = ?P" by (simp_all add: K3_def)
  have "tar_list ?m (kn_mem K3) bs3 (busy L []) t (rev ms)"
    unfolding K3
  proof (rule tar_list_more [OF tl])
    fix d j x assume "(d, j) \<in> live (hp_mem h3) bs3" "in_slot (hp_mem h3) d j x" "x \<in> busy L []"
    moreover have "heap_inv ?P h3 bs3" using ki3 by (simp add: kernel_inv_def)
    ultimately have "page_of x \<in> set bs3" "x \<in> magic_bytes (ly_sp L)"
      using live_slot [of ?P h3 bs3 d j] in_slot_offset(1) [of "hp_mem h3" d j x] by (auto simp: proc_bytes_def)
    then show "x \<in> {}" using b3 by (simp add: boot_state_def kernel_ready_def)
  qed
  moreover have "\<forall>mem \<in> set (rev ms). member_ok (kn_pmm K3) kpd ?m mem" using ok K3 by simp
  moreover have "\<forall>x. page_of x = kpd \<longrightarrow> kn_mem K3 x = ?m x" using heap_ext_dir [OF e3] K3 by simp
  moreover have "n + frames_for ?m (program_files ?m (rev ms)) \<le> card (free_frames (kn_pmm K3) (kn_mem K3))"
    using n3 K3 by simp
  ultimately obtain K' ps' where
    K': "initrd_loop L kpd t K3 = Some K'" "started L kpd ?m [] bs3 K3 (program_files ?m (rev ms)) K' ps'"
      "n \<le> card (free_frames (kn_pmm K') (kn_mem K'))" using initrd_loop_done [OF b3] by blast
  have "load_initrd L mbd K = Some K'"
    using t K'(1) by (simp add: load_initrd_def Let_def pd start [symmetric] parse_tar_def m1_def [symmetric]
        m2_def [symmetric] K3_def [symmetric])
  with K' show ?thesis by (auto simp: started_def K3)
qed

end
