(* ===== verification/Start.thy ===== *)
theory Start
  imports Kmain
begin

text \<open>
  \<open>kmain\<close> (src/src/main.cpp) up to \<open>load_initrd\<close>: every part is set up, whatever the serial line and the
  screen held before, and what the boot loader left in memory is read as it was, since the screen lies apart.
\<close>

section \<open>What the set-up reads\<close>

definition boot_reads :: "memory \<Rightarrow> u32 \<Rightarrow> u32 set" where
  "boot_reads m mbd = {x. in_block mbd 52 x \<or> (\<exists>k < mmap_count m mbd. in_block (mmap_entry m mbd k) 24 x)}"

text \<open>The boot loader's map as \<open>PMM::init\<close> needs it, for the directory \<open>pd\<close>.\<close>

definition pmm_ready :: "memory \<Rightarrow> u32 \<Rightarrow> u32 \<Rightarrow> u32 \<Rightarrow> u32 \<Rightarrow> bool" where
  "pmm_ready m mbd kernel_start kernel_end pd \<longleftrightarrow>
     (let P = init_pmm m mbd kernel_end in
      0 < mbd_mmap_length m mbd \<and> unat (mbd_mmap_length m mbd) + 24 \<le> 2 ^ 32 \<and> pmm_nbFrames P \<le> 0xC0000 \<and>
      0xC0000000 \<le> kernel_start \<and> kernel_start \<le> 0xFFFF0000 \<and> 0xC0000000 \<le> bm_ptr (pmm_bm P) \<and> pd_wf m pd \<and>
      (\<forall>i < bitmap_pages P. present (pde m pd (pd_index (bitmap_page P i)))) \<and> (\<forall>x \<in> boot_info m mbd. init_spares m pd P x) \<and>
      mmap_type m (mmap_entry m mbd 0) = MULTIBOOT_MEMORY_AVAILABLE \<and> mmap_addr_low m (mmap_entry m mbd 0) = 0)"

lemma in_block_word: "in_block (a + k) 4 x \<Longrightarrow> unat k + 4 \<le> unat n \<Longrightarrow> in_block a n x"
proof -
  assume x: "in_block (a + k) 4 x" and n: "unat k + 4 \<le> unat n"
  have "x - a = k + (x - (a + k))" by simp
  moreover have "unat (k + (x - (a + k))) < unat n"
    using x n by (simp add: in_block_def) unat_arith
  ultimately show ?thesis unfolding in_block_def word_less_nat_alt by (simp only:)
qed

text \<open>A memory that still holds all that.\<close>

definition same_boot :: "memory \<Rightarrow> u32 \<Rightarrow> u32 \<Rightarrow> memory \<Rightarrow> bool" where
  "same_boot m mbd pd m' \<longleftrightarrow> (\<forall>x \<in> boot_reads m mbd. m' x = m x) \<and> (\<forall>x. page_of x = pd \<longrightarrow> m' x = m x)"

lemma same_boot_mbd: "same_boot m mbd pd m' \<Longrightarrow> unat k + 4 \<le> 52 \<Longrightarrow> load32 m' (mbd + k) = load32 m (mbd + k)"
  using in_block_word [of mbd k _ 52] by (intro load32_cong) (auto simp: same_boot_def boot_reads_def in_block_def)

lemma same_boot_header:
  assumes "same_boot m mbd pd m'"
  shows "mbd_flags m' mbd = mbd_flags m mbd" and "mbd_mmap_length m' mbd = mbd_mmap_length m mbd"
    and "mbd_mmap_addr m' mbd = mbd_mmap_addr m mbd" and "mmap_entry m' mbd k = mmap_entry m mbd k"
    and "mmap_count m' mbd = mmap_count m mbd" and "boot_info m' mbd = boot_info m mbd"
  using same_boot_mbd [OF assms, of 0] same_boot_mbd [OF assms, of 44] same_boot_mbd [OF assms, of 48]
  by (simp_all add: mbd_flags_def mbd_mmap_length_def mbd_mmap_addr_def mmap_entry_def mmap_count_def boot_info_def)

lemma same_boot_region:
  assumes "same_boot m mbd pd m'" and "k < mmap_count m mbd"
  shows "mmap_type m' (mmap_entry m mbd k) = mmap_type m (mmap_entry m mbd k)"
    and "mmap_addr_low m' (mmap_entry m mbd k) = mmap_addr_low m (mmap_entry m mbd k)"
    and "mmap_len m' (mmap_entry m mbd k) = mmap_len m (mmap_entry m mbd k)"
proof -
  have "load32 m' (mmap_entry m mbd k + j) = load32 m (mmap_entry m mbd k + j)" if "unat j + 4 \<le> 24" for j
    using in_block_word [of "mmap_entry m mbd k" j _ 24] assms that
    by (intro load32_cong) (auto simp: same_boot_def boot_reads_def in_block_def)
  from this [of 4] this [of 12] this [of 16] this [of 20]
  show "mmap_type m' (mmap_entry m mbd k) = mmap_type m (mmap_entry m mbd k)"
    "mmap_addr_low m' (mmap_entry m mbd k) = mmap_addr_low m (mmap_entry m mbd k)"
    "mmap_len m' (mmap_entry m mbd k) = mmap_len m (mmap_entry m mbd k)"
    by (simp_all add: mmap_type_def mmap_addr_low_def mmap_len_def)
qed

lemma same_boot_pmm: "same_boot m mbd pd m' \<Longrightarrow> init_pmm m' mbd ke = init_pmm m mbd ke"
proof -
  assume b: "same_boot m mbd pd m'"
  have "mmap_total m' mbd = mmap_total m mbd"
    unfolding mmap_total_def same_boot_header [OF b]
    by (intro arg_cong [where f = sum_list] map_cong refl) (simp add: same_boot_region(3) [OF b])
  then show ?thesis by (simp add: init_pmm_def)
qed

lemma same_boot_pde: "same_boot m mbd pd m' \<Longrightarrow> page_aligned pd \<Longrightarrow> i < 1024 \<Longrightarrow> pde m' pd i = pde m pd i"
  unfolding pde_def by (rule load32_entry_cong) (auto simp: same_boot_def)

lemma same_boot_ready:
  assumes b: "same_boot m mbd pd m'" and r: "pmm_ready m mbd ks ke pd"
  shows "pmm_ready m' mbd ks ke pd" and "init_spares m' pd P x = init_spares m pd P x"
proof -
  have wf: "pd_wf m pd" using r by (simp add: pmm_ready_def Let_def)
  then have al: "page_aligned pd" by (simp add: pd_wf_def)
  note pde = same_boot_pde [OF b al]
  have wf': "pd_wf m' pd" using wf pde by (simp add: pd_wf_def)
  show sp: "init_spares m' pd P x = init_spares m pd P x" for P x by (simp add: init_spares_def pde)
  have "0 < mbd_mmap_length m mbd" using r by (simp add: pmm_ready_def Let_def)
  then have "0 < unat (mbd_mmap_length m mbd)" by (simp add: word_less_nat_alt)
  then have "0 < mmap_count m mbd" unfolding mmap_count_def by presburger
  note first = same_boot_region [OF b this]
  show "pmm_ready m' mbd ks ke pd"
    using r wf' unfolding pmm_ready_def Let_def same_boot_header [OF b] same_boot_pmm [OF b] first by (simp add: pde sp)
qed

lemma pmm_init_ready:
  assumes "pmm_ready m mbd ks ke (get_current_pd cr)" and "drop_bit 6 (mbd_flags m mbd) AND 1 \<noteq> 0" and "fair (se_ports s)"
  shows "\<exists>m' s'. pmm_init ks ke cr mbd (P, m, s) = Some (init_pmm m mbd ke, m', s') \<and> fair (se_ports s') \<and>
    (\<forall>j. \<not> frame_used (init_pmm m mbd ke) j m') \<and>
    (\<forall>x. init_spares m (get_current_pd cr) (init_pmm m mbd ke) x \<longrightarrow> m' x = m x)"
  using assms(1) by (intro pmm_init_done assms(2,3)) (simp_all add: pmm_ready_def Let_def)

section \<open>Messages\<close>

abbreviation "screen \<equiv> (0xC03FF000 :: u32)"

definition talks :: "kernel \<Rightarrow> bool" where
  "talks K \<longleftrightarrow> fair (se_ports (kn_serial K)) \<and> (vg_init (kn_vga K) \<longrightarrow> vga_ok (kn_vga K) \<and> vg_screen (kn_vga K) = screen)"

lemma first_text: "\<not> vg_init v \<Longrightarrow> put_all vga_put (c # cs) (v, m) = put_all vga_put (c # cs) (init_vga v, m)"
proof -
  assume "\<not> vg_init v"
  moreover have "vg_init (init_vga v)" "(init_vga v)\<lparr>vg_init := True\<rparr> = init_vga v" by (simp_all add: init_vga_def)
  ultimately have "vga_write_char c (v, m) = vga_write_char c (init_vga v, m)" by (simp only: vga_write_char_def prod.case simp_thms if_True if_False)
  then show ?thesis by (simp add: vga_put_def)
qed

lemma announce_done:
  assumes K: "talks K" and msg: "lit text = c # cs" "c \<noteq> newline" "no_blank_line (c # cs)"
  shows "\<exists>s v m. announce text K = Some (with_mem m (K\<lparr>kn_serial := s, kn_vga := v\<rparr>)) \<and>
    talks (K\<lparr>kn_serial := s, kn_vga := v\<rparr>) \<and> (\<forall>x. \<not> in_block screen 4000 x \<longrightarrow> m x = kn_mem K x)"
proof -
  let ?v = "if vg_init (kn_vga K) then kn_vga K else init_vga (kn_vga K)"
  obtain s where s: "serial_log (c # cs) (kn_serial K) = Some s" "fair (se_ports s)"
    using K serial_log_returns [of "kn_serial K" "c # cs"] by (auto simp: talks_def)
  have v: "vga_ok ?v" "vg_screen ?v = screen" using K init_vga_ok [of "kn_vga K"] by (auto simp: talks_def)
  obtain v' m' where w: "put_all vga_put (c # cs) (?v, kn_mem K) = Some (v', m')" "vga_ok v'" "vg_screen v' = vg_screen ?v"
    and m': "\<And>a. \<not> in_block (vg_screen ?v) 4000 a \<Longrightarrow> m' a = kn_mem K a"
    by (rule write_text_safe [OF v(1) msg(3), of "kn_mem K"]) (use msg(2) in auto)
  have "put_all vga_put (c # cs) (kn_vga K, kn_mem K) = Some (v', m')"
    using w(1) first_text [of "kn_vga K" c cs] by (cases "vg_init (kn_vga K)") auto
  then have "announce text K = Some (with_mem m' (K\<lparr>kn_serial := s, kn_vga := v'\<rparr>))"
    using s(1) unfolding announce_def msg(1) serial_log_def [symmetric] by simp
  moreover have "talks (K\<lparr>kn_serial := s, kn_vga := v'\<rparr>)" using s(2) w(2,3) v(2) by (simp add: talks_def)
  ultimately show ?thesis using m' unfolding v(2) by blast
qed

text \<open>The kernel after a message: only the line and the screen have changed.\<close>

definition announced :: "kernel \<Rightarrow> kernel \<Rightarrow> bool" where
  "announced K K' \<longleftrightarrow> talks K' \<and> (\<forall>x. \<not> in_block screen 4000 x \<longrightarrow> kn_mem K' x = kn_mem K x) \<and>
     (\<exists>s v m. K' = with_mem m (K\<lparr>kn_serial := s, kn_vga := v\<rparr>))"

lemma announced_fields:
  "announced K K' \<Longrightarrow> kn_pmm K' = kn_pmm K" "announced K K' \<Longrightarrow> kn_sched K' = kn_sched K"
  "announced K K' \<Longrightarrow> kn_gdt K' = kn_gdt K" "announced K K' \<Longrightarrow> kn_idt K' = kn_idt K"
  "announced K K' \<Longrightarrow> kn_pic K' = kn_pic K" "announced K K' \<Longrightarrow> kn_pit K' = kn_pit K"
  "announced K K' \<Longrightarrow> kn_keyboard K' = kn_keyboard K" "announced K K' \<Longrightarrow> hp_buckets (kn_heap K') = hp_buckets (kn_heap K)"
  "announced K K' \<Longrightarrow> talks K'" "announced K K' \<Longrightarrow> \<not> in_block screen 4000 x \<Longrightarrow> kn_mem K' x = kn_mem K x"
  by (auto simp: announced_def with_mem_def)

lemma announces:
  assumes "talks K"
  shows "\<exists>K'. announce ''[MAIN] GDT > OK\<newline>'' K = Some K' \<and> announced K K'"
    and "\<exists>K'. announce ''[MAIN] IDT > OK\<newline>'' K = Some K' \<and> announced K K'"
    and "\<exists>K'. announce ''[MAIN] PMM > OK\<newline>'' K = Some K' \<and> announced K K'"
    and "\<exists>K'. announce ''[MAIN] Timer (PIT) > OK\<newline>'' K = Some K' \<and> announced K K'"
    and "\<exists>K'. announce ''[MAIN] Keyboard > OK\<newline>'' K = Some K' \<and> announced K K'"
proof -
  have one: "\<exists>K'. announce w K = Some K' \<and> announced K K'"
    if m: "lit w \<noteq> []" "hd (lit w) \<noteq> newline" "no_blank_line (lit w)" for w
  proof -
    obtain c cs where "lit w = c # cs" using m(1) by (cases "lit w") auto
    with m have msg: "lit w = c # cs" "c \<noteq> newline" "no_blank_line (c # cs)" by simp_all
    obtain s v m where a: "announce w K = Some (with_mem m (K\<lparr>kn_serial := s, kn_vga := v\<rparr>))"
      "talks (K\<lparr>kn_serial := s, kn_vga := v\<rparr>)" "\<forall>x. \<not> in_block screen 4000 x \<longrightarrow> m x = kn_mem K x"
      using announce_done [OF assms msg] by blast
    then have "announced K (with_mem m (K\<lparr>kn_serial := s, kn_vga := v\<rparr>))"
      unfolding announced_def by (auto simp: with_mem_def talks_def)
    with a(1) show ?thesis by blast
  qed
  show "\<exists>K'. announce ''[MAIN] GDT > OK\<newline>'' K = Some K' \<and> announced K K'"
    "\<exists>K'. announce ''[MAIN] IDT > OK\<newline>'' K = Some K' \<and> announced K K'"
    "\<exists>K'. announce ''[MAIN] PMM > OK\<newline>'' K = Some K' \<and> announced K K'"
    "\<exists>K'. announce ''[MAIN] Timer (PIT) > OK\<newline>'' K = Some K' \<and> announced K K'"
    "\<exists>K'. announce ''[MAIN] Keyboard > OK\<newline>'' K = Some K' \<and> announced K K'"
    by (rule one; simp add: lit_def)+
qed

section \<open>The parts one after the other\<close>

lemma start_gdt_done:
  assumes "talks K"
  shows "\<exists>K'. start_gdt L K = Some K' \<and> talks K' \<and>
    (\<exists>s. K' = K\<lparr>kn_gdt := gdt_fill (ly_tss L) (ly_gdt L) (ly_stack_top L) (kn_gdt K), kn_serial := s\<rparr>)"
proof -
  obtain s where "gdt_init (ly_tss L) (ly_gdt L) (ly_stack_top L) (kn_gdt K, kn_serial K) =
      Some (gdt_fill (ly_tss L) (ly_gdt L) (ly_stack_top L) (kn_gdt K), s)" "fair (se_ports s)"
    using assms gdt_init_returns unfolding talks_def by blast
  with assms show ?thesis by (auto simp: start_gdt_def talks_def)
qed

text \<open>The table of gates, all of it, as \<open>idt_gates\<close> has it for one.\<close>

definition gates_set :: "layout \<Rightarrow> (u32 \<Rightarrow> idt_entry) \<Rightarrow> bool" where
  "gates_set L idt \<longleftrightarrow> (\<forall>i < IDT_ENTRIES. gate (idt i) =
     (if i < 32 then Some (ly_isr_table L i, 0x08, 0)
      else if i < 48 then Some (ly_irq_table L (i - 32), 0x08, 0)
      else if i = 0x80 then Some (ly_isr_128 L, 0x08, 3) else None))"

lemma fair_PIC_new: "fair (snd (PIC_new (b, p))) = fair p"
  by (simp add: PIC_new_def Let_def)

lemma start_idt_done:
  assumes "talks K"
  shows "\<exists>K'. start_idt L K = Some K' \<and> talks K' \<and> gates_set L (kn_idt K') \<and>
    (\<exists>idt pic s. K' = K\<lparr>kn_idt := idt, kn_pic := pic, kn_serial := s\<rparr>)"
proof -
  have f: "fair (se_ports (kn_serial K))" using assms by (simp add: talks_def)
  have z: "(0 :: u32) < IDT_ENTRIES" by (simp add: IDT_ENTRIES_def)
  note gates = idt_init_gates [OF f, where isr_table = "ly_isr_table L" and irq_table = "ly_irq_table L" and
      ?isr_128.0 = "ly_isr_128 L" and idt = "kn_idt K" and pic = "kn_pic K"]
  obtain idt pic s where i: "idt_init (ly_isr_table L) (ly_irq_table L) (ly_isr_128 L) (kn_idt K, kn_pic K, kn_serial K) = Some (idt, pic, s)"
    using gates [OF z] by blast
  have "gates_set L idt" unfolding gates_set_def using gates by (simp add: i)
  moreover have "fair (se_ports s)"
  proof -
    obtain b p where p: "PIC_new (kn_pic K, se_ports (kn_serial K)) = (b, p)" by (rule prod.exhaust)
    then have "fair p" using fair_PIC_new [of "kn_pic K" "se_ports (kn_serial K)"] f by simp
    moreover have "serial_log (lit ''[MAIN] PIC > OK\<newline>'') ((kn_serial K)\<lparr>se_ports := p\<rparr>) = Some s"
      using i p by (auto simp: idt_init_def Let_def simp del: lit_simps)
    ultimately show ?thesis using serial_log_returns [of "(kn_serial K)\<lparr>se_ports := p\<rparr>" "lit ''[MAIN] PIC > OK\<newline>''"] by auto
  qed
  ultimately show ?thesis using assms i by (auto simp: start_idt_def talks_def)
qed

text \<open>
  The allocator after \<open>init\<close>, from the flags, with what memory keeps: \<open>init\<close> refuses a boot loader without a
  memory map with a message, and \<open>kmain\<close> goes on with the allocator as it was.
\<close>

definition map_given :: "memory \<Rightarrow> u32 \<Rightarrow> bool" where
  "map_given m mbd \<longleftrightarrow> drop_bit 6 (mbd_flags m mbd) AND 1 \<noteq> 0"

lemma start_pmm_done:
  fixes K :: kernel and L :: layout and mbd :: u32
  defines "pd \<equiv> get_current_pd (sc_cr3 (kn_sched K))" and "P' \<equiv> init_pmm (kn_mem K) mbd (ly_kernel_end L)"
  assumes K: "talks K"
    and ready: "map_given (kn_mem K) mbd \<Longrightarrow> pmm_ready (kn_mem K) mbd (ly_kernel_start L) (ly_kernel_end L) pd"
  shows "\<exists>K' P m s. start_pmm L mbd K = Some K' \<and> talks K' \<and> K' = with_mem m (K\<lparr>kn_pmm := P, kn_serial := s\<rparr>) \<and>
    (if map_given (kn_mem K) mbd
     then P = P' \<and> (\<forall>j. \<not> frame_used P' j m) \<and> (\<forall>x. init_spares (kn_mem K) pd P' x \<longrightarrow> m x = kn_mem K x)
     else P = kn_pmm K \<and> m = kn_mem K)"
proof (cases "map_given (kn_mem K) mbd")
  case True
  have "fair (se_ports (kn_serial K))" using K by (simp add: talks_def)
  then obtain m s where "pmm_init (ly_kernel_start L) (ly_kernel_end L) (sc_cr3 (kn_sched K)) mbd (kn_pmm K, kn_mem K, kn_serial K) =
      Some (P', m, s)" "fair (se_ports s)" "\<forall>j. \<not> frame_used P' j m" "\<forall>x. init_spares (kn_mem K) pd P' x \<longrightarrow> m x = kn_mem K x"
    using pmm_init_ready [OF ready [unfolded pd_def, OF True]] True unfolding P'_def pd_def map_given_def by blast
  with True K show ?thesis
    by (intro exI [of _ "with_mem m (K\<lparr>kn_pmm := P', kn_serial := s\<rparr>)"] exI [of _ P'] exI [of _ m] exI [of _ s])
      (simp add: start_pmm_def talks_def with_mem_def)
next
  case False
  obtain s where s: "serial_log (lit ''[ERROR] INVALID MULTIBOOT FLAG in Physical Memory Manager!\<newline>'') (kn_serial K) = Some s"
    "fair (se_ports s)" using K serial_log_returns unfolding talks_def by blast
  have "pmm_init (ly_kernel_start L) (ly_kernel_end L) (sc_cr3 (kn_sched K)) mbd (kn_pmm K, kn_mem K, kn_serial K) =
      Some (kn_pmm K, kn_mem K, s)" using False s(1) by (simp add: pmm_init_def map_given_def del: lit_simps)
  with False K s(2) show ?thesis
    by (intro exI [of _ "with_mem (kn_mem K) (K\<lparr>kn_pmm := kn_pmm K, kn_serial := s\<rparr>)"] exI [of _ "kn_pmm K"] exI [of _ "kn_mem K"] exI [of _ s])
      (simp add: start_pmm_def talks_def with_mem_def)
qed

lemma start_timer_done:
  assumes "talks K"
  shows "\<exists>K'. start_timer K = Some K' \<and> talks K' \<and> pt_init (kn_pit K') \<and> (\<exists>t s. K' = K\<lparr>kn_pit := t, kn_serial := s\<rparr>)"
proof -
  have "\<exists>t p. PIT_new 10 (kn_pit K, se_ports (kn_serial K)) = Some (t, p) \<and> pt_init t \<and> fair p"
    using assms by (simp add: PIT_new_def Let_def talks_def)
  then obtain t p where "PIT_new 10 (kn_pit K, se_ports (kn_serial K)) = Some (t, p)" "pt_init t" "fair p" by blast
  with assms show ?thesis by (auto simp: start_timer_def talks_def)
qed

section \<open>kmain\<close>

definition screen_apart :: "memory \<Rightarrow> u32 \<Rightarrow> u32 \<Rightarrow> pmm \<Rightarrow> bool" where
  "screen_apart m mbd pd P \<longleftrightarrow> (\<forall>x. in_block screen 4000 x \<longrightarrow> x \<notin> boot_reads m mbd \<and> page_of x \<noteq> pd \<and> \<not> in_bitmap (pmm_bm P) x)"

lemma screen_apart_same: "screen_apart m mbd pd P \<Longrightarrow> (\<And>x. \<not> in_block screen 4000 x \<Longrightarrow> m' x = m x) \<Longrightarrow> same_boot m mbd pd m'"
  unfolding screen_apart_def same_boot_def by blast

text \<open>The allocator and the memory when \<open>load_initrd\<close> is called, from those \<open>kmain\<close> was called with.\<close>

definition memory_prepared :: "layout \<Rightarrow> u32 \<Rightarrow> kernel \<Rightarrow> kernel \<Rightarrow> bool" where
  "memory_prepared L mbd K K' \<longleftrightarrow>
     (let P = init_pmm (kn_mem K) mbd (ly_kernel_end L); pd = get_current_pd (sc_cr3 (kn_sched K)) in
      if map_given (kn_mem K) mbd
      then kn_pmm K' = P \<and> (\<forall>j. \<not> frame_used P j (kn_mem K')) \<and>
        (\<forall>x. \<not> in_block screen 4000 x \<longrightarrow> init_spares (kn_mem K) pd P x \<longrightarrow> kn_mem K' x = kn_mem K x)
      else kn_pmm K' = kn_pmm K \<and> (\<forall>x. \<not> in_block screen 4000 x \<longrightarrow> kn_mem K' x = kn_mem K x))"

definition prepared :: "layout \<Rightarrow> u32 \<Rightarrow> kernel \<Rightarrow> kernel \<Rightarrow> bool" where
  "prepared L mbd K K' \<longleftrightarrow> talks K' \<and> memory_prepared L mbd K K' \<and>
     kn_gdt K' = gdt_fill (ly_tss L) (ly_gdt L) (ly_stack_top L) (kn_gdt K) \<and> gates_set L (kn_idt K') \<and>
     pt_init (kn_pit K') \<and> kn_keyboard K' = Keyboard_new (kn_keyboard K) \<and> kn_sched K' = kn_sched K \<and>
     hp_buckets (kn_heap K') = hp_buckets (kn_heap K)"

lemma memory_preparedI:
  fixes K :: kernel and L :: layout and mbd :: u32
  defines "P \<equiv> init_pmm (kn_mem K) mbd (ly_kernel_end L)" and "pd \<equiv> get_current_pd (sc_cr3 (kn_sched K))"
  assumes apart: "screen_apart (kn_mem K) mbd pd P" and before: "\<And>x. \<not> in_block screen 4000 x \<Longrightarrow> m1 x = kn_mem K x"
    and after: "\<And>x. \<not> in_block screen 4000 x \<Longrightarrow> kn_mem K' x = m2 x"
    and step: "if map_given (kn_mem K) mbd
      then kn_pmm K' = P \<and> (\<forall>j. \<not> frame_used P j m2) \<and> (\<forall>x. init_spares (kn_mem K) pd P x \<longrightarrow> m2 x = m1 x)
      else kn_pmm K' = kn_pmm K \<and> m2 = m1"
  shows "memory_prepared L mbd K K'"
proof -
  have "frame_used P j (kn_mem K') = frame_used P j m2" for j
    using apart after by (intro frame_used_cong) (auto simp: screen_apart_def)
  then show ?thesis using step before after by (auto simp: memory_prepared_def Let_def P_def pd_def)
qed

lemma start_tables_done:
  assumes "talks K"
  shows "\<exists>K1 K2. Option.bind (start_gdt L K) (announce ''[MAIN] GDT > OK\<newline>'') = Some K1 \<and>
    Option.bind (start_idt L K1) (announce ''[MAIN] IDT > OK\<newline>'') = Some K2 \<and> talks K2 \<and> gates_set L (kn_idt K2) \<and>
    kn_gdt K2 = gdt_fill (ly_tss L) (ly_gdt L) (ly_stack_top L) (kn_gdt K) \<and> kn_pmm K2 = kn_pmm K \<and> kn_sched K2 = kn_sched K \<and>
    kn_keyboard K2 = kn_keyboard K \<and> hp_buckets (kn_heap K2) = hp_buckets (kn_heap K) \<and>
    (\<forall>x. \<not> in_block screen 4000 x \<longrightarrow> kn_mem K2 x = kn_mem K x)"
proof -
  obtain Ka sa where a: "start_gdt L K = Some Ka" "talks Ka"
    and Ka: "Ka = K\<lparr>kn_gdt := gdt_fill (ly_tss L) (ly_gdt L) (ly_stack_top L) (kn_gdt K), kn_serial := sa\<rparr>"
    using start_gdt_done [OF assms] by blast
  obtain K1 where 1: "announce ''[MAIN] GDT > OK\<newline>'' Ka = Some K1" "announced Ka K1" using announces(1) [OF a(2)] by blast
  note f1 = announced_fields [OF 1(2)]
  obtain Kb idt pic sb where b: "start_idt L K1 = Some Kb" "talks Kb" "gates_set L (kn_idt Kb)"
    and Kb: "Kb = K1\<lparr>kn_idt := idt, kn_pic := pic, kn_serial := sb\<rparr>" using start_idt_done [OF f1(9)] by blast
  obtain K2 where 2: "announce ''[MAIN] IDT > OK\<newline>'' Kb = Some K2" "announced Kb K2" using announces(2) [OF b(2)] by blast
  note f2 = announced_fields [OF 2(2)]
  show ?thesis
    using a(1) b 1(1) 2(1) f2(9) by (intro exI [of _ K1] exI [of _ K2]) (simp add: f1 f2 Ka Kb)
qed

lemma start_devices_done:
  assumes "talks K"
  shows "\<exists>K1 K2. Option.bind (start_timer K) (announce ''[MAIN] Timer (PIT) > OK\<newline>'') = Some K1 \<and>
    announce ''[MAIN] Keyboard > OK\<newline>'' (start_keyboard K1) = Some K2 \<and> talks K2 \<and> pt_init (kn_pit K2) \<and>
    kn_keyboard K2 = Keyboard_new (kn_keyboard K) \<and> kn_gdt K2 = kn_gdt K \<and> kn_idt K2 = kn_idt K \<and> kn_pmm K2 = kn_pmm K \<and>
    kn_sched K2 = kn_sched K \<and> hp_buckets (kn_heap K2) = hp_buckets (kn_heap K) \<and>
    (\<forall>x. \<not> in_block screen 4000 x \<longrightarrow> kn_mem K2 x = kn_mem K x)"
proof -
  obtain Kd t sd where d: "start_timer K = Some Kd" "talks Kd" "pt_init (kn_pit Kd)" and Kd: "Kd = K\<lparr>kn_pit := t, kn_serial := sd\<rparr>"
    using start_timer_done [OF assms] by blast
  obtain K1 where 1: "announce ''[MAIN] Timer (PIT) > OK\<newline>'' Kd = Some K1" "announced Kd K1" using announces(4) [OF d(2)] by blast
  note f1 = announced_fields [OF 1(2)]
  have "talks (start_keyboard K1)" using f1(9) by (simp add: talks_def start_keyboard_def)
  then obtain K2 where 2: "announce ''[MAIN] Keyboard > OK\<newline>'' (start_keyboard K1) = Some K2" "announced (start_keyboard K1) K2"
    using announces(5) by blast
  note f2 = announced_fields [OF 2(2)]
  show ?thesis
    using d 1(1) 2(1) f2(9) by (intro exI [of _ K1] exI [of _ K2]) (simp add: f1 f2 Kd start_keyboard_def)
qed

lemma kmain_prepares:
  fixes K :: kernel and L :: layout and mbd :: u32
  defines "m \<equiv> kn_mem K" and "pd \<equiv> get_current_pd (sc_cr3 (kn_sched K))"
  assumes K: "talks K" and apart: "screen_apart m mbd pd (init_pmm m mbd (ly_kernel_end L))"
    and ready: "map_given m mbd \<Longrightarrow> pmm_ready m mbd (ly_kernel_start L) (ly_kernel_end L) pd"
  shows "\<exists>K'. prepared L mbd K K' \<and> kmain L mbd MULTIBOOT_BOOTLOADER_MAGIC K =
    map_option (\<lambda>K6. K6\<lparr>kn_sched := enable_scheduling (kn_sched K6)\<rparr>) (load_initrd L mbd K')"
proof -
  let ?P = "init_pmm m mbd (ly_kernel_end L)"
  obtain K1 K2 where a: "Option.bind (start_gdt L K) (announce ''[MAIN] GDT > OK\<newline>'') = Some K1"
      "Option.bind (start_idt L K1) (announce ''[MAIN] IDT > OK\<newline>'') = Some K2" "talks K2" "gates_set L (kn_idt K2)"
      "kn_gdt K2 = gdt_fill (ly_tss L) (ly_gdt L) (ly_stack_top L) (kn_gdt K)"
    and a2: "kn_pmm K2 = kn_pmm K" "kn_sched K2 = kn_sched K" "kn_keyboard K2 = kn_keyboard K"
      "hp_buckets (kn_heap K2) = hp_buckets (kn_heap K)" and m2: "\<And>x. \<not> in_block screen 4000 x \<Longrightarrow> kn_mem K2 x = m x"
    using start_tables_done [OF K, of L] unfolding m_def by blast
  have sb: "same_boot m mbd pd (kn_mem K2)" by (rule screen_apart_same [OF apart]) (rule m2)
  have pd: "get_current_pd (sc_cr3 (kn_sched K2)) = pd" by (simp add: a2 pd_def)
  have mg: "map_given (kn_mem K2) mbd = map_given m mbd" by (simp add: map_given_def same_boot_header [OF sb])
  obtain Kc P m3 sc where c: "start_pmm L mbd K2 = Some Kc" "talks Kc" and Kc: "Kc = with_mem m3 (K2\<lparr>kn_pmm := P, kn_serial := sc\<rparr>)"
    and mem: "if map_given m mbd
      then P = ?P \<and> (\<forall>j. \<not> frame_used ?P j m3) \<and> (\<forall>x. init_spares (kn_mem K2) pd ?P x \<longrightarrow> m3 x = kn_mem K2 x)
      else P = kn_pmm K2 \<and> m3 = kn_mem K2"
    using start_pmm_done [OF a(3), of mbd L, unfolded pd mg same_boot_pmm [OF sb], OF same_boot_ready(1) [OF sb ready]] by blast
  obtain K3 where 3: "announce ''[MAIN] PMM > OK\<newline>'' Kc = Some K3" "announced Kc K3" using announces(3) [OF c(2)] by blast
  note f3 = announced_fields [OF 3(2)]
  obtain K4 K5 where d: "Option.bind (start_timer K3) (announce ''[MAIN] Timer (PIT) > OK\<newline>'') = Some K4"
      "announce ''[MAIN] Keyboard > OK\<newline>'' (start_keyboard K4) = Some K5" "talks K5" "pt_init (kn_pit K5)"
    and d2: "kn_keyboard K5 = Keyboard_new (kn_keyboard K3)" "kn_gdt K5 = kn_gdt K3" "kn_idt K5 = kn_idt K3" "kn_pmm K5 = kn_pmm K3"
      "kn_sched K5 = kn_sched K3" "hp_buckets (kn_heap K5) = hp_buckets (kn_heap K3)"
    and m5: "\<And>x. \<not> in_block screen 4000 x \<Longrightarrow> kn_mem K5 x = kn_mem K3 x" using start_devices_done [OF f3(9)] by blast
  note fields = a2 f3 d2 Kc with_mem_def
  have after: "kn_mem K5 x = m3 x" if "\<not> in_block screen 4000 x" for x using f3(10) m5 that by (simp add: Kc with_mem_def)
  have spares: "init_spares (kn_mem K2) pd ?P x = init_spares m pd ?P x" if "map_given m mbd" for x
    using same_boot_ready(2) [OF sb ready] that by blast
  have "memory_prepared L mbd K K5"
    by (rule memory_preparedI [of K mbd L, folded m_def pd_def, OF apart m2 after]) (use mem spares in \<open>auto simp: fields\<close>)
  then have "prepared L mbd K K5" using a(4,5) d(3,4) by (simp add: prepared_def fields)
  moreover have "kmain L mbd MULTIBOOT_BOOTLOADER_MAGIC K =
      map_option (\<lambda>K6. K6\<lparr>kn_sched := enable_scheduling (kn_sched K6)\<rparr>) (load_initrd L mbd K5)"
    by (simp only: kmain_def a(1,2) c(1) 3(1) d(1,2) bind.bind_lunit simp_thms if_False)
  ultimately show ?thesis by blast
qed

end
