(* ===== verification/Disk.thy ===== *)
theory Disk
  imports Machines Initrd Start
begin

text \<open>
  A machine that is ready to read its initial ramdisk: an allocator, the kernel's address space, what the boot
  loader left in memory, and an archive with one program in it. The properties of the loader and of the start
  of the kernel are applied to it.
\<close>

section \<open>The memory\<close>

text \<open>
  Sixty-four frames: the bitmap in frame 0, the kernel's directory in frame 1 with one table (frame 4) for
  the window at 3 GB, an archive in frame 2 with one member, an ELF file of a hundred bytes named
  \<open>test_exec\<close> whose segment of four bytes is for 0x400000, and in frame 3 what the boot loader left, the names
  of the programs, a program header whose four bytes cross into the page at 0x401000, and the kernel's stack.
\<close>

definition disk_pmm :: pmm where
  "disk_pmm = \<lparr>pmm_nbFrames = 64, pmm_bm = \<lparr>bm_ptr = 0xC0000000, bm_size = 8\<rparr>\<rparr>"

definition bytes_at :: "u32 \<Rightarrow> u8 list \<Rightarrow> memory \<Rightarrow> memory" where
  "bytes_at a cs m x = (if unat (x - a) < length cs then cs ! unat (x - a) else m x)"

abbreviation "disk_pd \<equiv> window_pd"
abbreviation "disk_tar \<equiv> (0xC0002000 :: u32)"
abbreviation "disk_elf \<equiv> (0xC0002200 :: u32)"
abbreviation "disk_mbd \<equiv> (0xC0003100 :: u32)"
abbreviation "disk_wide \<equiv> (0xC0003400 :: u32)"
abbreviation "disk_sp \<equiv> (0xC0003800 :: u32)"

definition disk_archive :: memory where
  "disk_archive = bytes_at 0xC0002000 (lit ''test_exec'') (bytes_at 0xC000207C (lit ''00000000144'') (
     (\<lambda>_. 0)(0xC0002200 := 0x7F, 0xC0002201 := 0x45, 0xC0002202 := 0x4C, 0xC0002203 := 0x46,
       0xC000221A := 0x40, 0xC000221C := 0x34, 0xC000222A := 0x20, 0xC000222C := 1, 0xC0002234 := 1,
       0xC0002238 := 0x60, 0xC000223E := 0x40, 0xC0002244 := 4,
       0xC0002260 := 0xEB, 0xC0002261 := 0xFE, 0xC0002262 := 0x90, 0xC0002263 := 0x90)))"

definition disk_data :: memory where
  "disk_data = store32 (disk_mbd + 24) 0x3200 (store32 0xC0003200 0x2000 (
     store32 (disk_wide + 8) 0x400FFE (store32 (disk_wide + 16) 4 (bytes_at 0xC0003300 (lit ''test_exec_one'') (bytes_at 0xC0003340 (lit ''test_exec_two'')
     (bytes_at 0xC0003380 (lit ''test_exec'') (\<lambda>_. 0)))))))"

definition disk_mem :: memory where
  "disk_mem x = (if page_of x = 0xC0000000 then (if x = 0xC0000000 then 0x1E else 0)
     else if page_of x = disk_pd then window_dir x
     else if page_of x = 0xC0002000 then disk_archive x
     else if page_of x = 0xC0003000 then disk_data x else 0)"

definition disk_heap :: heap where
  "disk_heap = \<lparr>hp_buckets = 0, hp_mem = disk_mem\<rparr>"

definition proc_none :: sched where
  "proc_none = \<lparr>sc_processes = 0, sc_current = 0, sc_init = False, sc_cr3 = 0x1000\<rparr>"

definition disk_layout :: layout where
  "disk_layout = sample_layout\<lparr>ly_sp := disk_sp, ly_test_exec_one := 0xC0003300, ly_test_exec_two := 0xC0003340,
     ly_test_exec := 0xC0003380\<rparr>"

definition disk_kernel :: kernel where
  "disk_kernel = sample_kernel\<lparr>kn_pmm := disk_pmm, kn_heap := disk_heap, kn_sched := proc_none\<rparr>"

lemma disk_simps [simp]: "hp_mem disk_heap = disk_mem" "kn_heap disk_kernel = disk_heap" "kn_pmm disk_kernel = disk_pmm"
    "kn_sched disk_kernel = proc_none" "kn_serial disk_kernel = sample_serial" "ly_sp disk_layout = disk_sp"
    "ly_test_exec_one disk_layout = 0xC0003300" "ly_test_exec_two disk_layout = 0xC0003340" "ly_test_exec disk_layout = 0xC0003380"
  by (simp_all add: disk_heap_def disk_kernel_def disk_layout_def sample_kernel_def)

lemma disk_page: "j < 4096 \<Longrightarrow> page_of (0xC0000000 + j) = 0xC0000000" "j < 4096 \<Longrightarrow> page_of (0xC0002000 + j) = 0xC0002000"
    "j < 4096 \<Longrightarrow> page_of (0xC0003000 + j) = 0xC0003000"
  by (simp_all add: page_of_offset)

lemma disk_used: "frame_used disk_pmm i disk_mem \<longleftrightarrow> i \<in> {1, 2, 3, 4}"
proof -
  have b: "bit (0x1E :: u8) (unat (i mod 8)) \<longleftrightarrow> i mod 8 \<in> {1, 2, 3, 4}"
  proof -
    have "unat (i mod 8) \<in> {..<8}" by (simp add: unat_mod_8)
    moreover have "i mod 8 \<in> {1, 2, 3, 4} \<longleftrightarrow> unat (i mod 8) \<in> {1, 2, 3, 4}" by (simp add: word_unat_eq_iff)
    moreover have "bit (0x1E :: u8) n \<longleftrightarrow> n \<in> {1, 2, 3, 4}" if "n \<in> {..<8}" for n
      using that by (auto simp: lessThan_nat_numeral lessThan_Suc)
    ultimately show ?thesis by blast
  qed
  have z: "disk_mem (0xC0000000 + i div 8) = (if i div 8 = 0 then 0x1E else 0)" if "i div 8 < 8"
  proof (cases "i div 8 = 0")
    case False
    have "page_of (0xC0000000 + i div 8) = 0xC0000000" using that by (intro disk_page) (simp add: less_trans)
    with False show ?thesis by (simp add: disk_mem_def)
  qed (simp add: disk_mem_def page_of_def)
  have e: "i = k \<longleftrightarrow> i div 8 = 0 \<and> i mod 8 = k" if "k \<in> {1, 2, 3, 4}" for k
    using eq_iff_div_mod_8 [of i k] that by auto
  have f: "frame_used disk_pmm i disk_mem \<longleftrightarrow> i div 8 < 8 \<and> bit (disk_mem (0xC0000000 + i div 8)) (unat (i mod 8))"
    by (simp add: frame_used_def get_bit_iff valid_bit_def disk_pmm_def)
  show ?thesis
  proof (cases "i div 8 = 0")
    case True
    then show ?thesis unfolding f using b z e by simp
  next
    case False
    then show ?thesis unfolding f using z e by (cases "i div 8 < 8") simp_all
  qed
qed

lemma disk_fa_inv: "fa_inv (disk_pmm, m)"
  by (simp add: fa_inv_def pmm_wf_def disk_pmm_def)

lemma disk_bitmap_apart: "page_aligned q \<Longrightarrow> q \<noteq> 0xC0000000 \<Longrightarrow> bitmap_apart disk_pmm q"
proof -
  assume q: "page_aligned q" "q \<noteq> 0xC0000000"
  have "page_of x = 0xC0000000" if "x - 0xC0000000 < 8" for x
    using page_of_offset [of "0xC0000000" "x - 0xC0000000"] that by (simp add: page_aligned_def page_of_def less_trans)
  with q show ?thesis by (auto simp: bitmap_apart_def in_bitmap_def in_block_def disk_pmm_def)
qed

lemma disk_free_apart: "free_apart disk_pmm disk_mem"
  unfolding free_apart_def
proof (intro allI impI)
  fix i assume "1 \<le> i \<and> i < pmm_nbFrames disk_pmm \<and> \<not> frame_used disk_pmm i disk_mem"
  then have "1 \<le> i" "i < 64" by (simp_all add: disk_pmm_def)
  then have i: "i \<noteq> 0" "i < 0x40000" by (auto elim: less_trans)
  have "P2V (i * FRAME_SIZE) \<noteq> P2V (0 * FRAME_SIZE)" using i by (subst window_frame_inj) simp_all
  then have "P2V (i * FRAME_SIZE) \<noteq> 0xC0000000" by (simp add: P2V_def KERNEL_OFFSET_def)
  then show "bitmap_apart disk_pmm (P2V (i * FRAME_SIZE))" by (intro disk_bitmap_apart page_aligned_P2V page_aligned_frame)
qed

lemma disk_owned: "q \<in> {0xC0001000, 0xC0002000, 0xC0003000, 0xC0004000} \<Longrightarrow> owned disk_pmm disk_mem q"
proof -
  have "owned disk_pmm disk_mem q" if "q = P2V (i * FRAME_SIZE)" "i \<in> {1, 2, 3, 4}" for q i
  proof -
    have "1 \<le> i" "i < pmm_nbFrames disk_pmm" using that(2) by (auto simp: disk_pmm_def)
    with that disk_used [of i] show ?thesis unfolding owned_def by blast
  qed
  from this [of _ 1] this [of _ 2] this [of _ 3] this [of _ 4]
  show "q \<in> {0xC0001000, 0xC0002000, 0xC0003000, 0xC0004000} \<Longrightarrow> owned disk_pmm disk_mem q"
    by (auto simp: P2V_def KERNEL_OFFSET_def FRAME_SIZE_def)
qed

lemma disk_dir: "page_of x = disk_pd \<Longrightarrow> disk_mem x = window_dir x"
  by (simp add: disk_mem_def)

lemma disk_pde: "i < 1024 \<Longrightarrow> pde disk_mem disk_pd i = (if i = 768 then 0x4003 else 0)"
  by (rule window_pde) (simp_all add: disk_dir)

lemma disk_table:
  "i < 1024 \<Longrightarrow> present (pde disk_mem disk_pd i) \<longleftrightarrow> i = 768"
  "i < 1024 \<Longrightarrow> present (pde disk_mem disk_pd i) \<Longrightarrow> table_of (pde disk_mem disk_pd i) = 0xC0004000"
  by (rule window_table; simp add: disk_dir)+

lemma disk_outside: "q \<noteq> disk_pd \<Longrightarrow> q \<noteq> 0xC0004000 \<Longrightarrow> outside_pd disk_mem disk_pd q"
  unfolding outside_pd_def using disk_table(2) by metis

lemma disk_as_inv: "as_inv disk_pmm disk_mem disk_pd"
  unfolding as_inv_def
proof (intro conjI allI impI)
  show "fa_inv (disk_pmm, disk_mem)" "free_apart disk_pmm disk_mem" by (rule disk_fa_inv disk_free_apart)+
  show "owned disk_pmm disk_mem disk_pd" by (simp add: disk_owned)
  have "bitmap_apart disk_pmm disk_pd" "bitmap_apart disk_pmm 0xC0004000" by (rule disk_bitmap_apart; simp)+
  then show "tables_apart disk_pmm disk_mem disk_pd" unfolding tables_apart_def using disk_table(2) by metis
  show "pd_wf disk_mem disk_pd" by (rule window_pd_wf [OF disk_dir])
  show "owned disk_pmm disk_mem (table_of (pde disk_mem disk_pd i))" if "i < 1024" "present (pde disk_mem disk_pd i)" for i
    using disk_table(2) [OF that] by (simp add: disk_owned)
qed

lemma disk_kernel_data: "page_of x = 0xC0002000 \<or> page_of x = 0xC0003000 \<Longrightarrow> kernel_data disk_pmm disk_mem disk_pd x"
proof -
  assume x: "page_of x = 0xC0002000 \<or> page_of x = 0xC0003000"
  have "outside_pd disk_mem disk_pd (page_of x)" using x by (intro disk_outside) auto
  moreover have "bitmap_apart disk_pmm (page_of x)" using x by (intro disk_bitmap_apart) auto
  moreover have "owned disk_pmm disk_mem (page_of x)" using x by (intro disk_owned) auto
  ultimately show ?thesis by (simp add: kernel_data_def)
qed

lemma disk_world: "world disk_pmm disk_heap [] disk_pd proc_none []"
  using disk_as_inv by (simp add: world_def kernel_inv_def heap_inv_def disk_heap_def as_inv_def proc_none_def)

lemma disk_free_frames: "32 \<le> card (free_frames disk_pmm disk_mem)"
proof -
  have inj: "inj_on (of_nat :: nat \<Rightarrow> u32) {5..<37}"
    by (rule inj_on_inverseI [where g = unat]) (simp add: unat_of_nat)
  have "of_nat ` {5..<37} \<subseteq> free_frames disk_pmm disk_mem"
  proof
    fix i :: u32 assume "i \<in> of_nat ` {5..<37}"
    then obtain n where n: "i = of_nat n" "5 \<le> n" "n < 37" by auto
    then have "unat i = n" by (simp add: unat_of_nat)
    then have "5 \<le> i" "i < 37" using n by (simp_all add: word_le_nat_alt word_less_nat_alt)
    then have "1 \<le> i" "i < 64" "i \<notin> {1, 2, 3, 4}" by (auto simp: word_le_nat_alt word_less_nat_alt)
    then show "i \<in> free_frames disk_pmm disk_mem" using disk_used by (simp add: free_frames_def disk_pmm_def)
  qed
  then have "card (of_nat ` {5..<37} :: u32 set) \<le> card (free_frames disk_pmm disk_mem)"
    by (intro card_mono) (auto simp: free_frames_def)
  then show ?thesis using inj by (simp add: card_image)
qed

section \<open>The program\<close>

lemma disk_fields: "e_entry disk_mem disk_elf = 0x400000" "e_phnum disk_mem disk_elf = 1" "phdr disk_mem disk_elf 0 = 0xC0002234"
    "p_type disk_mem 0xC0002234 = 1" "p_offset disk_mem 0xC0002234 = 0x60" "p_vaddr disk_mem 0xC0002234 = 0x400000"
    "p_filesz disk_mem 0xC0002234 = 4"
  by (simp_all add: e_entry_def e_phnum_def phdr_def e_phoff_def e_phentsize_def p_type_def p_offset_def p_vaddr_def p_filesz_def
      load32_def load16_def disk_mem_def page_of_def disk_archive_def bytes_at_def del: lit_simps) (simp_all add: lit_def)

text \<open>What the loader reads lies in the hundred bytes of the file.\<close>

lemma disk_elf_ok: "(\<And>j. j < 100 \<Longrightarrow> disk_elf + j \<notin> E) \<Longrightarrow> elf_ok disk_pmm disk_pd E disk_mem disk_elf"
proof -
  assume E: "\<And>j. j < 100 \<Longrightarrow> disk_elf + j \<notin> E"
  have ok: "kernel_data disk_pmm disk_mem disk_pd (disk_elf + j) \<and> disk_elf + j \<notin> E" if "j < 100" for j
    using disk_page(2) [of "0x200 + j"] E [OF that] that
    by (auto intro!: disk_kernel_data simp: word_less_nat_alt unat_word_ariths)
  have ph: "kernel_data disk_pmm disk_mem disk_pd (0xC0002234 + j) \<and> 0xC0002234 + j \<notin> E" if "j < 32" for j
    using ok [of "0x34 + j"] that by (simp add: add.assoc [symmetric] word_less_nat_alt unat_word_ariths)
  have data: "kernel_data disk_pmm disk_mem disk_pd (0xC0002260 + j) \<and> 0xC0002260 + j \<notin> E" if "j < 4" for j
    using ok [of "0x60 + j"] that by (simp add: add.assoc [symmetric] word_less_nat_alt unat_word_ariths)
  have "segment_ok disk_pmm disk_pd E disk_mem disk_elf 0xC0002234"
    using ph data by (simp add: segment_ok_def loadable_def disk_fields)
  moreover have "kernel_data disk_pmm disk_mem disk_pd (disk_elf + j) \<and> disk_elf + j \<notin> E" if "j < 52" for j
    using ok [of j] that by (simp add: less_trans)
  ultimately show ?thesis by (auto simp: elf_ok_def disk_fields dest!: word_less_1 [THEN iffD1])
qed

lemma disk_elf_magic: "elf_magic disk_mem disk_elf"
  by (simp add: elf_magic_def disk_mem_def page_of_def disk_archive_def bytes_at_def del: lit_simps) (simp add: lit_def)

lemma disk_stack: "x \<in> magic_bytes disk_sp \<Longrightarrow> page_of x = 0xC0003000 \<and> kernel_data disk_pmm disk_mem disk_pd x"
proof -
  assume x: "x \<in> magic_bytes disk_sp"
  define d where "d = x - disk_sp"
  have d: "d < 4" "x = 0xC0003000 + (0x800 + d)" using x by (simp_all add: d_def magic_bytes_def in_block_def)
  then have "page_of x = 0xC0003000" unfolding d(2) by (intro disk_page) (simp add: word_less_nat_alt unat_word_ariths)
  then show ?thesis by (simp add: disk_kernel_data)
qed

lemma disk_file: "disk_elf + j \<notin> magic_bytes disk_sp" if "j < 100"
  using disk_stack [of "disk_elf + j"] disk_page(2) [of "0x200 + j"] that
  by (auto simp: word_less_nat_alt unat_word_ariths)

lemma disk_bootable: "bootable disk_pmm disk_pd disk_mem disk_elf 100"
proof -
  have "elf_ok disk_pmm disk_pd (- {x. in_block disk_elf 100 x}) disk_mem disk_elf"
    by (rule disk_elf_ok) (simp add: in_block_def)
  moreover have "user_segments disk_pd disk_mem disk_elf"
    by (auto simp: user_segments_def disk_fields pd_index_def disk_pde present_def dest!: word_less_1 [THEN iffD1])
  ultimately show ?thesis by (simp add: bootable_def program_file_def disk_elf_magic)
qed

section \<open>The archive\<close>

lemma disk_names: "cstring_at disk_mem 0xC0003300 (lit ''test_exec_one'')" "cstring_at disk_mem 0xC0003340 (lit ''test_exec_two'')"
    "cstring_at disk_mem 0xC0003380 (lit ''test_exec'')" "cstring_at disk_mem disk_tar (lit ''test_exec'')"
  by (simp_all add: disk_mem_def page_of_def disk_archive_def disk_data_def bytes_at_def store32_def)

lemma disk_size: "octal_field disk_mem (disk_tar + TAR_SIZE) 100"
proof -
  have digit: "lit ''00000000144'' ! k = of_nat (48 + 100 div 8 ^ (10 - k) mod 8)" if "k < 11" for k
  proof -
    have "k \<in> set [0..<11]" using that by simp
    then show ?thesis by (auto simp: upt_rec)
  qed
  have at: "disk_mem (0xC000207C + of_nat k) = lit ''00000000144'' ! k" if "k < 11" for k
  proof -
    have u: "unat (0x7C + of_nat k :: u32) = 0x7C + k" using that by (simp add: unat_word_ariths unat_of_nat)
    then have "page_of (0xC0002000 + (0x7C + of_nat k)) = 0xC0002000" using that by (intro disk_page) (simp add: word_less_nat_alt)
    then have "disk_mem (0xC000207C + of_nat k) = disk_archive (0xC0002000 + (0x7C + of_nat k))"
      by (simp add: disk_mem_def add.assoc [symmetric])
    also have "\<dots> = bytes_at 0xC000207C (lit ''00000000144'') (\<lambda>_. 0) (0xC000207C + of_nat k)"
      using u that by (simp add: disk_archive_def bytes_at_def add.assoc [symmetric] unat_of_nat lit_def del: lit_simps)
    finally show ?thesis using that by (simp add: bytes_at_def unat_of_nat lit_def del: lit_simps)
  qed
  show ?thesis using at digit by (simp add: octal_field_def TAR_SIZE_def del: lit_simps)
qed

lemma disk_has_archive: "archive disk_pmm disk_pd [] disk_mem disk_tar 0 [(disk_tar, 100)]"
proof -
  have kd: "kernel_data disk_pmm disk_mem disk_pd (disk_tar + k)" if "unat k < 4096" for k
    using disk_page(2) [of k] that by (intro disk_kernel_data) (simp add: word_less_nat_alt)
  have "disk_mem (disk_tar + 0x401) = 0" "disk_mem disk_tar \<noteq> 0"
    by (simp_all add: disk_mem_def page_of_def disk_archive_def bytes_at_def)
  moreover have "\<forall>k < 612. kernel_data disk_pmm disk_mem disk_pd (disk_tar + k)" using kd by (simp add: word_less_nat_alt)
  ultimately show ?thesis using kd [of "0x401"] by (simp add: disk_size [simplified])
qed

section \<open>The kernel\<close>

lemma disk_string:
  assumes "cstring_at disk_mem (0xC0003000 + a) cs" and "unat a + length cs < 0x800"
  shows "string_ok disk_pmm disk_pd [] disk_sp disk_mem (0xC0003000 + a) cs"
proof -
  have "kernel_data disk_pmm disk_mem disk_pd (0xC0003000 + a + of_nat k) \<and> 0xC0003000 + a + of_nat k \<notin> magic_bytes disk_sp"
    if k: "k \<le> length cs" for k
  proof -
    have u: "unat (a + of_nat k) = unat a + k" using assms(2) k by (simp add: unat_word_ariths unat_of_nat)
    then have "a + of_nat k < 0x800" using assms(2) k by (simp add: word_less_nat_alt)
    then have "0xC0003000 + (a + of_nat k) \<notin> magic_bytes disk_sp"
      using unat_sub_if' [of "a + of_nat k" "0x800"] by (simp add: magic_bytes_def in_block_def word_less_nat_alt)
    moreover have "page_of (0xC0003000 + (a + of_nat k)) = 0xC0003000"
      using u assms(2) k by (intro disk_page) (simp add: word_less_nat_alt)
    ultimately show ?thesis by (simp add: disk_kernel_data add.assoc)
  qed
  with assms(1) show ?thesis by (simp add: string_ok_def)
qed

lemma disk_boot_state: "boot_state disk_layout disk_pd [] [] disk_kernel"
proof -
  have "names_ok disk_layout disk_pd [] disk_kernel"
    using disk_names disk_string [of "0x300" "lit ''test_exec_one''"] disk_string [of "0x340" "lit ''test_exec_two''"]
      disk_string [of "0x380" "lit ''test_exec''"] by (simp add: names_ok_def lit_def del: lit_simps)
  moreover have "kernel_ready disk_pmm disk_sp disk_heap [] disk_pd proc_none []"
    using disk_world disk_stack by (simp add: kernel_ready_def pd_index_def disk_pde present_def)
  ultimately show ?thesis using sample_fair by (simp add: boot_state_def sample_serial_def)
qed

lemma disk_members: "\<forall>mem \<in> set [(disk_tar, 100)]. member_ok disk_pmm disk_pd disk_mem mem"
proof -
  have "length (lit ''test_exec'') < 100" by simp
  then show ?thesis using disk_names(4) disk_bootable by (auto simp: member_ok_def simp del: lit_simps)
qed

lemma disk_window: "pd_index disk_tar = 768" "pd_index (disk_tar + 0x1000) = 768" "present (pde disk_mem disk_pd 768)"
    "P2V (mod_start disk_mem (P2V (mbd_mods_addr disk_mem disk_mbd))) = disk_tar" "get_current_pd 0x1000 = disk_pd"
  by (simp_all add: pd_index_def disk_table(1) mod_start_def mbd_mods_addr_def load32_def store32_def disk_mem_def page_of_def
      disk_data_def P2V_def KERNEL_OFFSET_def get_current_pd_def)

lemma disk_wide_fields: "p_offset disk_mem disk_wide = 0" "p_vaddr disk_mem disk_wide = 0x400FFE" "p_filesz disk_mem disk_wide = 4"
  by (simp_all add: p_offset_def p_vaddr_def p_filesz_def load32_def store32_def disk_mem_def page_of_def disk_data_def bytes_at_def
      del: lit_simps) (simp_all add: lit_def)

lemma disk_files: "rev [(disk_tar, 100 :: u32)] = [(disk_tar, 100)]" "program_files disk_mem [(disk_tar, 100)] = [disk_elf, disk_elf]"
    "frames_for disk_mem [disk_elf, disk_elf] = 14"
  using disk_names(4) by (auto simp: program_names_def frames_for_def disk_fields simp del: lit_simps)

section \<open>The kernel at the call of kmain\<close>

text \<open>Nothing is set up yet; memory is that of \<open>early_mem\<close>, with the map of the boot loader.\<close>

definition start_kernel :: kernel where
  "start_kernel = sample_kernel\<lparr>kn_heap := \<lparr>hp_buckets = 0, hp_mem = early_mem\<rparr>, kn_sched := proc_none,
     kn_vga := \<lparr>vg_init = False, vg_color = 0, vg_x = 0, vg_y = 0, vg_width = 0, vg_height = 0, vg_screen = 0\<rparr>\<rparr>"

lemma start_simps [simp]: "hp_mem (kn_heap start_kernel) = early_mem" "kn_sched start_kernel = proc_none"
    "get_current_pd (sc_cr3 proc_none) = window_pd" "ly_kernel_start sample_layout = 0xC0100000" "ly_kernel_end sample_layout = 0xC0110000"
  by (simp_all add: start_kernel_def proc_none_def get_current_pd_def P2V_def KERNEL_OFFSET_def sample_layout_def)

lemma start_talks: "talks start_kernel"
  by (simp add: talks_def start_kernel_def sample_kernel_def sample_serial_ok)

lemma start_ready: "map_given early_mem 0x9000" "pmm_ready early_mem 0x9000 0xC0100000 0xC0110000 window_pd"
proof -
  have dir: "page_of x = window_pd \<Longrightarrow> early_mem x = window_dir x" for x by (simp add: early_mem_def)
  have "pd_wf early_mem window_pd" by (rule window_pd_wf) (rule dir)
  moreover have "\<forall>i < bitmap_pages early_pmm. present (pde early_mem window_pd (pd_index (bitmap_page early_pmm i)))"
    using window_table(1) [of early_mem 768, OF dir] by (auto simp: early_pages pd_index_def dest!: word_less_1 [THEN iffD1])
  moreover have "pmm_nbFrames early_pmm = 512" "bm_ptr (pmm_bm early_pmm) = 0xC0110000" by (simp_all add: early_pmm_eq)
  ultimately show "pmm_ready early_mem 0x9000 0xC0100000 0xC0110000 window_pd"
    using early_info by (simp add: pmm_ready_def Let_def early_map)
  show "map_given early_mem 0x9000" by (simp add: map_given_def early_map)
qed

lemma start_apart: "screen_apart early_mem 0x9000 window_pd early_pmm"
  unfolding screen_apart_def
proof (intro allI impI)
  fix x assume "in_block 0xC03FF000 4000 x"
  then have x: "x - 0xC03FF000 < 4000" by (simp add: in_block_def)
  have c: "mmap_count early_mem 0x9000 = 1" by (simp add: mmap_count_def early_map)
  define d where "d = x - 0xC03FF000"
  have d: "unat d < 4000" using x by (simp add: d_def word_less_nat_alt)
  have e: "x - 0x9000 = 0xC03F6000 + d" "x - 0xC000A000 = 0x3F5000 + d" "x - 0xC0110000 = 0x2EF000 + d" "x - 0xC0001000 = 0x3FE000 + d"
    by (simp_all add: d_def)
  have n: "\<not> x - 0x9000 < 52" "\<not> x - 0xC000A000 < 24" "\<not> x - 0xC0110000 < 64" "\<not> x - 0xC0001000 < 4096"
    unfolding e using d by (simp_all add: word_less_nat_alt unat_word_ariths)
  then have "page_of x \<noteq> window_pd" using in_page_iff [of window_pd x] by (simp add: in_block_def)
  then show "x \<notin> boot_reads early_mem 0x9000 \<and> page_of x \<noteq> window_pd \<and> \<not> in_bitmap (pmm_bm early_pmm) x"
    using n by (auto simp: boot_reads_def in_block_def c early_map in_bitmap_def early_pmm_eq)
qed

end
