(* ===== verification/BitmapTest.thy ===== *)
theory BitmapTest
  imports Bitmap
begin

text \<open>
  The tests of the bitmap (src/test/bitmap_test.cpp): one predicate for each, the expectations as a
  conjunction in the order they are checked. They hold wherever the data lies and whatever was there before.
\<close>

section \<open>The tests\<close>

text \<open>\<open>ptr\<close> is where the local variable \<open>data\<close> lies, \<open>m\<close> the memory before the test; true when all expectations hold.\<close>

definition SimpleGetBit :: "u32 \<Rightarrow> memory \<Rightarrow> bool" where
  "SimpleGetBit ptr m = (let bm = Bitmap_new ptr 8; m = m(ptr := 0b100000) in get_bit bm 5 m = True)"

definition GetBitOutOfBounds :: "u32 \<Rightarrow> memory \<Rightarrow> bool" where
  "GetBitOutOfBounds ptr m = (let bm = Bitmap_new ptr 32; m = store32 ptr 0 m in get_bit bm 32 m = False)"

definition ClearBitReturnValueFalse :: "u32 \<Rightarrow> memory \<Rightarrow> bool" where
  "ClearBitReturnValueFalse ptr m =
     (let bm = Bitmap_new ptr 32; m = store32 ptr 0x0FFFFFFF m in fst (clear_bit bm 32 m) = False)"

definition ClearBitReturnValueTrue :: "u32 \<Rightarrow> memory \<Rightarrow> bool" where
  "ClearBitReturnValueTrue ptr m =
     (let bm = Bitmap_new ptr 32; m = store32 ptr 0x0FFFFFFF m in fst (clear_bit bm 31 m) = True)"

definition SetBitReturnValueFalse :: "u32 \<Rightarrow> memory \<Rightarrow> bool" where
  "SetBitReturnValueFalse ptr m =
     (let bm = Bitmap_new ptr 32; m = store32 ptr 0x0FFFFFFF m in fst (set_bit bm 32 m) = False)"

definition SetBitReturnValueTrue :: "u32 \<Rightarrow> memory \<Rightarrow> bool" where
  "SetBitReturnValueTrue ptr m =
     (let bm = Bitmap_new ptr 32; m = store32 ptr 0x0FFFFFFF m in fst (set_bit bm 31 m) = True)"

definition ClearBitSimple :: "u32 \<Rightarrow> memory \<Rightarrow> bool" where
  "ClearBitSimple ptr m =
     (let bm = Bitmap_new ptr 32; m = store32 ptr 0xFFFFFFFF m;
          (r1, m) = clear_bit bm 3 m; (r2, m) = clear_bit bm 18 m
      in r1 = True \<and> r2 = True \<and>
         for_from 0 32 (\<lambda>i ok. ok \<and> get_bit bm i m = (if i = 3 \<or> i = 18 then False else True)) True)"

definition ClearArea :: "u32 \<Rightarrow> memory \<Rightarrow> bool" where
  "ClearArea ptr m =
     (let bm = Bitmap_new ptr 32; m = store32 ptr 0xFFFFFFFF m;
          m = for_from 16 32 (\<lambda>i m. snd (clear_bit bm i m)) m
      in for_from 0 32 (\<lambda>i ok. ok \<and> get_bit bm i m = (if i < 16 then True else False)) True)"

definition InvariantBit :: "u32 \<Rightarrow> memory \<Rightarrow> bool" where
  "InvariantBit ptr m =
     (let bm = Bitmap_new ptr 32; m = store32 ptr 0b100000000 m; m = snd (clear_bit bm 9 m); m = snd (set_bit bm 9 m)
      in get_bit bm 9 m = True)"

section \<open>They pass\<close>

text \<open>A loop of expectations.\<close>

lemma for_from_expect: "(\<And>i. i < n \<Longrightarrow> P i) \<Longrightarrow> for_from 0 n (\<lambda>i ok. ok \<and> P i) True"
  by (rule for_from_keeps [where Q = "\<lambda>b. b"]) simp_all

lemma test_bitmap: "valid_bit (Bitmap_new ptr 32) i \<longleftrightarrow> i < 32"
proof -
  have "unat i div 8 < 4 \<longleftrightarrow> unat i < 32" by linarith
  then show ?thesis by (simp add: valid_bit_def Bitmap_new_def word_less_nat_alt unat_div_distrib)
qed

lemma test_full: "i < 32 \<Longrightarrow> get_bit (Bitmap_new ptr 32) i (store32 ptr 0xFFFFFFFF m)"
proof -
  assume i: "i < 32"
  have "i div 8 = 0 \<or> i div 8 = 1 \<or> i div 8 = 2 \<or> i div 8 = 3"
  proof -
    have "unat i div 8 < 4" using i by (simp add: word_less_nat_alt less_mult_imp_div_less)
    then have "unat i div 8 = 0 \<or> unat i div 8 = 1 \<or> unat i div 8 = 2 \<or> unat i div 8 = 3" by linarith
    then show ?thesis by (simp add: word_unat_eq_iff unat_div_distrib)
  qed
  then have "store32 ptr 0xFFFFFFFF m (ptr + i div 8) = 0xFF" by (elim disjE) (simp_all add: store32_def)
  moreover have "bit (0xFF :: u8) (unat (i mod 8))"
    using unat_mod_8 [of i] mask_eq_exp_minus_1 [of 8, where 'a = "8 word"] bit_mask_iff [of 8 "unat (i mod 8)", where 'a = "8 word"]
    by simp
  ultimately show ?thesis using i test_bitmap [of ptr i] by (simp add: get_bit_iff Bitmap_new_def)
qed

lemma clear_range:
  "get_bit (Bitmap_new ptr 32) j (for_from 16 32 (\<lambda>i m. snd (clear_bit (Bitmap_new ptr 32) i m)) m) \<longleftrightarrow>
    \<not> (16 \<le> j \<and> j < 32) \<and> get_bit (Bitmap_new ptr 32) j m"
proof -
  let ?bm = "Bitmap_new ptr 32"
  have "(16 :: u32) \<le> 32" by simp
  then have "\<forall>j. get_bit ?bm j (for_from 16 32 (\<lambda>i m. snd (clear_bit ?bm i m)) m) \<longleftrightarrow> \<not> (16 \<le> j \<and> j < 32) \<and> get_bit ?bm j m"
  proof (intro for_from_invariant [where P = "\<lambda>n t. \<forall>j. get_bit ?bm j t \<longleftrightarrow> \<not> (16 \<le> j \<and> j < n) \<and> get_bit ?bm j m"])
    fix n :: u32 and t
    assume n: "16 \<le> n" "n < 32" and IH: "\<forall>j. get_bit ?bm j t \<longleftrightarrow> \<not> (16 \<le> j \<and> j < n) \<and> get_bit ?bm j m"
    have "j < n + 1 \<longleftrightarrow> j < n \<or> j = n" for j using less_suc_split [OF n(2)] .
    with IH n show "\<forall>j. get_bit ?bm j (snd (clear_bit ?bm n t)) \<longleftrightarrow> \<not> (16 \<le> j \<and> j < n + 1) \<and> get_bit ?bm j m"
      using get_clear_bit [of ?bm n _ t] test_bitmap [of ptr n] by auto
  qed auto
  then show ?thesis by blast
qed

lemma tests_pass:
  "SimpleGetBit ptr m" "GetBitOutOfBounds ptr m" "ClearBitReturnValueFalse ptr m" "ClearBitReturnValueTrue ptr m"
  "SetBitReturnValueFalse ptr m" "SetBitReturnValueTrue ptr m" "ClearBitSimple ptr m" "ClearArea ptr m" "InvariantBit ptr m"
proof -
  show "SimpleGetBit ptr m" by (simp add: SimpleGetBit_def Let_def get_bit_def Bitmap_new_def)
  show "GetBitOutOfBounds ptr m" by (simp add: GetBitOutOfBounds_def Let_def get_bit_iff test_bitmap)
  show "ClearBitReturnValueFalse ptr m" "ClearBitReturnValueTrue ptr m" "SetBitReturnValueFalse ptr m" "SetBitReturnValueTrue ptr m"
    by (simp_all add: ClearBitReturnValueFalse_def ClearBitReturnValueTrue_def SetBitReturnValueFalse_def SetBitReturnValueTrue_def
        clear_bit_def set_bit_def Bitmap_new_def Let_def)
  show "InvariantBit ptr m" by (simp add: InvariantBit_def Let_def get_set_bit test_bitmap)
  let ?bm = "Bitmap_new ptr 32"
  have c: "fst (clear_bit ?bm i t)" if "i < 32" for i t
    using test_bitmap [of ptr i] that by (simp add: clear_bit_def valid_bit_def Let_def)
  show "ClearBitSimple ptr m"
    using c [of 3] c [of 18]
    by (auto simp: ClearBitSimple_def Let_def case_prod_beta get_clear_bit test_bitmap test_full intro!: for_from_expect)
  show "ClearArea ptr m"
    by (auto simp: ClearArea_def Let_def clear_range test_full linorder_not_less intro!: for_from_expect split: if_splits)
qed

end
