(* ===== verification/Layouts.thy ===== *)
theory Layouts
  imports Kmain
begin

text \<open>
  The structures the code keeps in memory, as the headers under src/src declare them: their members in
  order, laid out by the rules of the i386 ABI (every member at the next multiple of its alignment,
  64-bit integers aligned to 4 bytes, \<open>packed\<close> structures without gaps). The other theories read
  these structures by offsets; here the offsets are derived from the declarations.
\<close>

section \<open>Layout of C structures\<close>

datatype ctype =
    UInt8
  | UInt16
  | UInt32
  | UInt64
  | Pointer
  | CArray nat ctype
  | CStruct bool "(string \<times> ctype) list"
  | CUnion "(string \<times> ctype) list"

definition align_up :: "nat \<Rightarrow> nat \<Rightarrow> nat" where
  "align_up n a = (n + a - 1) div a * a"

function c_align :: "ctype \<Rightarrow> nat" and members_align :: "(string \<times> ctype) list \<Rightarrow> nat" where
  "c_align UInt8 = 1"
| "c_align UInt16 = 2"
| "c_align UInt32 = 4"
| "c_align UInt64 = 4"
| "c_align Pointer = 4"
| "c_align (CArray n t) = c_align t"
| "c_align (CStruct packed ms) = (if packed then 1 else members_align ms)"
| "c_align (CUnion ms) = members_align ms"
| "members_align [] = 1"
| "members_align ((n, t) # ms) = max (c_align t) (members_align ms)"
  by pat_completeness auto
termination by (relation "measure (case_sum size (size_list (size_prod (\<lambda>_. 0) size)))") simp_all

text \<open>\<open>members_end\<close> is where the last member ends, before the padding at the end of the structure.\<close>

function c_size :: "ctype \<Rightarrow> nat"
  and members_end :: "bool \<Rightarrow> nat \<Rightarrow> (string \<times> ctype) list \<Rightarrow> nat"
  and members_max :: "(string \<times> ctype) list \<Rightarrow> nat" where
  "c_size UInt8 = 1"
| "c_size UInt16 = 2"
| "c_size UInt32 = 4"
| "c_size UInt64 = 8"
| "c_size Pointer = 4"
| "c_size (CArray n t) = n * c_size t"
| "c_size (CStruct packed ms) = align_up (members_end packed 0 ms) (c_align (CStruct packed ms))"
| "c_size (CUnion ms) = align_up (members_max ms) (members_align ms)"
| "members_end packed off [] = off"
| "members_end packed off ((n, t) # ms) =
     members_end packed ((if packed then off else align_up off (c_align t)) + c_size t) ms"
| "members_max [] = 0"
| "members_max ((n, t) # ms) = max (c_size t) (members_max ms)"
  by pat_completeness auto
termination
  by (relation "measure (case_sum size (case_sum (\<lambda>(_, _, ms). size_list (size_prod (\<lambda>_. 0) size) ms)
       (size_list (size_prod (\<lambda>_. 0) size))))") simp_all

fun member_offset :: "bool \<Rightarrow> nat \<Rightarrow> (string \<times> ctype) list \<Rightarrow> string \<Rightarrow> nat option" where
  "member_offset packed off [] name = None"
| "member_offset packed off ((n, t) # ms) name =
     (let here = (if packed then off else align_up off (c_align t))
      in if n = name then Some here else member_offset packed (here + c_size t) ms name)"

text \<open>\<open>offsetof\<close> and \<open>sizeof\<close>, as the addresses of the model; a name that is not declared has no offset.\<close>

fun offset_of :: "ctype \<Rightarrow> string \<Rightarrow> u32 option" where
  "offset_of (CStruct packed ms) name = map_option of_nat (member_offset packed 0 ms name)"
| "offset_of _ name = None"

definition size_of :: "ctype \<Rightarrow> u32" where
  "size_of t = of_nat (c_size t)"

abbreviation uints :: "string list \<Rightarrow> (string \<times> ctype) list" where
  "uints names \<equiv> map (\<lambda>n. (n, UInt32)) names"

section \<open>The declarations\<close>

definition aout_symbol_table :: ctype where
  "aout_symbol_table = CStruct False (uints [''tabsize'', ''strsize'', ''addr'', ''reserved''])"

definition elf_section_header_table :: ctype where
  "elf_section_header_table = CStruct False (uints [''num'', ''size'', ''addr'', ''shndx''])"

definition framebuffer_colors :: ctype where
  "framebuffer_colors = CUnion
     [(''palette'', CStruct False [(''framebuffer_palette_addr'', UInt32), (''framebuffer_palette_num_colors'', UInt16)]),
      (''rgb'', CStruct False (map (\<lambda>n. (n, UInt8))
        [''framebuffer_red_field_position'', ''framebuffer_red_mask_size'', ''framebuffer_green_field_position'',
         ''framebuffer_green_mask_size'', ''framebuffer_blue_field_position'', ''framebuffer_blue_mask_size'']))]"

definition multiboot_info :: ctype where
  "multiboot_info = CStruct False
     (uints [''flags'', ''mem_lower'', ''mem_upper'', ''boot_device'', ''cmdline'', ''mods_count'', ''mods_addr''] @
      [(''u'', CUnion [(''aout_sym'', aout_symbol_table), (''elf_sec'', elf_section_header_table)])] @
      uints [''mmap_length'', ''mmap_addr'', ''drives_length'', ''drives_addr'', ''config_table'', ''boot_loader_name'',
        ''apm_table'', ''vbe_control_info'', ''vbe_mode_info''] @
      map (\<lambda>n. (n, UInt16)) [''vbe_mode'', ''vbe_interface_seg'', ''vbe_interface_off'', ''vbe_interface_len''] @
      [(''framebuffer_addr'', UInt64)] @
      uints [''framebuffer_pitch'', ''framebuffer_width'', ''framebuffer_height''] @
      [(''framebuffer_bpp'', UInt8), (''framebuffer_type'', UInt8), ('''', framebuffer_colors)])"

definition multiboot_mmap_entry :: ctype where
  "multiboot_mmap_entry = CStruct True (uints [''size'', ''addr_low'', ''addr_high'', ''len_low'', ''len_high'', ''type''])"

definition multiboot_mod_list :: ctype where
  "multiboot_mod_list = CStruct False (uints [''mod_start'', ''mod_end'', ''cmdline'', ''pad''])"

definition Elf32_Ehdr :: ctype where
  "Elf32_Ehdr = CStruct False
     ([(''e_ident'', CArray 16 UInt8), (''e_type'', UInt16), (''e_machine'', UInt16)] @
      uints [''e_version'', ''e_entry'', ''e_phoff'', ''e_shoff'', ''e_flags''] @
      map (\<lambda>n. (n, UInt16)) [''e_ehsize'', ''e_phentsize'', ''e_phnum'', ''e_shentsize'', ''e_shnum'', ''e_shstrndx''])"

definition Elf32_Phdr :: ctype where
  "Elf32_Phdr = CStruct False
     (uints [''p_type'', ''p_offset'', ''p_vaddr'', ''p_paddr'', ''p_filesz'', ''p_memsz'', ''p_flags'', ''p_align''])"

definition page_entry_layout :: ctype where
  "page_entry_layout = CStruct False [(''_value'', UInt32)]"

definition page_layout :: ctype where
  "page_layout = CStruct False [(''_entries'', CArray 1024 page_entry_layout)]"

definition bitmap_layout :: ctype where
  "bitmap_layout = CStruct False [(''_bitmap'', Pointer), (''_size'', UInt32)]"

definition bucket_layout :: ctype where
  "bucket_layout = CStruct False [(''next'', Pointer), (''size'', UInt32), (''power_size'', UInt32), (''bitmap'', bitmap_layout)]"

definition interrupt_state_layout :: ctype where
  "interrupt_state_layout = CStruct True
     (uints [''edi'', ''esi'', ''ebp'', ''edx'', ''ecx'', ''ebx'', ''eax'', ''interrupt_number'', ''error_code'',
       ''eip'', ''cs'', ''eflags'', ''user_esp'', ''user_ss''])"

definition process_layout :: ctype where
  "process_layout = CStruct False
     [(''page_directory'', Pointer), (''regs'', interrupt_state_layout), (''entrypoint'', Pointer), (''next'', Pointer),
      (''kernel_stack_top'', UInt32)]"

definition tar_entry_layout :: ctype where
  "tar_entry_layout = CStruct False
     (map (\<lambda>(n, k). (n, CArray k UInt8))
       [(''filename'', 100), (''mode'', 8), (''uid'', 8), (''gid'', 8), (''size'', 12), (''mtime'', 12), (''chksum'', 8),
        (''typeflag'', 1)])"

definition tar_layout :: ctype where
  "tar_layout = CStruct False [(''header'', tar_entry_layout), (''data'', Pointer), (''next'', Pointer)]"

definition tss_layout :: ctype where
  "tss_layout = CStruct True
     (uints [''previous_task'', ''esp0'', ''ss0'', ''esp1'', ''ss1'', ''esp2'', ''ss2'', ''cr3'', ''eip'', ''eflags'',
       ''eax'', ''ecx'', ''edx'', ''ebx'', ''esp'', ''ebp'', ''esi'', ''edi'', ''es'', ''cs'', ''ss'', ''ds'', ''fs'', ''gs'',
       ''ldt_selector'', ''io_map_address''])"

definition idt_entry_layout :: ctype where
  "idt_entry_layout = CStruct True
     [(''_offset_low'', UInt16), (''_selector'', UInt16), (''_reserved'', UInt8), (''_flags'', UInt8), (''_offset_high'', UInt16)]"

section \<open>Reading a member\<close>

definition read32 :: "ctype \<Rightarrow> string \<Rightarrow> memory \<Rightarrow> u32 \<Rightarrow> u32 option" where
  "read32 t name m a = map_option (\<lambda>off. load32 m (a + off)) (offset_of t name)"

definition read16 :: "ctype \<Rightarrow> string \<Rightarrow> memory \<Rightarrow> u32 \<Rightarrow> u16 option" where
  "read16 t name m a = map_option (\<lambda>off. load16 m (a + off)) (offset_of t name)"

lemmas layout_defs = align_up_def size_of_def read32_def read16_def aout_symbol_table_def elf_section_header_table_def
  framebuffer_colors_def multiboot_info_def multiboot_mmap_entry_def multiboot_mod_list_def Elf32_Ehdr_def Elf32_Phdr_def
  page_entry_layout_def page_layout_def bitmap_layout_def bucket_layout_def interrupt_state_layout_def process_layout_def
  tar_entry_layout_def tar_layout_def tss_layout_def idt_entry_layout_def

section \<open>The offsets of the model\<close>

lemma multiboot_members:
  "read32 multiboot_info ''flags'' m a = Some (mbd_flags m a)"
  "read32 multiboot_info ''mods_addr'' m a = Some (mbd_mods_addr m a)"
  "read32 multiboot_info ''mmap_length'' m a = Some (mbd_mmap_length m a)"
  "read32 multiboot_info ''mmap_addr'' m a = Some (mbd_mmap_addr m a)"
  "read32 multiboot_mmap_entry ''addr_low'' m a = Some (mmap_addr_low m a)"
  "read32 multiboot_mmap_entry ''type'' m a = Some (mmap_type m a)"
  "read32 multiboot_mod_list ''mod_start'' m a = Some (mod_start m a)"
  "size_of multiboot_mmap_entry = SIZEOF_MMAP"
  by (simp_all add: layout_defs mbd_flags_def mbd_mods_addr_def mbd_mmap_length_def mbd_mmap_addr_def mmap_addr_low_def
      mmap_type_def mod_start_def SIZEOF_MMAP_def)

lemma mmap_len_members:
  "\<exists>low high. read32 multiboot_mmap_entry ''len_low'' m a = Some low \<and> read32 multiboot_mmap_entry ''len_high'' m a = Some high \<and>
    mmap_len m a = push_bit 32 (ucast high) OR ucast low"
  by (simp add: layout_defs mmap_len_def)

lemma elf_members:
  "read32 Elf32_Ehdr ''e_entry'' m a = Some (e_entry m a)"
  "read32 Elf32_Ehdr ''e_phoff'' m a = Some (e_phoff m a)"
  "read16 Elf32_Ehdr ''e_phentsize'' m a = Some (e_phentsize m a)"
  "read16 Elf32_Ehdr ''e_phnum'' m a = Some (e_phnum m a)"
  "read32 Elf32_Phdr ''p_type'' m a = Some (p_type m a)"
  "read32 Elf32_Phdr ''p_offset'' m a = Some (p_offset m a)"
  "read32 Elf32_Phdr ''p_vaddr'' m a = Some (p_vaddr m a)"
  "read32 Elf32_Phdr ''p_paddr'' m a = Some (p_paddr m a)"
  "read32 Elf32_Phdr ''p_filesz'' m a = Some (p_filesz m a)"
  "size_of Elf32_Ehdr = 52" "size_of Elf32_Phdr = 32"
  by (simp_all add: layout_defs e_entry_def e_phoff_def e_phentsize_def e_phnum_def p_type_def p_offset_def p_vaddr_def
      p_paddr_def p_filesz_def)

lemma heap_members:
  "read32 bucket_layout ''next'' m a = Some (b_next m a)"
  "read32 bucket_layout ''power_size'' m a = Some (b_power_size m a)"
  "\<exists>off. offset_of bucket_layout ''bitmap'' = Some off \<and> read32 bitmap_layout ''_bitmap'' m (a + off) = Some (bm_ptr (b_bitmap m a)) \<and>
     read32 bitmap_layout ''_size'' m (a + off) = Some (bm_size (b_bitmap m a))"
  "size_of bucket_layout = SIZEOF_BUCKET" "size_of page_layout = FRAME_SIZE" "Page_index pd i = pd + i * size_of page_entry_layout"
  by (simp_all add: layout_defs b_next_def b_power_size_def b_bitmap_def SIZEOF_BUCKET_def FRAME_SIZE_def Page_index_def entry_def add.assoc)

lemma state_members:
  "map (offset_of interrupt_state_layout) [''edi'', ''esi'', ''ebp'', ''edx'', ''ecx'', ''ebx'', ''eax''] =
     map Some [ST_EDI, ST_ESI, ST_EBP, ST_EDX, ST_ECX, ST_EBX, ST_EAX]"
  "map (offset_of interrupt_state_layout) [''interrupt_number'', ''eip'', ''cs'', ''eflags'', ''user_esp'', ''user_ss''] =
     map Some [ST_INT, ST_EIP, ST_CS, ST_EFLAGS, ST_USER_ESP, ST_USER_SS]"
  "map (offset_of process_layout) [''page_directory'', ''regs'', ''next'', ''kernel_stack_top''] = map Some [0, PR_REGS, PR_NEXT, PR_KSTACK]"
  "size_of interrupt_state_layout = SIZEOF_STATE" "size_of process_layout = SIZEOF_PROCESS"
  by (simp_all add: layout_defs ST_EDI_def ST_ESI_def ST_EBP_def ST_EDX_def ST_ECX_def ST_EBX_def ST_EAX_def ST_INT_def ST_EIP_def
      ST_CS_def ST_EFLAGS_def ST_USER_ESP_def ST_USER_SS_def PR_REGS_def PR_NEXT_def PR_KSTACK_def SIZEOF_STATE_def SIZEOF_PROCESS_def)

lemma table_members:
  "offset_of tar_entry_layout ''size'' = Some TAR_SIZE" "offset_of tar_entry_layout ''filename'' = Some 0" "offset_of tar_layout ''header'' = Some 0"
  "offset_of tar_layout ''data'' = Some TAR_DATA" "offset_of tar_layout ''next'' = Some TAR_NEXT" "size_of tar_layout = SIZEOF_TAR"
  "size_of tss_layout = SIZEOF_TSS" "size_of (CArray (unat IDT_ENTRIES) idt_entry_layout) = ucast idtr_limit + 1"
  by (simp_all add: layout_defs TAR_SIZE_def TAR_DATA_def TAR_NEXT_def SIZEOF_TAR_def SIZEOF_TSS_def IDT_ENTRIES_def idtr_limit_def)

end
