(* ===== verification/Spec2Isabelle.thy ===== *)
theory Spec2Isabelle
  imports Disk BitmapTest Layouts
begin

text \<open>
  A verification development for lkd, a small multitasking kernel for 32-bit x86 (sources under
  src/src).

  The program. \<open>boot.S\<close> maps the kernel at 0xC0000000 and calls \<open>kmain\<close>, which sets up the segments
  (gdt), the interrupt table and controllers (idt, pic), the frames of physical memory (pmm), the timer
  and the keyboard, then unpacks the initial ramdisk (tar), loads the programs it finds (loader) as
  processes with address spaces of their own (paging, process) and turns the scheduler on. From then on
  everything happens in interrupts: the timer switches processes, the keyboard fills its queue, a program
  asks for services by interrupt 0x80. The objects of the kernel come from a heap of buckets (kmalloc).

  The model. Memory is a function from 32-bit addresses to bytes, and every structure the code keeps in
  memory lies there at its offsets: page tables, bitmaps, buckets, processes, archive headers, register
  frames, the screen. The static variables of a part are a record. All integers are words of their width,
  so sums and products wrap as in the code. A loop without a bound is a \<open>partial_function (option)\<close> whose
  value \<open>None\<close> is a loop that does not end; loops with a counter are total (\<open>for_from\<close>). Kernel code reads
  and writes the window at 0xC0000000 directly; addresses of a process go through the page tables
  (\<open>walk\<close>, \<open>vwrite\<close>), and there \<open>None\<close> is a page fault. What the devices answer on a port is a parameter
  (\<open>ports\<close>), and so are the addresses the linker and the assembly stubs fix (\<open>layout\<close>).

  The theories and what they model:
    \<^item> \<open>Prelude\<close>: words, counted loops and searches, the byte memory, \<open>V2P\<close> and \<open>P2V\<close> (includes/utils.hpp)
    \<^item> \<open>Kstring\<close>: utils/string.cpp
    \<^item> \<open>Bitmap\<close>, \<open>BitmapTest\<close>: utils/bitmap.cpp, as an instance of the locale \<open>bit_vector\<close>, and its tests
    \<^item> \<open>Pmm\<close>, \<open>PmmInit\<close>: pmm/pmm.cpp; the allocator is an instance of the locale \<open>frame_allocator\<close>
    \<^item> \<open>Pages\<close>, \<open>Paging\<close>: vmm/paging.cpp, against the walk of the processor
    \<^item> \<open>Bucket\<close>, \<open>Kmalloc\<close>, \<open>Kfree\<close>: vmm/bucket.cpp, vmm/kmalloc_utils.cpp, vmm/kmalloc.cpp
    \<^item> \<open>HeapRun\<close>: runs of the heap's operations and of stores into the blocks they returned (\<open>heap_step\<close>)
    \<^item> \<open>Ports\<close>, \<open>Kprintf\<close>, \<open>Serial\<close>, \<open>Vga\<close>: includes/io.hpp, outputs/serial.cpp, outputs/vga.cpp; the
      serial line is an instance of the locale \<open>char_device\<close>
    \<^item> \<open>Keyboard\<close>, \<open>Timer\<close>, \<open>Pic\<close>: devices/keyboard.cpp, devices/timer.cpp, interrupts/pic.cpp
    \<^item> \<open>Gdt\<close>, \<open>Idt\<close>, \<open>Handlers\<close>: gdt/gdt.cpp, interrupts/idt.cpp, interrupts/handlers.cpp with
      userland/syscalls.cpp
    \<^item> \<open>Tar\<close>, \<open>Loader\<close>: utils/tar.cpp, loader/loader.cpp
    \<^item> \<open>Space\<close>, \<open>Process\<close>: userland/process.cpp
    \<^item> \<open>Kmain\<close>: main.cpp
    \<^item> \<open>Layouts\<close>: the structures as the headers declare them, laid out by the ABI; the offsets the other
      theories use are derived from these declarations
    \<^item> \<open>Run\<close>: the machine after the boot, a step relation of hardware interrupts, system calls and the work of the
      processes between them; its runs refine the scheduler's
    \<^item> \<open>Samples\<close>, \<open>Machines\<close>, \<open>Disk\<close>: small concrete states on which the hypotheses of the theorems
      hold; \<open>Disk\<close> is a whole kernel with an archive that holds a program

  The theories that join the parts; they define no more of the code, only what it is proved to do:
    \<^item> \<open>Start\<close>: \<open>kmain\<close> up to \<open>load_initrd\<close> (\<open>prepared\<close>), for a screen that lies apart from what the boot loader left
    \<^item> \<open>Keeps\<close>: what a step that allocates frames and maps pages keeps of everything else (\<open>keeps\<close>)
    \<^item> \<open>Program\<close>: \<open>Elf32::load\<close> on a whole file (\<open>elf_ok\<close>, \<open>segment_at\<close>)
    \<^item> \<open>World\<close>, \<open>Spawn\<close>: allocator, heap, address spaces and processes together (\<open>world\<close>); a new address
      space is apart from all others (\<open>fresh_space\<close>), and \<open>create_process\<close> keeps the invariant and adds one
      process (\<open>create_process_done\<close>)
    \<^item> \<open>Archive\<close>: \<open>parse_tar\<close> on a whole archive, by induction on its members (\<open>parse_tar_done\<close>), over what a
      step of the heap keeps (\<open>heap_ext\<close>)
    \<^item> \<open>Boot\<close>, \<open>Initrd\<close>: a copied file is still a program, a process that can run (\<open>runs\<close>) can run after
      any later \<open>create_process\<close>, and \<open>load_initrd\<close> starts all programs of the archive (\<open>load_initrd_done\<close>)

  The invariants. \<open>fa_inv\<close>: the allocator's bitmap has a bit for every frame, below 1 GiB. \<open>as_inv P m pd\<close>:
  \<open>pd\<close> is a page directory whose tables are pages of their own, all of them frames in use, and no frame
  overlaps the bitmap. \<open>heap_inv P h bs\<close>: the list of buckets is \<open>bs\<close>, each well formed and on a frame
  of its own; \<open>live\<close> is the set of slots in use. \<open>procs_ok\<close>: the processes form the list \<open>ps\<close>, apart from
  each other and from the register frame. \<open>kernel_inv\<close> joins those of the heap and of the kernel's address
  space, \<open>world\<close> adds the list of processes, each in a block of the heap, and \<open>boot_state\<close> what \<open>load_initrd\<close>
  needs besides: the names it compares with, its stack, and a serial line that answers. \<open>machine_ok\<close> is the
  invariant of the running machine. \<open>kb_inv\<close>, \<open>vga_ok\<close> and \<open>serial_ok\<close> are those of the devices.

  The properties below stand in the order of the manifest. Each rests on the lemmas of its component,
  and its witness applies it to one of the concrete states.

  Bounds. \<open>malloc\<close> is proved for sizes up to 2048, the largest slot that fits into the one frame of a
  bucket with its header; so the members of an archive are, too. \<open>free\<close> is proved for slots above 16,
  because for those of 16 the code clears the wrong bit. A segment is proved to load when it fits in the
  page it starts on, since the code maps one page. A program's segments lie where the kernel's directory has
  no tables, because the copy of the directory shares those; a process needs five frames and two for each
  segment, a member of the archive two. The keyboard is proved to be a queue for the 256 characters it has
  room for, after which it is emptied.

  The properties of \<open>load_initrd\<close> and what it is made of ask for a kernel whose own frames are marked as used.
  \<open>kmain\<close> does not provide it: by \<open>init_frees_every_frame\<close> \<open>PMM::init\<close> leaves
  them free. So \<open>kmain_sets_up\<close> describes \<open>kmain\<close> up to the call of \<open>load_initrd\<close>; the lemma \<open>load_initrd_done\<close> is about
  a kernel whose frames are taken.

  Not modelled: the assembly (boot.S, the interrupt stubs, \<open>gdt_load\<close>, \<open>tss_load\<close>, \<open>enter_userland\<close>,
  which is a parameter of \<open>run_process\<close>), the execution of user code between interrupts other than by what it may
  change, caches of translations, and the structures and constants of multiboot.h and loader.hpp that no code uses.
\<close>

section \<open>From the initial ramdisk to running programs\<close>

text \<open>C1: \<open>create_process\<close> on a well-formed file, with the frames it needs, returns and keeps the invariant of
  the kernel with its processes: the new process is the last of the list (and the current one when it is
  the first), starts at the entry point of the file, and finds its segments, its stack and the kernel in
  its own address space; the registers and directories of the other processes are as before, and so are
  the kernel's data outside the heap and the four magic bytes.\<close>

theorem create_process_makes:
  fixes e :: u32
  assumes "world P h bs kpd c ps" and "\<not> present (pde (hp_mem h) kpd (pd_index 0xBFFF0000))"
    and "n + 5 + 2 * unat (e_phnum (hp_mem h) elf) \<le> card (free_frames P (hp_mem h))"
    and "\<forall>x \<in> magic_bytes sp. kernel_data P (hp_mem h) kpd x \<and> page_of x \<notin> set bs"
    and "elf_ok P kpd (magic_bytes sp) (hp_mem h) elf" and "elf_magic (hp_mem h) elf" and "fair (se_ports s)"
  shows "\<exists>p h' bs' c' s' stack_ptr.
    create_process P sp elf kpd (e, c, h, s) = Some (e_entry (hp_mem h) elf, c', h', s') \<and>
    world P h' bs' kpd c' (ps @ [p]) \<and> process_at P (hp_mem h) kpd elf (hp_mem h') p stack_ptr \<and>
    (ps = [] \<longrightarrow> sc_current c' = p) \<and> (ps \<noteq> [] \<longrightarrow> sc_current c' = sc_current c) \<and>
    (\<forall>q \<in> set ps. load32 (hp_mem h') q = load32 (hp_mem h) q \<and>
       (\<forall>k < SIZEOF_STATE. saved (hp_mem h') q k = saved (hp_mem h) q k)) \<and>
    same_data P (magic_bytes sp \<union> {x. page_of x \<in> set bs}) kpd (hp_mem h) kpd (hp_mem h') \<and>
    n \<le> card (free_frames P (hp_mem h')) \<and> fair (se_ports s')"
proof -
  have stack: "\<And>x. x \<in> magic_bytes sp \<Longrightarrow> kernel_data P (hp_mem h) kpd x \<and> page_of x \<notin> set bs" using assms(4) by blast
  show ?thesis
    by (rule create_process_done [OF assms(1-3) stack assms(5-7), of e]; (assumption)?) (auto split: if_splits)
qed

lemma create_process_makes_witness:
  "\<exists>p h bs c s stack_ptr. create_process disk_pmm disk_sp disk_elf disk_pd (0, proc_none, disk_heap, sample_serial) =
      Some (0x400000, c, h, s) \<and> world disk_pmm h bs disk_pd c [p] \<and> sc_current c = p \<and>
      process_at disk_pmm disk_mem disk_pd disk_elf (hp_mem h) p stack_ptr"
proof -
  have abs: "\<not> present (pde (hp_mem disk_heap) disk_pd (pd_index 0xBFFF0000))"
    by (simp add: disk_pde pd_index_def present_def)
  have n: "1 + 5 + 2 * unat (e_phnum (hp_mem disk_heap) disk_elf) \<le> card (free_frames disk_pmm (hp_mem disk_heap))"
    using disk_free_frames by (simp add: disk_fields)
  have st: "\<forall>x \<in> magic_bytes disk_sp. kernel_data disk_pmm (hp_mem disk_heap) disk_pd x \<and> page_of x \<notin> set []"
    using disk_stack by simp
  have ok: "elf_ok disk_pmm disk_pd (magic_bytes disk_sp) (hp_mem disk_heap) disk_elf" "elf_magic (hp_mem disk_heap) disk_elf"
    using disk_elf_ok [of "magic_bytes disk_sp"] disk_file disk_elf_magic by simp_all
  have f: "fair (se_ports sample_serial)" using sample_serial_ok by simp
  from create_process_makes [OF disk_world abs n st ok f, of 0] show ?thesis
    by (simp add: disk_fields) blast
qed

text \<open>C2: \<open>Elf32::load\<close> returns for every well-formed file for which there are frames: the entry point is the
  header's, every loadable segment can be read at its virtual address byte for byte on frames nobody
  owned before, all other addresses translate as they did, and the kernel's own data is untouched but
  for the four magic bytes on the stack.\<close>

theorem Elf32_load_whole:
  fixes entry :: u32
  assumes "as_inv P m pd" and "\<forall>x \<in> magic_bytes sp. kernel_data P m pd x"
    and "elf_ok P pd (magic_bytes sp) m elf" and "fst (verify_header sp elf m)"
    and "n + 2 * unat (e_phnum m elf) \<le> card (free_frames P m)" and "fair (se_ports s)"
  shows "\<exists>m' s'. Elf32_load P pd (update_cr3 pd) sp elf (entry, m, s) = Some (e_entry m elf, m', s') \<and>
    keeps P pd (magic_bytes sp) m m' \<and> n \<le> card (free_frames P m') \<and> fair (se_ports s') \<and>
    (\<forall>i < ucast (e_phnum m elf). loadable m (phdr m elf i) \<longrightarrow> segment_at P m pd elf (phdr m elf i) m') \<and>
    (\<forall>va. (\<forall>i < ucast (e_phnum m elf). loadable m (phdr m elf i) \<longrightarrow>
        page_of va \<noteq> page_of (p_vaddr m (phdr m elf i))) \<longrightarrow>
      walk m' (update_cr3 pd) va = walk m (update_cr3 pd) va)"
  by (rule Elf32_load_done [OF assms(1) _ assms(3-6), of entry]) (use assms(2) in blast)+

lemma Elf32_load_whole_witness:
  "\<exists>m s. Elf32_load disk_pmm disk_pd (update_cr3 disk_pd) disk_sp disk_elf (0, disk_mem, sample_serial) =
      Some (0x400000, m, s) \<and> segment_at disk_pmm disk_mem disk_pd disk_elf 0xC0002234 m"
proof -
  have n: "6 + 2 * unat (e_phnum disk_mem disk_elf) \<le> card (free_frames disk_pmm disk_mem)"
    using disk_free_frames by (simp add: disk_fields)
  have st: "\<forall>x \<in> magic_bytes disk_sp. kernel_data disk_pmm disk_mem disk_pd x" using disk_stack by simp
  have ok: "elf_ok disk_pmm disk_pd (magic_bytes disk_sp) disk_mem disk_elf" by (rule disk_elf_ok) (rule disk_file)
  have v: "fst (verify_header disk_sp disk_elf disk_mem)" using ok disk_elf_magic by (rule verify_header_good)
  have l: "loadable disk_mem 0xC0002234" by (simp add: loadable_def disk_fields PT_LOAD_def)
  have f: "fair (se_ports sample_serial)" using sample_serial_ok by simp
  from Elf32_load_whole [OF disk_as_inv st ok v n f, of 0] l show ?thesis
    by (force simp: disk_fields)
qed

text \<open>C3: a segment whose file image reaches past the page it starts on faults while it is copied, unless the next
  page happens to be mapped already: \<open>load\<close> maps one page only, and the kernel halts.\<close>

theorem wide_segment_faults:
  assumes "as_inv P m pd" and "fst (allocate_frame P m) \<noteq> 0"
    and "present (pde m pd (pd_index (p_vaddr m ph))) \<or> fst (allocate_frame P (snd (allocate_frame P m))) \<noteq> 0"
    and "\<forall>j < 32. kernel_data P m pd (ph + j)"
    and "\<forall>k < p_filesz m ph. kernel_data P m pd (elf + p_offset m ph + k)"
    and "4096 < unat (p_vaddr m ph AND 0xFFF) + unat (p_filesz m ph)"
    and "walk m (update_cr3 pd) (page_of (p_vaddr m ph) + 4096) = None"
  shows "load_segment P pd (update_cr3 pd) elf ph m = None"
  using assms(4,5) by (intro load_segment_fault [OF assms(1-3) _ _ assms(6,7)]) simp_all

lemma wide_segment_faults_witness:
  "load_segment disk_pmm disk_pd (update_cr3 disk_pd) disk_elf disk_wide disk_mem = None"
proof -
  have "(0 + 2) + 2 \<le> card (free_frames disk_pmm disk_mem)" using disk_free_frames by simp
  then have f: "fst (allocate_frame disk_pmm disk_mem) \<noteq> 0"
    "fst (allocate_frame disk_pmm (snd (allocate_frame disk_pmm disk_mem))) \<noteq> 0"
    using alloc_free_frames [OF disk_fa_inv, of 2 disk_mem] alloc_free_frames(1) [OF disk_fa_inv, of 1] by simp_all
  have h: "\<forall>j < 32. kernel_data disk_pmm disk_mem disk_pd (disk_wide + j)"
  proof (intro allI impI)
    fix j :: u32 assume "j < 32"
    then have "page_of (0xC0003000 + (0x400 + j)) = 0xC0003000" by (intro disk_page) (simp add: word_less_nat_alt unat_word_ariths)
    then show "kernel_data disk_pmm disk_mem disk_pd (disk_wide + j)" by (simp add: disk_kernel_data)
  qed
  have s: "\<forall>k < p_filesz disk_mem disk_wide. kernel_data disk_pmm disk_mem disk_pd (disk_elf + p_offset disk_mem disk_wide + k)"
    unfolding disk_wide_fields
  proof (intro allI impI)
    fix k :: u32 assume "k < 4"
    then have "page_of (0xC0002000 + (0x200 + k)) = 0xC0002000" by (intro disk_page) (simp add: word_less_nat_alt unat_word_ariths)
    then show "kernel_data disk_pmm disk_mem disk_pd (disk_elf + 0 + k)" by (simp add: disk_kernel_data)
  qed
  have "P2V (page_of (update_cr3 disk_pd)) = disk_pd" by (rule cr3_of_directory) (simp_all add: P2V_def KERNEL_OFFSET_def)
  moreover have "pd_index (page_of 0x400FFE + 4096) = 1" by (simp add: pd_index_def page_of_def)
  ultimately have w: "walk disk_mem (update_cr3 disk_pd) (page_of (p_vaddr disk_mem disk_wide) + 4096) = None"
    using disk_pde [of 1] by (simp add: disk_wide_fields walk_def Let_def pde_def)
  show ?thesis
    by (rule wide_segment_faults [OF disk_as_inv f(1) _ h s _ w]) (simp_all add: f(2) disk_wide_fields)
qed

section \<open>The start of the kernel\<close>

text \<open>C4: started by the boot loader, \<open>kmain\<close> sets up every part and comes to \<open>load_initrd\<close>: the serial line
  answers and the screen is set up, the segments are those of \<open>gdt_fill\<close>, all gates are set, the timer runs, the
  keyboard is empty. If the boot loader gave a map of memory, the allocator is the one for that map, with no frame in
  use, and outside the screen, the bitmap and the tables it is mapped through memory is as it was. If it gave none,
  the refusal of \<open>init\<close> goes unnoticed, and \<open>kmain\<close> goes on with the allocator as it was. With another magic number
  it sends one message and returns, with nothing else changed.\<close>

theorem kmain_sets_up:
  fixes K :: kernel and L :: layout and mbd magic :: u32
  defines "m \<equiv> kn_mem K" and "pd \<equiv> get_current_pd (sc_cr3 (kn_sched K))"
  assumes "talks K" and "screen_apart m mbd pd (init_pmm m mbd (ly_kernel_end L))"
    and "map_given m mbd \<longrightarrow> pmm_ready m mbd (ly_kernel_start L) (ly_kernel_end L) pd"
  shows "if magic = MULTIBOOT_BOOTLOADER_MAGIC
    then \<exists>K'. prepared L mbd K K' \<and> kmain L mbd magic K =
      map_option (\<lambda>K6. K6\<lparr>kn_sched := enable_scheduling (kn_sched K6)\<rparr>) (load_initrd L mbd K')
    else \<exists>s. kmain L mbd magic K = Some (K\<lparr>kn_serial := s\<rparr>)"
  using kmain_prepares [of K mbd L] kmain_bad_magic [of magic K L mbd] assms by (auto simp: talks_def)

lemma kmain_sets_up_witness:
  "\<exists>K'. kn_pmm K' = early_pmm \<and> (\<forall>j. \<not> frame_used early_pmm j (kn_mem K')) \<and>
    kmain sample_layout 0x9000 MULTIBOOT_BOOTLOADER_MAGIC start_kernel =
      map_option (\<lambda>K6. K6\<lparr>kn_sched := enable_scheduling (kn_sched K6)\<rparr>) (load_initrd sample_layout 0x9000 K')"
  using kmain_sets_up [where K = start_kernel and mbd = "0x9000" and L = sample_layout and magic = MULTIBOOT_BOOTLOADER_MAGIC] start_talks start_apart start_ready
  by (auto simp: prepared_def memory_prepared_def Let_def)

section \<open>Address spaces\<close>

text \<open>C5: \<open>map_page\<close> makes exactly the page of \<open>va\<close> translate to the frame of \<open>pa\<close> (or to nothing,
  when the flags lack the present bit), leaves every other translation of the address space as it was,
  and keeps the invariant of the address space. The frame for a new page table must be available.\<close>

theorem map_page_translates:
  assumes "as_inv P m pd" and "present (pde m pd (pd_index va)) \<or> fst (allocate_frame P m) \<noteq> 0"
  shows "as_inv P (map_page P pd pa va flags m) pd \<and>
    walk (map_page P pd pa va flags m) (update_cr3 pd) vb =
      (if page_of vb = page_of va
       then if bit flags 0 then Some (page_of pa OR (vb AND 0xFFF)) else None
       else walk m (update_cr3 pd) vb)"
  using map_page_as_inv [OF assms] map_page_walk [OF as_inv_map_ready [OF assms]] by simp

lemma map_page_translates_witness:
  "as_inv sample_pmm (map_page sample_pmm sample_pd 0x5000 0x400000 7 sample_mem) sample_pd \<and>
   walk (map_page sample_pmm sample_pd 0x5000 0x400000 7 sample_mem) (update_cr3 sample_pd) 0x400123 = Some 0x5123"
  using map_page_translates [OF sample_as_inv, where va = "0x400000" and vb = "0x400123" and pa = "0x5000" and flags = 7] sample_alloc_nonzero
  by (simp add: page_of_def)

text \<open>C6: \<open>Page_copy\<close> (the copy constructor of a page directory) gives a directory with the same
  translations as its source, and does not disturb the source.\<close>

theorem Page_copy_same_space:
  assumes "as_inv P m pd" and "fst (allocate_frame P m) \<noteq> 0" and "Page_copy P pd m = (new, m')"
  shows "walk m' (update_cr3 new) va = walk m (update_cr3 pd) va \<and>
    walk m' (update_cr3 pd) va = walk m (update_cr3 pd) va"
  using Page_copy_walk [OF assms] by simp

lemma Page_copy_same_space_witness:
  "\<exists>new m'. Page_copy sample_pmm sample_pd sample_mem = (new, m') \<and>
    (\<forall>va. walk m' (update_cr3 new) va = walk sample_mem (update_cr3 sample_pd) va)"
proof -
  obtain new m' where c: "Page_copy sample_pmm sample_pd sample_mem = (new, m')" by (rule prod.exhaust)
  with Page_copy_same_space [OF sample_as_inv sample_alloc_nonzero c] show ?thesis by blast
qed

text \<open>C7: mapping a page in a copied directory leaves the translations of the directory it was copied
  from alone, when the source has no page table for that part of the address space: the user pages of a
  process do not leak into the kernel's directory. Where the source has a table, the copy shares it, and
  the mapping shows in the source as well, for exactly that page.\<close>

theorem copied_space_private:
  assumes "as_inv P m pd" "2 \<le> card (free_frames P m)" and "Page_copy P pd m = (new, m')"
  shows "walk (map_page P new pa va flags m') (update_cr3 pd) vb =
    (if present (pde m pd (pd_index va)) \<and> page_of vb = page_of va
     then if bit flags 0 then Some (page_of pa OR (vb AND 0xFFF)) else None
     else walk m (update_cr3 pd) vb)"
proof (cases "present (pde m pd (pd_index va))")
  case True
  have "fst (allocate_frame P m) \<noteq> 0"
    using alloc_free_frames(1) [where n = 1 and P = P and m = m] assms(1,2) by (simp add: as_inv_def)
  from Page_copy_map_shared [OF assms(1) True this assms(3)] True show ?thesis by simp
next
  case False
  from Page_copy_map_private [OF assms(1) False assms(2,3)] False show ?thesis by simp
qed

lemma copied_space_private_witness:
  "\<exists>new m'. Page_copy sample_pmm sample_pd sample_mem = (new, m') \<and>
    (\<forall>vb. walk (map_page sample_pmm new 0x5000 0x400000 7 m') (update_cr3 sample_pd) vb =
      walk sample_mem (update_cr3 sample_pd) vb)"
proof -
  obtain new m' where c: "Page_copy sample_pmm sample_pd sample_mem = (new, m')" by (rule prod.exhaust)
  have abs: "\<not> present (pde sample_mem sample_pd (pd_index 0x400000))" by (rule sample_absent) simp
  have n: "2 \<le> card (free_frames sample_pmm sample_mem)" by (simp add: sample_free_frames)
  from copied_space_private [OF sample_as_inv n c, where va = "0x400000"] abs c show ?thesis by simp
qed

text \<open>C8: the address space \<open>create_process\<close> builds for a process: the kernel's translations, the page
  at 0xBFFF0000 on a frame of its own, and the page after it on the physical page after that frame.
  The new directory satisfies the invariant and the kernel's own translations stay.\<close>

theorem process_space_layout:
  assumes "as_inv P m kpd" "\<not> present (pde m kpd (pd_index 0xBFFF0000))" "4 \<le> card (free_frames P m)"
    and "process_space P kpd m = (pd, stack_ptr, kernel_ptr, m')"
  shows "as_inv P m' pd \<and>
    walk m' (update_cr3 pd) va = (if page_of va = 0xBFFF0000 then Some (stack_ptr OR (va AND 0xFFF))
      else if page_of va = 0xBFFF1000 then Some (stack_ptr + 0x1000 OR (va AND 0xFFF))
      else walk m (update_cr3 kpd) va) \<and>
    walk m' (update_cr3 kpd) va = walk m (update_cr3 kpd) va"
  using process_space_walk [OF assms] by simp

lemma process_space_layout_witness:
  "\<exists>pd stack_ptr kernel_ptr m'. process_space sample_pmm sample_pd sample_mem = (pd, stack_ptr, kernel_ptr, m') \<and>
    walk m' (update_cr3 pd) 0xBFFF0004 = Some (stack_ptr OR 4)"
proof -
  obtain pd stack_ptr kernel_ptr m' where c: "process_space sample_pmm sample_pd sample_mem = (pd, stack_ptr, kernel_ptr, m')"
    by (rule prod_cases4)
  have "\<not> present (pde sample_mem sample_pd (pd_index 0xBFFF0000))" "4 \<le> card (free_frames sample_pmm sample_mem)"
    by (simp_all add: sample_absent sample_free_frames)
  from process_space_layout [OF sample_as_inv this c, where va = "0xBFFF0004"]
  have "walk m' (update_cr3 pd) 0xBFFF0004 = Some (stack_ptr OR (0xBFFF0004 AND 0xFFF))" by (simp add: page_of_def)
  then have "walk m' (update_cr3 pd) 0xBFFF0004 = Some (stack_ptr OR 4)" by simp
  with c show ?thesis by blast
qed

section \<open>The heap\<close>

text \<open>C9: \<open>malloc\<close> of at most half a page returns whenever a frame is available, with a block that is
  not in use, large enough and from then on live; no other live block changes, moves or disappears,
  and the invariant of the heap holds again (\<open>malloc_post\<close>).\<close>

theorem kmalloc_gives_block:
  assumes "heap_inv P h bs" and "sz \<le> 2048" and "fst (allocate_frame P (hp_mem h)) \<noteq> 0"
  shows "\<exists>ptr h' bs' b i. kmalloc P sz h = Some (ptr, h') \<and> malloc_post P sz h bs ptr h' bs' b i"
  using assms by (rule kmalloc_correct)

lemma kmalloc_gives_block_witness:
  "\<exists>ptr h' bs b i. kmalloc sample_pmm 20 sample_heap = Some (ptr, h') \<and>
    live (hp_mem h') bs = {(b, i)} \<and> ptr = slot_addr b 32 i"
proof -
  have "(20 :: u32) \<le> 2048" by simp
  from kmalloc_gives_block [OF sample_heap_inv this] sample_alloc_nonzero obtain ptr h' bs b i
    where k: "kmalloc sample_pmm 20 sample_heap = Some (ptr, h')"
      and post: "malloc_post sample_pmm 20 sample_heap [] ptr h' bs b i" by auto
  have "compute_power 20 = Some (2 ^ 5)" by (rule compute_power_some) simp_all
  with post have "live (hp_mem h') bs = {(b, i)}" "ptr = slot_addr b 32 i"
    by (auto simp: malloc_post_def live_def)
  with k show ?thesis by blast
qed

text \<open>C10: \<open>free\<close> of a live block from a bucket of slots above the smallest size, 16, returns, ends the life
  of that block and of no other, leaves the contents of every other live block alone and keeps the
  invariant. The bucket is unlinked and its frame given back when the bit of the block was the only one
  set in the bitmap, and stays otherwise (\<open>free_post\<close>). What \<open>free\<close> does to blocks of the smallest size
  is stated further down (\<open>kfree_smallest_misses\<close>).\<close>

theorem kfree_takes_back:
  assumes "heap_inv P h bs" "(b, i) \<in> live (hp_mem h) bs" "b_power_size (hp_mem h) b \<noteq> 16"
  shows "\<exists>h' bs'. kfree P (slot_addr b (b_power_size (hp_mem h) b) i) h = Some h' \<and> free_post P h bs h' bs' b i"
  using assms by (rule kfree_correct)

lemma kfree_takes_back_witness:
  "\<exists>h bs b h' bs'. kfree sample_pmm (fst (the (kmalloc sample_pmm 20 sample_heap))) h = Some h' \<and>
    card (live (hp_mem h) bs) = 1 \<and> live (hp_mem h') bs' = {} \<and> b \<in> set bs \<and> b \<notin> set bs' \<and>
    \<not> owned sample_pmm (hp_mem h') b"
proof -
  obtain ptr h bs b i where b: "kmalloc sample_pmm 20 sample_heap = Some (ptr, h)" "heap_inv sample_pmm h bs"
    "live (hp_mem h) bs = {(b, i)}" "b_power_size (hp_mem h) b = 32" "ptr = slot_addr b 32 i"
    "bits (b_bitmap (hp_mem h) b) (hp_mem h) = {i}" by (rule sample_block)
  from kfree_takes_back [OF b(2), of b i] b(3-6) obtain h' bs' where f: "kfree sample_pmm ptr h = Some h'"
    and post: "live (hp_mem h') bs' = {}" "bs' = remove1 b bs" "\<not> owned sample_pmm (hp_mem h') b"
    by (auto simp: free_post_def)
  have "distinct bs" "b \<in> set bs" using b(2,3) by (auto simp: heap_inv_def live_def)
  then have "b \<in> set bs \<and> b \<notin> set bs'" by (simp add: post(2))
  moreover have "card (live (hp_mem h) bs) = 1" using b(3) by simp
  moreover have "kfree sample_pmm (fst (the (kmalloc sample_pmm 20 sample_heap))) h = Some h'" using b(1) f by simp
  ultimately show ?thesis using post(1,3) by blast
qed

text \<open>C11: \<open>malloc\<close> followed by \<open>free\<close> of its result gives back a heap with the same live blocks and the
  same contents, for sizes above the smallest slot and up to half a page.\<close>

theorem malloc_free_roundtrip:
  assumes "heap_inv P h bs" and "16 < sz" "sz \<le> 2048" and "fst (allocate_frame P (hp_mem h)) \<noteq> 0"
  shows "\<exists>ptr h1 h2 bs2. kmalloc P sz h = Some (ptr, h1) \<and> kfree P ptr h1 = Some h2 \<and> heap_inv P h2 bs2 \<and>
    live (hp_mem h2) bs2 = live (hp_mem h) bs \<and> blocks_kept (hp_mem h) (hp_mem h2) (live (hp_mem h) bs)"
proof -
  obtain ptr h1 bs1 b i where k: "kmalloc P sz h = Some (ptr, h1)" and "malloc_post P sz h bs ptr h1 bs1 b i"
    using kmalloc_correct [OF assms(1,3,4)] by blast
  then have p: "heap_inv P h1 bs1" "ptr = slot_addr b (b_power_size (hp_mem h1) b) i" "sz \<le> b_power_size (hp_mem h1) b"
    "(b, i) \<notin> live (hp_mem h) bs" "live (hp_mem h1) bs1 = insert (b, i) (live (hp_mem h) bs)"
    "blocks_kept (hp_mem h) (hp_mem h1) (live (hp_mem h) bs)"
    "\<And>c. c \<in> set bs \<Longrightarrow> b_power_size (hp_mem h1) c = b_power_size (hp_mem h) c"
    by (simp_all add: malloc_post_def)
  have "b_power_size (hp_mem h1) b \<noteq> 16" using assms(2) p(3) by auto
  then obtain h2 bs2 where f: "kfree P ptr h1 = Some h2" and "free_post P h1 bs1 h2 bs2 b i"
    using kfree_correct [OF p(1), of b i] p(2,5) by auto
  then have q: "heap_inv P h2 bs2" "live (hp_mem h2) bs2 = live (hp_mem h) bs"
    "blocks_kept (hp_mem h1) (hp_mem h2) (live (hp_mem h) bs)"
    using p(4,5) by (simp_all add: free_post_def)
  have "blocks_kept (hp_mem h) (hp_mem h2) (live (hp_mem h) bs)"
    by (rule blocks_kept_trans [OF p(6) q(3)]) (auto simp: live_def p(7))
  with k f q show ?thesis by blast
qed

lemma malloc_free_roundtrip_witness:
  "\<exists>ptr h1 h2 bs2. kmalloc sample_pmm 20 sample_heap = Some (ptr, h1) \<and> kfree sample_pmm ptr h1 = Some h2 \<and>
    live (hp_mem h2) bs2 = {}"
  using malloc_free_roundtrip [OF sample_heap_inv, of 20] sample_alloc_nonzero by (auto simp: live_def)

text \<open>C12: growing a block from a bucket of slots above the smallest size, 16, with \<open>realloc\<close>, to at most
  2048 bytes, gives a block of the new size that starts with the bytes of the old one, ends the life of
  the old one and keeps every other live block (\<open>realloc_post\<close>).\<close>

theorem krealloc_moves_block:
  assumes "heap_inv P h bs" "(b, i) \<in> live (hp_mem h) bs" "b_power_size (hp_mem h) b \<noteq> 16"
    and "b_power_size (hp_mem h) b < sz" "sz \<le> 2048" "fst (allocate_frame P (hp_mem h)) \<noteq> 0"
  shows "\<exists>ptr' h' bs' b' i'. krealloc P (slot_addr b (b_power_size (hp_mem h) b) i) sz h = Some (ptr', h') \<and>
    realloc_post P sz h bs b i ptr' h' bs' b' i'"
  using assms by (rule krealloc_grow)

lemma krealloc_moves_block_witness:
  "\<exists>ptr h ptr' h' bs' b' i'. kmalloc sample_pmm 20 sample_heap = Some (ptr, h) \<and>
    krealloc sample_pmm ptr 100 h = Some (ptr', h') \<and> live (hp_mem h') bs' = {(b', i')} \<and>
    (\<forall>k < 32. hp_mem h' (ptr' + k) = hp_mem h (ptr + k))"
proof -
  obtain ptr h bs b i where b: "kmalloc sample_pmm 20 sample_heap = Some (ptr, h)" "heap_inv sample_pmm h bs"
    "live (hp_mem h) bs = {(b, i)}" "b_power_size (hp_mem h) b = 32" "ptr = slot_addr b 32 i"
    "fst (allocate_frame sample_pmm (hp_mem h)) \<noteq> 0" by (rule sample_block)
  from krealloc_moves_block [OF b(2), of b i 100] b(3-6) obtain ptr' h' bs' b' i'
    where r: "krealloc sample_pmm ptr 100 h = Some (ptr', h')" "realloc_post sample_pmm 100 h bs b i ptr' h' bs' b' i'" by auto
  then have "live (hp_mem h') bs' = {(b', i')}" "\<forall>k < 32. hp_mem h' (ptr' + k) = hp_mem h (ptr + k)"
    using b(3-5) by (auto simp: realloc_post_def)
  with b(1) r(1) show ?thesis by metis
qed



text \<open>C14: the free of a block from the smallest size does not free it: the bit cleared is the one two
  slots further on, the block stays live, and a live neighbour loses its bit instead.\<close>

theorem kfree_smallest_misses:
  assumes "heap_inv P h bs" "(b, i) \<in> live (hp_mem h) bs" "b_power_size (hp_mem h) b = 16"
  shows "\<exists>h'. kfree P (slot_addr b 16 i) h = Some h' \<and> (b, i) \<in> live (hp_mem h') bs \<and>
    live (hp_mem h') bs = live (hp_mem h) bs - {(b, i + 2)}"
  using kfree_16 [OF assms] by blast

lemma kfree_smallest_misses_witness:
  "\<exists>ptr h h' bs b i. kmalloc sample_pmm 8 sample_heap = Some (ptr, h) \<and> kfree sample_pmm ptr h = Some h' \<and>
    (b, i) \<in> live (hp_mem h') bs"
proof -
  have "(8 :: u32) \<le> 2048" by simp
  from kmalloc_correct [OF sample_heap_inv this] sample_alloc_nonzero obtain ptr h bs b i
    where k: "kmalloc sample_pmm 8 sample_heap = Some (ptr, h)"
      and post: "malloc_post sample_pmm 8 sample_heap [] ptr h bs b i" by auto
  have "compute_power 8 = Some (2 ^ 4)" by (rule compute_power_some) simp_all
  with post have "heap_inv sample_pmm h bs" "(b, i) \<in> live (hp_mem h) bs" "b_power_size (hp_mem h) b = 16"
    "ptr = slot_addr b 16 i" by (auto simp: malloc_post_def)
  with kfree_smallest_misses [OF this(1-3)] k show ?thesis by blast
qed

section \<open>Programs and processes\<close>

text \<open>C15: a timer tick stores the interrupted registers, all 56 bytes, in the current process, makes the
  next process of the list current, loads its page directory into CR3 and puts its saved registers in
  the frame the handler returns through. Nothing else in memory changes.\<close>

theorem switch_process_swaps:
  assumes "procs_ok m c ps state" and "switch_process state (c, m) = (c', m')"
  shows "sc_current c' = next_in ps (sc_current c) \<and> sc_cr3 c' = update_cr3 (load32 m (sc_current c')) \<and>
    procs_ok m' c' ps state \<and>
    (\<forall>k < SIZEOF_STATE. saved m' (sc_current c) k = frame m state k \<and>
       frame m' state k = (if sc_current c' = sc_current c then frame m state k else saved m (sc_current c') k)) \<and>
    (\<forall>x. \<not> in_block (sc_current c + PR_REGS) SIZEOF_STATE x \<longrightarrow> \<not> in_block state SIZEOF_STATE x \<longrightarrow> m' x = m x)"
  using switch_process_effect [OF assms] switch_process_ok [OF assms] by simp

lemma switch_process_swaps_witness:
  "sc_current (fst (switch_process proc_state (proc_sched, proc_mem))) = proc_b \<and>
   saved (snd (switch_process proc_state (proc_sched, proc_mem))) proc_a 36 = frame proc_mem proc_state 36"
proof -
  obtain c' m' where s: "switch_process proc_state (proc_sched, proc_mem) = (c', m')" by (rule prod.exhaust)
  have "(36 :: u32) < SIZEOF_STATE" by (simp add: SIZEOF_STATE_def)
  with switch_process_swaps [OF proc_ok s] s proc_next show ?thesis by (simp add: proc_sched_def)
qed

text \<open>C16: from a state in which the invariant holds, through any sequence of events whose handlers returned
  (hardware interrupts, exceptions and system calls, and work of the processes that spares the kernel's process
  objects): the invariant holds again and the interrupt controllers have the lines in service they had at the start,
  none more. The handler of the next hardware interrupt, of any of the sixteen lines, returns. The handler of the
  next exception or system call returns exactly when it is not 13 or 14, which halt, and not a system call beyond
  the table, which jumps away (\<open>trap_returns\<close>); it never waits for ever.\<close>

theorem interrupts_return:
  assumes "machine_ok ps state M" and "run ps state (M, c) es (M', c')"
  shows "machine_ok ps state M' \<and> c' = c \<and>
    (\<forall>n < 16. load32 (mc_mem M') (state + ST_INT) = of_nat n \<longrightarrow> (\<exists>s. step ps state (M', c') (Line n) s)) \<and>
    ((\<exists>s. step ps state (M', c') Trap s) \<longleftrightarrow>
      trap_returns (load32 (mc_mem M') (state + ST_INT)) (load32 (mc_mem M') (state + ST_EAX))) \<and>
    isr_handler state M' \<noteq> Inl Waiting"
proof -
  have ok: "machine_ok ps state M'" "c' = c" using run_ticks [OF assms(2,1)] by simp_all
  then show ?thesis using step_exists(1) [OF ok(1)] trap_outcome [OF ok(1)] by blast
qed

lemma interrupts_return_witness:
  "\<exists>M1. step [proc_a, proc_b] proc_state (sample_machine proc_mem, sample_pics) (Line 0) (M1, sample_pics) \<and>
    machine_ok [proc_a, proc_b] proc_state M1"
proof -
  let ?s = "(sample_machine proc_mem, sample_pics)"
  obtain M1 c1 where st: "step [proc_a, proc_b] proc_state ?s (Line 0) (M1, c1)"
    using step_exists(1) [OF sample_machine_ok, of 0 sample_pics] proc_mem_tick by fastforce
  have "run [proc_a, proc_b] proc_state ?s ([] @ [Line 0]) (M1, c1)" by (rule run_more [OF run_none st])
  from interrupts_return [OF sample_machine_ok this] st show ?thesis by blast
qed

text \<open>C17: a round of the scheduler gives a process its registers back: after the tick that takes the processor from
  it, whatever interrupts, system calls and work of the others come in between, the tick that ends the
  round makes it current again, and the frame holds the 56 bytes it was interrupted with.\<close>

theorem round_keeps_registers:
  assumes "machine_ok ps state M" and "step ps state (M, c) (Line 0) (M1, c1)"
    and "run ps state (M1, c1) es (M2, c2)" and "tick_count es + 2 = length ps"
    and "step ps state (M2, c2) (Line 0) (M3, c3)"
  shows "sc_current (mc_sched M3) = sc_current (mc_sched M) \<and>
    (\<forall>k < SIZEOF_STATE. frame (mc_mem M3) state k = frame (mc_mem M) state k)"
  using round_resumes [OF assms] by blast

lemma round_keeps_registers_witness:
  "\<exists>M1 M2 M3 c1 c2 c3. step [proc_a, proc_b] proc_state (sample_machine proc_mem, sample_pics) (Line 0) (M1, c1) \<and>
    step [proc_a, proc_b] proc_state (M1, c1) Work (M2, c2) \<and> step [proc_a, proc_b] proc_state (M2, c2) (Line 0) (M3, c3) \<and>
    sc_current (mc_sched M3) = proc_a \<and> frame (mc_mem M3) proc_state 36 = frame proc_mem proc_state 36"
proof -
  let ?ps = "[proc_a, proc_b]" and ?M = "sample_machine proc_mem"
  obtain M1 c1 where t1: "step ?ps proc_state (?M, sample_pics) (Line 0) (M1, c1)"
    using step_exists(1) [OF sample_machine_ok, of 0 sample_pics] proc_mem_tick by fastforce
  have ok1: "machine_ok ?ps proc_state M1" using step_runs(1) [OF t1 sample_machine_ok] .
  define M2 where "M2 = M1\<lparr>mc_mem := store32 (proc_state + ST_INT) 0 (mc_mem M1)\<rparr>"
  have pk: "procs_kept ?ps (mc_mem M1) (store32 (proc_state + ST_INT) 0 (mc_mem M1))"
    using ok1 by (intro frame_write_kept) (auto simp: machine_ok_def ST_INT_def SIZEOF_STATE_def)
  have w: "step ?ps proc_state (M1, c1) Work (M2, c1)" unfolding M2_def by (rule step_work [OF pk])
  have "machine_ok ?ps proc_state M2" using step_runs(1) [OF w ok1] .
  then obtain M3 c3 where t2: "step ?ps proc_state (M2, c1) (Line 0) (M3, c3)"
    using step_exists(1) [of ?ps proc_state M2 0 c1] by (auto simp: M2_def)
  have "run ?ps proc_state (M1, c1) ([] @ [Work]) (M2, c1)" by (rule run_more [OF run_none w])
  moreover have "tick_count ([] @ [Work]) + 2 = length ?ps" by simp
  ultimately have "sc_current (mc_sched M3) = sc_current (mc_sched ?M) \<and>
      (\<forall>k < SIZEOF_STATE. frame (mc_mem M3) proc_state k = frame (mc_mem ?M) proc_state k)"
    using t2 by (rule round_keeps_registers [OF sample_machine_ok t1])
  moreover have "sc_current (mc_sched ?M) = proc_a" "(36 :: u32) < SIZEOF_STATE"
    by (simp_all add: sample_machine_def proc_sched_def SIZEOF_STATE_def)
  ultimately have "sc_current (mc_sched M3) = proc_a \<and> frame (mc_mem M3) proc_state 36 = frame proc_mem proc_state 36" by simp
  with t1 w t2 show ?thesis by blast
qed

text \<open>C18: the scheduler is fair. From any state of the running machine every process of the list becomes current
  within fewer ticks than there are processes, whatever other interrupts come in between; the timer counts
  the ticks, and the machine does reach them.\<close>

theorem processes_take_turns:
  assumes "machine_ok ps state M" and "q \<in> set ps"
  shows "\<exists>n < length ps. (\<exists>es s. run ps state (M, c) es s \<and> tick_count es = n) \<and>
    (\<forall>es M' c'. run ps state (M, c) es (M', c') \<longrightarrow> pt_ticks (mc_pit M') = pt_ticks (mc_pit M) + of_nat (tick_count es) \<and>
      (tick_count es = n \<longrightarrow> sc_current (mc_sched M') = q))"
proof -
  obtain n where "n < length ps" "\<forall>c es M' c'. run ps state (M, c) es (M', c') \<longrightarrow> tick_count es = n \<longrightarrow> sc_current (mc_sched M') = q"
    by (rule run_fair [OF assms])
  then show ?thesis using run_exists [OF assms(1), of c n] run_ticks [OF _ assms(1)] by blast
qed

lemma processes_take_turns_witness:
  "\<exists>es M' c'. run [proc_a, proc_b] proc_state (sample_machine proc_mem, sample_pics) es (M', c') \<and> sc_current (mc_sched M') = proc_b"
  using processes_take_turns [OF sample_machine_ok, of proc_b sample_pics] by fastforce

section \<open>Physical frames and bitmaps\<close>

text \<open>C19: any number of allocations in a row never hands out the same frame twice, and hands out only
  frames that were not in use.\<close>

theorem frames_never_twice:
  assumes "fa_inv (P, m)"
  shows "distinct (filter (\<lambda>a. a \<noteq> 0) (fst (iterate_alloc fa_alloc n (P, m)))) \<and>
    set (fst (iterate_alloc fa_alloc n (P, m))) - {0} \<subseteq> fa_pool (P, m) - fa_in_use (P, m)"
  using fa.iterate_distinct [OF assms] fa.iterate_fresh [OF assms] by blast

lemma frames_never_twice_witness:
  "distinct (filter (\<lambda>a. a \<noteq> 0) (fst (iterate_alloc fa_alloc 3 (sample_pmm, sample_mem))))"
  using frames_never_twice [OF sample_fa_inv, of 3] by simp

text \<open>C20: \<open>allocate_frame\<close> returns null exactly when every frame but the first is in use.\<close>

theorem allocate_frame_null_iff:
  assumes "pmm_wf P"
  shows "fst (allocate_frame P m) = 0 \<longleftrightarrow> (\<forall>k. 1 \<le> k \<and> k < pmm_nbFrames P \<longrightarrow> frame_used P k m)"
  using assms by (rule allocate_frame_zero_iff)

lemma allocate_frame_null_iff_witness: "fst (allocate_frame sample_pmm sample_mem) \<noteq> 0"
  using allocate_frame_null_iff [of sample_pmm sample_mem] sample_used [of 2]
  by (auto simp: pmm_wf_def sample_pmm_def intro!: exI [of _ 2])

text \<open>C21: with less than 3 GiB of memory and a first region that is available from address 0, \<open>init\<close> returns,
  has made an allocator for the memory the map lists, and leaves no frame in use: neither those of the kernel nor
  those of the bitmap, nor the reserved ones. The kernel's addresses are virtual, those of the regions physical.
  The allocations that follow hand out the frames 1, 2, 3 and so on, those of the kernel when their turn comes.\<close>

theorem init_frees_every_frame:
  fixes mbd kernel_start kernel_end cr :: u32 and m :: memory
  defines "P' \<equiv> init_pmm m mbd kernel_end" and "pd \<equiv> get_current_pd cr"
  assumes "drop_bit 6 (mbd_flags m mbd) AND 1 \<noteq> 0" and "fair (se_ports s)"
    and "0 < mbd_mmap_length m mbd" and "unat (mbd_mmap_length m mbd) + 24 \<le> 2 ^ 32" and "pmm_nbFrames P' \<le> 0xC0000"
    and "0xC0000000 \<le> kernel_start" and "kernel_start \<le> 0xFFFF0000" and "0xC0000000 \<le> bm_ptr (pmm_bm P')"
    and "pd_wf m pd" and "\<forall>i < bitmap_pages P'. present (pde m pd (pd_index (bitmap_page P' i)))"
    and "\<forall>x \<in> boot_info m mbd. init_spares m pd P' x"
    and "mmap_type m (mmap_entry m mbd 0) = MULTIBOOT_MEMORY_AVAILABLE" and "mmap_addr_low m (mmap_entry m mbd 0) = 0"
  shows "\<exists>m' s'. pmm_init kernel_start kernel_end cr mbd (P, m, s) = Some (P', m', s') \<and> (\<forall>j. \<not> frame_used P' j m') \<and>
    (\<forall>n. Suc n < unat (pmm_nbFrames P') \<longrightarrow>
      fst (allocate_frame P' (((\<lambda>t. snd (allocate_frame P' t)) ^^ n) m')) = of_nat (Suc n) * FRAME_SIZE)"
proof -
  obtain m' s' where m': "pmm_init kernel_start kernel_end cr mbd (P, m, s) = Some (P', m', s')" "\<forall>j. \<not> frame_used P' j m'"
    using pmm_init_done [OF assms(3-) [unfolded P'_def pd_def], of P] unfolding P'_def by blast
  have "(0xC0000 :: u32) \<le> 0x100000" by simp
  with assms(7) have "pmm_nbFrames P' \<le> 0x100000" by (rule order_trans)
  then have "pmm_wf P'" by (simp add: pmm_wf_def P'_def init_pmm_def Let_def)
  from m' allocations_in_order(1) [OF this m'(2)] show ?thesis by blast
qed

lemma init_frees_every_frame_witness:
  "\<exists>m' s'. pmm_init 0xC0100000 0xC0110000 0x1000 0x9000 (sample_pmm, early_mem, sample_serial) = Some (early_pmm, m', s') \<and>
    fst (allocate_frame early_pmm (((\<lambda>t. snd (allocate_frame early_pmm t)) ^^ 255) m')) = V2P 0xC0100000"
proof -
  have pd: "get_current_pd 0x1000 = window_pd" by (simp add: get_current_pd_def P2V_def KERNEL_OFFSET_def)
  have dir: "page_of x = window_pd \<Longrightarrow> early_mem x = window_dir x" for x by (simp add: early_mem_def)
  have wf: "pd_wf early_mem window_pd" by (rule window_pd_wf) (rule dir)
  have pages: "\<forall>i < bitmap_pages early_pmm. present (pde early_mem window_pd (pd_index (bitmap_page early_pmm i)))"
    using window_table(1) [of early_mem 768, OF dir] by (auto simp: early_pages pd_index_def dest!: word_less_1 [THEN iffD1])
  have fields: "pmm_nbFrames early_pmm = 512" "bm_ptr (pmm_bm early_pmm) = 0xC0110000" by (simp_all add: early_pmm_eq)
  obtain m' s' where i: "pmm_init 0xC0100000 0xC0110000 0x1000 0x9000 (sample_pmm, early_mem, sample_serial) = Some (early_pmm, m', s')"
    and a: "\<And>n. Suc n < unat (pmm_nbFrames early_pmm) \<Longrightarrow>
      fst (allocate_frame early_pmm (((\<lambda>t. snd (allocate_frame early_pmm t)) ^^ n) m')) = of_nat (Suc n) * FRAME_SIZE"
    by (rule exE [OF init_frees_every_frame [where m = early_mem and mbd = "0x9000" and s = sample_serial and kernel_end = "0xC0110000" and
        kernel_start = "0xC0100000" and cr = "0x1000" and P = sample_pmm, unfolded pd,
        OF early_map(3) sample_serial_ok(2) _ _ _ _ _ _ wf pages early_info]]) (simp_all add: early_map fields, blast)
  moreover have "of_nat (Suc 255) * FRAME_SIZE = V2P 0xC0100000" by (simp add: FRAME_SIZE_def V2P_def KERNEL_OFFSET_def)
  moreover have "Suc 255 < unat (pmm_nbFrames early_pmm)" by (simp add: fields)
  ultimately show ?thesis using a [of 255] by metis
qed

text \<open>C22: the tests of the bitmap pass, wherever their data lies in memory and whatever memory held before.\<close>

theorem bitmap_tests_pass:
  "SimpleGetBit ptr m \<and> GetBitOutOfBounds ptr m \<and> ClearBitReturnValueFalse ptr m \<and> ClearBitReturnValueTrue ptr m \<and>
   SetBitReturnValueFalse ptr m \<and> SetBitReturnValueTrue ptr m \<and> ClearBitSimple ptr m \<and> ClearArea ptr m \<and> InvariantBit ptr m"
  using tests_pass by blast

section \<open>The keyboard\<close>

text \<open>C23: from the construction of the keyboard on, the characters read are those typed, in order, none
  lost and none doubled, and the rest is waiting, as long as at most 256 were typed.\<close>

theorem keyboard_fifo:
  assumes "\<not> kb_init k" and "kb_run (Keyboard_new k, s) es ks'" and "length (typed 0 es) \<le> 256"
  shows "typed 0 es = reads es @ pending (fst ks')"
  using kb_run_fifo [OF assms(2)] Keyboard_new_inv [OF assms(1)] assms(3) by simp

lemma keyboard_fifo_witness:
  "\<exists>k'. kb_run (Keyboard_new (sample_keyboard\<lparr>kb_init := False\<rparr>), sample_serial) [Scan 0x20] k' \<and>
    pending (fst k') = lit ''d''"
proof -
  let ?k = "sample_keyboard\<lparr>kb_init := False\<rparr>"
  have i: "\<not> kb_init ?k" by simp
  from handler_returns [of "Keyboard_new ?k" sample_serial] Keyboard_new_inv [OF i] sample_serial_ok(2)
  obtain k' s' where h: "keyboard_interrupt_handler (Keyboard_new ?k, sample_serial) = Some (k', s')" by blast
  have "kb_run (Keyboard_new ?k, sample_serial) [Scan 0x20] (k', s')"
    by (rule run_step [OF kb_scan [OF h] run_nil]) (simp add: inb_def sample_serial_def sample_ports_def)
  with keyboard_fifo [OF i this] show ?thesis by (auto simp: types_def special_keys_def scancode_column_def scancode_columns_def)
qed

text \<open>C24: whatever is typed and read, and however much, the indices of the queue stay within it, the reader
  never overtakes the writer, and the shift state names a column of the table.\<close>

theorem keyboard_in_bounds:
  assumes "\<not> kb_init k" and "kb_run (Keyboard_new k, s) es (k', s')"
  shows "kb_read k' \<le> kb_idx k' \<and> kb_idx k' \<le> KEYBOARD_QUEUE_SIZE \<and> kb_column k' < 4"
proof -
  have "kb_inv k'" using kb_run_inv [OF assms(2)] Keyboard_new_inv [OF assms(1)] by simp
  then show ?thesis by (simp add: kb_inv_def)
qed

lemma keyboard_in_bounds_witness:
  "\<exists>k' s'. kb_run (Keyboard_new (sample_keyboard\<lparr>kb_init := False\<rparr>), sample_serial) [Scan 0x20] (k', s') \<and>
    kb_read k' \<le> kb_idx k' \<and> kb_idx k' \<le> KEYBOARD_QUEUE_SIZE \<and> kb_column k' < 4"
proof -
  let ?k = "sample_keyboard\<lparr>kb_init := False\<rparr>"
  have i: "\<not> kb_init ?k" by simp
  from handler_returns [of "Keyboard_new ?k" sample_serial] Keyboard_new_inv [OF i] sample_serial_ok(2)
  obtain k' s' where h: "keyboard_interrupt_handler (Keyboard_new ?k, sample_serial) = Some (k', s')" by blast
  have "kb_run (Keyboard_new ?k, sample_serial) [Scan 0x20] (k', s')"
    by (rule run_step [OF kb_scan [OF h] run_nil]) (simp add: inb_def sample_serial_def sample_ports_def)
  with keyboard_in_bounds [OF i this] show ?thesis by blast
qed

section \<open>Formatted output\<close>

text \<open>C25: on a working line \<open>kprintf\<close> sends exactly the text its format and arguments denote, and leaves
  the digit stack as it found it.\<close>

theorem serial_kprintf_sends:
  assumes "renders True m cs args out" and "cstring_at m fmt cs" and "serial_ok s"
  shows "\<exists>ks' s'. serial_kprintf m fmt args ks s = Some (ks', s') \<and> ks_idx ks' = ks_idx ks \<and>
    serial_ok s' \<and> serial_text s' = serial_text s @ out"
  unfolding serial_kprintf_def using assms by (rule sline.kprintf_output)

lemma serial_kprintf_sends_witness:
  "\<exists>ks' s'. serial_kprintf (lit_mem ''n=%d.'') 0 [42] \<lparr>ks_cells = (\<lambda>_. 0), ks_idx = 0\<rparr> sample_serial = Some (ks', s') \<and>
    serial_text s' = lit ''n='' @ dec_text 42 @ lit ''.''"
proof -
  have c: "cstring_at (lit_mem ''n=%d.'') 0 (lit ''n=%d.'')" by (rule cstring_at_lit) simp_all
  have r: "renders True (lit_mem ''n=%d.'') (lit ''n=%d.'') [42] (lit ''n='' @ dec_text 42 @ lit ''.'')"
    using renders_d_end(1) [of "''n=''" "''.''" _ 42] by (simp del: lit_simps)
  from serial_kprintf_sends [OF r c sample_serial_ok(1), where ks = "\<lparr>ks_cells = (\<lambda>_. 0), ks_idx = 0\<rparr>"]
  show ?thesis unfolding sample_serial_ok(3) append_Nil by blast
qed

text \<open>C26: the text \<open>print_hex\<close> and \<open>print_dec\<close> send for a number reads back as that number; the
  hexadecimal form has the prefix and the width asked for.\<close>

theorem printed_numbers_read_back:
  assumes "serial_ok s" and "nbits div 4 < 256" and "unat v < 16 ^ unat (nbits div 4)"
  shows "(\<exists>ks' s' out. print_hex serial_write_char v nbits ks s = Some (ks', s') \<and> serial_text s' = serial_text s @ out \<and>
      length out = 2 + unat (nbits div 4) \<and> take 2 out = lit ''0x'' \<and> parse_digits 16 (drop 2 out) = unat v) \<and>
    (\<exists>ks' s' out. print_dec serial_write_char w ks s = Some (ks', s') \<and> serial_text s' = serial_text s @ out \<and>
      parse_digits 10 out = unat w)"
proof -
  obtain ks1 where "print_hex serial_write_char v nbits ks s =
      map_option (Pair ks1) (put_all serial_write_char (hex_text (unat (nbits div 4)) (unat v)) s)"
    using print_hex_text [OF assms(2)] by metis
  moreover obtain ks2 where "print_dec serial_write_char w ks s =
      map_option (Pair ks2) (put_all serial_write_char (dec_text (unat w)) s)"
    using print_dec_text by metis
  ultimately show ?thesis
    using sline.put_all_output [OF assms(1), of "hex_text (unat (nbits div 4)) (unat v)"]
      sline.put_all_output [OF assms(1), of "dec_text (unat w)"] hex_text_shape [OF assms(3)] dec_text_shape(1)
    by fastforce
qed

lemma printed_numbers_read_back_witness:
  "\<exists>ks' s' out. print_hex serial_write_char 0xBEEF 32 \<lparr>ks_cells = (\<lambda>_. 0), ks_idx = 0\<rparr> sample_serial = Some (ks', s') \<and>
    serial_text s' = serial_text sample_serial @ out \<and> parse_digits 16 (drop 2 out) = 0xBEEF"
  using printed_numbers_read_back [OF sample_serial_ok(1), of 32 "0xBEEF" "\<lparr>ks_cells = (\<lambda>_. 0), ks_idx = 0\<rparr>" 0] by auto

section \<open>Interrupts\<close>

text \<open>C27: after \<open>PIC_new\<close> and \<open>idt_init\<close> interrupt line n of the two controllers enters the n-th stub of
  the interrupt table, through a gate of the kernel's code segment that ring 3 cannot call.\<close>

theorem irq_enters_its_stub:
  assumes "fair (se_ports s)" and "n < 16" and "po_writes (snd (PIC_new (False, p))) = po_writes p @ ws"
  shows "\<exists>v idt' pic' s'. pics_vector n (pics_run ws c) = Some v \<and>
    idt_init isr_table irq_table isr_128 (idt, pic, s) = Some (idt', pic', s') \<and>
    gate (idt' (ucast v)) = Some (irq_table (of_nat n), 0x08, 0)"
  using assms by (rule irq_reaches_stub)

lemma irq_enters_its_stub_witness:
  "\<forall>c. \<exists>ws v idt' pic' s'. pics_vector 1 (pics_run ws c) = Some v \<and>
    idt_init (\<lambda>_. 1) (\<lambda>i. 0xC0100000 + i) 2 ((\<lambda>_. zero_entry), False, sample_serial) = Some (idt', pic', s') \<and>
    gate (idt' (ucast v)) = Some (0xC0100001, 0x08, 0)"
proof
  fix c
  have "(1 :: nat) < 16" by simp
  from irq_enters_its_stub [OF sample_serial_ok(2) this PIC_new_writes, where c = c and idt = "\<lambda>_. zero_entry"
      and pic = False and irq_table = "\<lambda>i. 0xC0100000 + i" and isr_table = "\<lambda>_. 1" and ?isr_128.0 = 2]
  show "\<exists>ws v idt' pic' s'. pics_vector 1 (pics_run ws c) = Some v \<and>
    idt_init (\<lambda>_. 1) (\<lambda>i. 0xC0100000 + i) 2 ((\<lambda>_. zero_entry), False, sample_serial) = Some (idt', pic', s') \<and>
    gate (idt' (ucast v)) = Some (0xC0100001, 0x08, 0)" by simp blast
qed

text \<open>C28: the table of gates after \<open>idt_init\<close>: the 32 exceptions, the 16 interrupt lines and the system call
  enter their stubs in the kernel's code segment, no other vector is present, and only the system
  call's gate is open to ring 3.\<close>

theorem idt_gates:
  assumes "fair (se_ports s)" and "i < IDT_ENTRIES"
  shows "\<exists>idt' pic' s'. idt_init isr_table irq_table isr_128 (idt, pic, s) = Some (idt', pic', s') \<and>
    gate (idt' i) =
      (if i < 32 then Some (isr_table i, 0x08, 0)
       else if i < 48 then Some (irq_table (i - 32), 0x08, 0)
       else if i = 0x80 then Some (isr_128, 0x08, 3) else None)"
  using assms by (rule idt_init_gates)

lemma idt_gates_witness:
  "\<exists>idt' pic' s'. idt_init (\<lambda>_. 1) (\<lambda>_. 2) 0xC0100128 ((\<lambda>_. zero_entry), False, sample_serial) = Some (idt', pic', s') \<and>
    gate (idt' 0x80) = Some (0xC0100128, 0x08, 3)"
proof -
  have "(0x80 :: u32) < IDT_ENTRIES" by (simp add: IDT_ENTRIES_def)
  from idt_gates [OF sample_serial_ok(2) this, of "\<lambda>_. 1" "\<lambda>_. 2" "0xC0100128" "\<lambda>_. zero_entry" False]
  show ?thesis by simp
qed

text \<open>C29: system call 0 prints the argument in \<open>ebx\<close>, puts 0 into the caller's \<open>eax\<close> and changes nothing else
  in memory.\<close>

theorem syscall_zero_prints:
  assumes "serial_ok (mc_serial M)" and "load32 (mc_mem M) (state + ST_INT) = 0x80"
    and "load32 (mc_mem M) (state + ST_EAX) = 0"
  shows "\<exists>ks s. isr_handler state M = Inr (M\<lparr>mc_mem := store32 (state + ST_EAX) 0 (mc_mem M),
      mc_kstack := ks, mc_serial := s\<rparr>) \<and> serial_ok s \<and>
    serial_text s = serial_text (mc_serial M) @
      lit ''[SYSCALLS] Triggerring a syscall, %eax = '' @ dec_text 0 @ lit ''\<newline>'' @
      lit ''[DUMMY SYSCALL] Arg: '' @ dec_text (unat (load32 (mc_mem M) (state + ST_EBX))) @ lit ''.\<newline>''"
  using isr_syscall [OF line_ok_start [OF assms(1)] assms(2)] unfolding line_ok_def assms(3)
  by (simp add: first_entry_def del: lit_simps) blast

lemma syscall_zero_prints_witness:
  "\<exists>M'. isr_handler proc_state (sample_machine (frame_mem 0x80 0)) = Inr M'"
  using syscall_zero_prints [of "sample_machine (frame_mem 0x80 0)" proc_state] sample_serial_ok(1)
  by (simp del: lit_simps) blast

text \<open>C30: the system call number comes from user mode and is not checked. The table has one entry; the entry is
  read at four times \<open>eax\<close> from its start, in 32 bits. The four numbers whose product wraps to 0 reach the one
  system call there is, which prints and returns; every other number makes the handler call through a pointer
  outside the table.\<close>

theorem syscall_index_unchecked:
  assumes "serial_ok (mc_serial M)" and "load32 (mc_mem M) (state + ST_INT) = 0x80"
    and "load32 (mc_mem M) (state + ST_EAX) = eax"
  shows "if eax \<in> {0, 0x40000000, 0x80000000, 0xC0000000}
    then \<exists>M'. isr_handler state M = Inr M' \<and> mc_mem M' = store32 (state + ST_EAX) 0 (mc_mem M) \<and>
      serial_text (mc_serial M') = serial_text (mc_serial M) @
        lit ''[SYSCALLS] Triggerring a syscall, %eax = '' @ dec_text (unat eax) @ lit ''\<newline>'' @
        lit ''[DUMMY SYSCALL] Arg: '' @ dec_text (unat (load32 (mc_mem M) (state + ST_EBX))) @ lit ''.\<newline>''
    else \<exists>M'. isr_handler state M = Inl (Wild_call eax M')"
proof (cases "eax \<in> first_entry")
  case True
  with isr_syscall [OF line_ok_start [OF assms(1)] assms(2)] assms(3) show ?thesis
    by (auto simp: first_entry_def simp del: lit_simps)
next
  case False
  with isr_syscall_unchecked [OF line_ok_start [OF assms(1)] assms(2)] assms(3) show ?thesis
    by (simp add: first_entry_def)
qed

lemma syscall_index_unchecked_witness:
  "(\<exists>M'. isr_handler proc_state (sample_machine (frame_mem 0x80 7)) = Inl (Wild_call 7 M')) \<and>
   (\<exists>M'. isr_handler proc_state (sample_machine (frame_mem 0x80 0x40000000)) = Inr M')"
  using syscall_index_unchecked [where M = "sample_machine (frame_mem 0x80 7)" and state = proc_state and eax = 7]
    syscall_index_unchecked [where M = "sample_machine (frame_mem 0x80 0x40000000)" and state = proc_state and eax = "0x40000000"] sample_serial_ok(1)
  by (auto simp del: lit_simps)

text \<open>C31: a general protection or page fault is reported on the serial line, with the instruction and the
  frame pointer, and halts; it is never returned from.\<close>

theorem fault_halts:
  assumes "serial_ok (mc_serial M)" and "load32 (mc_mem M) (state + ST_INT) = n" and "n \<in> {13, 14}"
  shows "\<exists>M'. isr_handler state M = Inl (Halted M') \<and> mc_mem M' = mc_mem M \<and>
    serial_text (mc_serial M') = serial_text (mc_serial M) @
      (if n = 13 then lit ''[ERROR] General Protection fault\<newline>'' else lit ''[ERROR] Page fault\<newline>'') @
      lit ''[ERROR] %eip = '' @ hex_text 8 (unat (load32 (mc_mem M) (state + ST_EIP))) @ lit ''\<newline>'' @
      lit ''[ERROR] %ebp = '' @ hex_text 8 (unat (load32 (mc_mem M) (state + ST_EBP))) @ lit ''\<newline>''"
  using assms(3) by (intro isr_fault_halts [OF line_ok_start [OF assms(1)] assms(2)]) simp

lemma fault_halts_witness:
  "\<exists>M'. isr_handler proc_state (sample_machine (frame_mem 14 0)) = Inl (Halted M')"
  using fault_halts [of "sample_machine (frame_mem 14 0)" proc_state 14] sample_serial_ok(1)
  by (simp del: lit_simps) blast

text \<open>C32: \<open>gdt_init\<close> returns on a working serial line, with the four segments of kernel and user flat over
  the whole address space at the privilege of their selectors, and the task segment naming the TSS
  and, as the stack to enter the kernel on, the boot stack.\<close>

theorem gdt_init_segments:
  assumes "fair (se_ports s)" and "gs_gdt g = gdt_static"
  shows "\<exists>g' s'. gdt_init tss_addr gdt_addr stack_top (g, s) = Some (g', s') \<and>
    (\<forall>sel \<in> {0x08, 0x10, 0x1B, 0x23}. \<exists>d. selected g' sel = Some d \<and> flat d \<and> desc_dpl d = ucast (sel AND 3)) \<and>
    (\<exists>d. selected g' 0x28 = Some d \<and> desc_present d \<and> desc_base d = tss_addr \<and> desc_limit d = 103) \<and>
    ts_esp0 (gs_tss g') = stack_top"
proof -
  let ?g = "gdt_fill tss_addr gdt_addr stack_top g"
  obtain s' where "gdt_init tss_addr gdt_addr stack_top (g, s) = Some (?g, s')"
    using gdt_init_returns [OF assms(1)] by blast
  moreover have "\<forall>sel \<in> {0x08, 0x10, 0x1B, 0x23}. \<exists>d. selected ?g sel = Some d \<and> flat d \<and> desc_dpl d = ucast (sel AND 3)"
    using gdt_fill_flat [OF assms(2)] by blast
  ultimately show ?thesis using gdt_fill_stack(1,2) [OF assms(2)] by blast
qed

lemma gdt_init_segments_witness:
  "\<exists>g' s'. gdt_init 0xC0105000 0xC0106000 0xC0104000
      (\<lparr>gs_gdt = gdt_static, gs_tss = zero_tss, gs_limit = 0, gs_base = 0\<rparr>, sample_serial) = Some (g', s') \<and>
    ts_esp0 (gs_tss g') = 0xC0104000"
proof -
  have "gs_gdt \<lparr>gs_gdt = gdt_static, gs_tss = zero_tss, gs_limit = 0, gs_base = 0\<rparr> = gdt_static" by simp
  from gdt_init_segments [OF sample_serial_ok(2) this, of "0xC0105000" "0xC0106000" "0xC0104000"] show ?thesis by blast
qed

section \<open>Strings and files\<close>

text \<open>C33: \<open>memmove\<close> moves the block as it was, also when source and destination overlap, changes nothing
  outside the destination, and returns the destination.\<close>

theorem memmove_moves:
  assumes "unat src + unat sz \<le> 2 ^ 32" and "unat dst + unat sz \<le> 2 ^ 32"
  shows "fst (memmove dst src sz m) = dst \<and>
    snd (memmove dst src sz m) x = (if in_block dst sz x then m (src + (x - dst)) else m x)"
  using memmove_apply [OF assms] by simp

lemma memmove_moves_witness:
  "snd (memmove 0x1001 0x1000 8 ((\<lambda>_. 0)(0x1003 := 7))) 0x1004 = 7"
  using memmove_moves [of "0x1000" 8 "0x1001" "(\<lambda>_. 0)(0x1003 := 7)" "0x1004"] by (simp add: in_block_def)

text \<open>C34: \<open>compute_power\<close> rounds a size of at most 2 GiB up to the least power of two that is at least 16;
  above that its loop never ends, and \<open>malloc\<close> does not return.\<close>

theorem compute_power_returns_iff:
  "(bytes \<le> 2 ^ 31 \<longrightarrow> (\<exists>k \<in> {4 .. 31}. compute_power bytes = Some (2 ^ k) \<and> bytes \<le> 2 ^ k \<and>
      (k = 4 \<or> 2 ^ (k - 1) < bytes))) \<and>
   (2 ^ 31 < bytes \<longrightarrow> compute_power bytes = None \<and> kmalloc P bytes h = None)"
proof (intro conjI impI)
  assume "bytes \<le> 2 ^ 31"
  then obtain k where "4 \<le> k" "k \<le> 31" "bytes \<le> 2 ^ k" "k = 4 \<or> 2 ^ (k - 1) < bytes"
    "compute_power bytes = Some (2 ^ k)" by (rule compute_power_total)
  then show "\<exists>k \<in> {4 .. 31}. compute_power bytes = Some (2 ^ k) \<and> bytes \<le> 2 ^ k \<and> (k = 4 \<or> 2 ^ (k - 1) < bytes)"
    by (intro bexI [of _ k]) auto
next
  assume "2 ^ 31 < bytes"
  then show d: "compute_power bytes = None" by (rule compute_power_diverges)
  show "kmalloc P bytes h = None" by (simp add: kmalloc_def d)
qed

lemma compute_power_returns_iff_witness:
  "(\<exists>k \<in> {4 .. 31}. compute_power 100 = Some (2 ^ k)) \<and> kmalloc sample_pmm 0x80000001 sample_heap = None"
  using compute_power_returns_iff [of 100 sample_pmm sample_heap]
    compute_power_returns_iff [of "0x80000001" sample_pmm sample_heap] by auto

section \<open>The screen\<close>

text \<open>C35: writing any character but a newline puts it, in the current colour, at the next position, scrolls
  the screen up by one row when that is needed, and changes nothing else on the screen or in memory.\<close>

theorem vga_character:
  assumes "vga_ok v" and "ch \<noteq> newline"
  shows "\<exists>m'. vga_write_char ch (v, m) = (v\<lparr>vg_x := fst (next_pos v), vg_y := snd (next_pos v)\<rparr>, m') \<and>
    (\<forall>r < 25. \<forall>c < 80. cell (vg_screen v) m' (80 * r + c) =
      (if (c, r) = next_pos v then vga_cell v ch
       else if \<not> scrolls v then cell (vg_screen v) m (80 * r + c)
       else if r < 24 then cell (vg_screen v) m (80 * (r + 1) + c) else vga_cell v (of_char CHR '' ''))) \<and>
    (\<forall>a. \<not> in_block (vg_screen v) 4000 a \<longrightarrow> m' a = m a)"
  by (rule write_char_spec [OF assms, of m]) blast

lemma vga_character_witness:
  "\<exists>m'. vga_write_char 0x41 (sample_vga, (\<lambda>_. 0)) =
    (sample_vga\<lparr>vg_x := fst (next_pos sample_vga), vg_y := snd (next_pos sample_vga)\<rparr>, m')"
  using vga_character [OF sample_vga_ok(1), of "0x41" "\<lambda>_. 0"] by auto

text \<open>C36: two newlines in a row on the last row leave the cursor below the screen, and the next character
  is stored after its end.\<close>

theorem vga_blank_line_overrun:
  assumes "vga_ok v" "vg_y v = 24" "ch \<noteq> newline"
    and "put_all vga_put [newline, newline, ch] (v, m) = Some (v', m')"
  shows "load16 m' (vg_screen v + 4000) = vga_cell v ch"
  using blank_line_overrun [OF assms] by simp

lemma vga_blank_line_overrun_witness:
  "load16 (snd (the (put_all vga_put [newline, newline, 0x41] (sample_vga, (\<lambda>_. 0))))) (0xC03FF000 + 4000) =
    vga_cell sample_vga 0x41"
proof -
  obtain v' m' where "vga_write_char 0x41 (vga_write_char newline (vga_write_char newline (sample_vga, (\<lambda>_. 0)))) = (v', m')"
    by (rule prod.exhaust)
  then have w: "put_all vga_put [newline, newline, 0x41] (sample_vga, (\<lambda>_. 0)) = Some (v', m')"
    by (simp add: vga_put_def)
  have "(0x41 :: u8) \<noteq> newline" by simp
  from vga_blank_line_overrun [OF sample_vga_ok(1,2) this w] w show ?thesis by (simp add: sample_vga_ok(3))
qed

end
